(* ===== verification/Router_Prelude.thy ===== *)
theory Router_Prelude
  imports Main "HOL-Library.Word" "HOL-Library.Sublist" "HOL-Library.AList"
begin

text \<open>
  The vocabulary every component shares: the Rust integer types at their width, time, the
  iterator adaptors of the standard library the policies use (\<open>position\<close>, \<open>min_by_key\<close>,
  \<open>max_by_key\<close>), byte-string search, and the hash maps whose iteration order is left open
  (association lists with distinct keys).

  \<^item> A Rust \<open>u32\<close>, \<open>u64\<close> or \<open>usize\<close> that the code lets wrap (atomic \<open>fetch_add\<close>) is a word of
    that width. A length or an index, which the allocator bounds far below the width, is a \<open>nat\<close>.
  \<^item> \<open>Instant\<close> and \<open>Duration\<close> are nanoseconds in \<open>nat\<close>; \<open>Instant::elapsed\<close> saturates at
    zero, as \<open>nat\<close> subtraction does.
  \<^item> A \<open>str\<close> that is only searched, compared and sliced at match positions is its UTF-8 bytes, a
    \<open>string\<close>. Text that is counted in characters is a list of code points (theory \<open>Utf8_Text\<close>).
\<close>

section \<open>Names for the Rust types\<close>

type_synonym u8 = "8 word"
type_synonym u32 = "32 word"
type_synonym u64 = "64 word"
type_synonym usize = "64 word"
type_synonym instant = nat
type_synonym duration = nat

named_theorems router_simps \<open>unfolding rules of the model's small definitions\<close>
named_theorems inv_intros \<open>preservation of the components' invariants\<close>

section \<open>Saturating and checked arithmetic\<close>

definition saturating_sub :: "'a::len word \<Rightarrow> 'a word \<Rightarrow> 'a word" where
  "saturating_sub a b = (if a < b then 0 else a - b)"

lemma unat_saturating_sub [simp]: "unat (saturating_sub a b) = unat a - unat b"
  by (simp add: saturating_sub_def unat_sub_if_size word_less_nat_alt)

lemma unat_Suc_word:
  fixes w :: "'a::len word"
  assumes "Suc (unat w) < 2 ^ LENGTH('a)"
  shows "unat (w + 1) = Suc (unat w)"
  using assms by (simp add: unat_word_ariths)

lemma unat_Suc_word_less:
  fixes w v :: "'a::len word"
  assumes "w < v"
  shows "unat (w + 1) = Suc (unat w)"
proof (rule unat_Suc_word)
  have "unat v < 2 ^ LENGTH('a)" by (rule unsigned_less)
  moreover from assms have "unat w < unat v" by (simp add: word_less_nat_alt)
  ultimately show "Suc (unat w) < 2 ^ LENGTH('a)" by linarith
qed

section \<open>Iterator adaptors\<close>

text \<open>
  \<open>position\<close> is the first index that satisfies a predicate; of equal keys, \<open>min_by_key\<close>
  keeps the first element and \<open>max_by_key\<close> the last.
\<close>

fun position :: "('a \<Rightarrow> bool) \<Rightarrow> 'a list \<Rightarrow> nat option" where
  "position p [] = None"
| "position p (x # xs) = (if p x then Some 0 else map_option Suc (position p xs))"

fun min_by_key :: "('a \<Rightarrow> 'k::linorder) \<Rightarrow> 'a list \<Rightarrow> 'a option" where
  "min_by_key f [] = None"
| "min_by_key f (x # xs) =
     (case min_by_key f xs of None \<Rightarrow> Some x | Some m \<Rightarrow> Some (if f m < f x then m else x))"

fun max_by_key :: "('a \<Rightarrow> 'k::linorder) \<Rightarrow> 'a list \<Rightarrow> 'a option" where
  "max_by_key f [] = None"
| "max_by_key f (x # xs) =
     (case max_by_key f xs of None \<Rightarrow> Some x | Some m \<Rightarrow> Some (if f m < f x then x else m))"

lemma position_None_iff: "position p xs = None \<longleftrightarrow> (\<forall>x\<in>set xs. \<not> p x)"
  by (induction xs) auto

lemma position_SomeD: "position p xs = Some i \<Longrightarrow> i < length xs \<and> p (xs ! i) \<and> (\<forall>j<i. \<not> p (xs ! j))"
proof (induction xs arbitrary: i)
  case (Cons x xs)
  then show ?case by (auto simp: nth_Cons less_Suc_eq_0_disj split: if_splits nat.split)
qed simp

lemma position_map: "position p (map f xs) = position (\<lambda>x. p (f x)) xs"
  by (induction xs) auto

lemma max_by_key_None [simp]: "max_by_key f xs = None \<longleftrightarrow> xs = []"
  by (cases xs) (auto split: option.split)

lemma min_by_key_None [simp]: "min_by_key f xs = None \<longleftrightarrow> xs = []"
  by (cases xs) (auto split: option.split)

lemma max_by_key_SomeD: "max_by_key f xs = Some x \<Longrightarrow> x \<in> set xs \<and> (\<forall>y\<in>set xs. f y \<le> f x)"
  by (induction xs arbitrary: x) (auto split: option.splits if_splits)

lemma min_by_key_SomeD: "min_by_key f xs = Some x \<Longrightarrow> x \<in> set xs \<and> (\<forall>y\<in>set xs. f x \<le> f y)"
  by (induction xs arbitrary: x) (auto split: option.splits if_splits)

lemma max_by_key_filter:
  "max_by_key f xs = Some x \<Longrightarrow> p x \<Longrightarrow> max_by_key f (filter p xs) = Some x"
proof (induction xs)
  case (Cons y xs)
  show ?case
  proof (cases "max_by_key f xs")
    case None
    then show ?thesis using Cons.prems by auto
  next
    case (Some m)
    show ?thesis
    proof (cases "f m < f y")
      case True
      then have "x = y" using Cons.prems(1) Some by simp
      moreover have "f z < f y" if "max_by_key f (filter p xs) = Some z" for z
        using max_by_key_SomeD [OF that] max_by_key_SomeD [OF Some] True by auto
      ultimately show ?thesis using Cons.prems(2) by (auto split: option.split)
    next
      case False
      then show ?thesis using Cons Some by auto
    qed
  qed
qed simp

lemma max_by_key_cong: "(\<And>x. x \<in> set xs \<Longrightarrow> f x = g x) \<Longrightarrow> max_by_key f xs = max_by_key g xs"
proof (induction xs)
  case (Cons y xs)
  then have "max_by_key f xs = max_by_key g xs" by simp
  then show ?case using Cons.prems max_by_key_SomeD [of g xs] by (auto split: option.split)
qed simp

lemma min_by_key_cong: "(\<And>x. x \<in> set xs \<Longrightarrow> f x = g x) \<Longrightarrow> min_by_key f xs = min_by_key g xs"
proof (induction xs)
  case (Cons y xs)
  then have "min_by_key f xs = min_by_key g xs" by simp
  then show ?case using Cons.prems min_by_key_SomeD [of g xs] by (auto split: option.split)
qed simp

end
