(* ===== verification/Circuit_Breaker.thy ===== *)
theory Circuit_Breaker
  imports Router_Prelude
begin

text \<open>
  The per-worker circuit breaker of \<^verbatim>\<open>src/core/circuit_breaker.rs\<close>: its configuration, its
  state, every operation that reads or changes it, and a machine whose steps are those
  operations. The fields live in separate atomics and locks; each operation is modelled as one
  atomic step, with the instant it reads from the clock as its first argument.
\<close>

section \<open>Configuration and state\<close>

record circuit_breaker_config =
  cb_failure_threshold :: u32
  cb_success_threshold :: u32
  cb_timeout_duration :: duration
  cb_window_duration :: duration

definition default_cb_config :: circuit_breaker_config where
  "default_cb_config =
     \<lparr>cb_failure_threshold = 5, cb_success_threshold = 2,
      cb_timeout_duration = 30 * 10 ^ 9, cb_window_duration = 60 * 10 ^ 9\<rparr>"

datatype circuit_state = Closed | Open | HalfOpen

record circuit_breaker =
  cb_state :: circuit_state
  consecutive_failures :: u32
  consecutive_successes :: u32
  total_failures :: u64
  total_successes :: u64
  last_failure_time :: "instant option"
  last_state_change :: instant
  cb_config :: circuit_breaker_config

definition with_config :: "instant \<Rightarrow> circuit_breaker_config \<Rightarrow> circuit_breaker" where
  "with_config now cfg =
     \<lparr>cb_state = Closed, consecutive_failures = 0, consecutive_successes = 0,
      total_failures = 0, total_successes = 0, last_failure_time = None,
      last_state_change = now, cb_config = cfg\<rparr>"

definition cb_new :: "instant \<Rightarrow> circuit_breaker" where
  "cb_new now = with_config now default_cb_config"

section \<open>Operations\<close>

definition transition_to ::
  "instant \<Rightarrow> circuit_state \<Rightarrow> circuit_breaker \<Rightarrow> circuit_breaker" where
  "transition_to now new_state cb =
     (if cb_state cb \<noteq> new_state then
        (let cb' = cb\<lparr>cb_state := new_state, last_state_change := now\<rparr> in
         case new_state of
           Closed \<Rightarrow> cb'\<lparr>consecutive_failures := 0, consecutive_successes := 0\<rparr>
         | Open \<Rightarrow> cb'\<lparr>consecutive_successes := 0\<rparr>
         | HalfOpen \<Rightarrow> cb'\<lparr>consecutive_failures := 0, consecutive_successes := 0\<rparr>)
      else cb)"

definition check_and_update_state :: "instant \<Rightarrow> circuit_breaker \<Rightarrow> circuit_breaker" where
  "check_and_update_state now cb =
     (if cb_state cb = Open
         \<and> now - last_state_change cb \<ge> cb_timeout_duration (cb_config cb)
      then transition_to now HalfOpen cb else cb)"

definition can_execute :: "instant \<Rightarrow> circuit_breaker \<Rightarrow> bool \<times> circuit_breaker" where
  "can_execute now cb =
     (let cb' = check_and_update_state now cb in
      (case cb_state cb' of Closed \<Rightarrow> True | Open \<Rightarrow> False | HalfOpen \<Rightarrow> True, cb'))"

definition get_state :: "instant \<Rightarrow> circuit_breaker \<Rightarrow> circuit_state \<times> circuit_breaker" where
  "get_state now cb = (let cb' = check_and_update_state now cb in (cb_state cb', cb'))"

definition record_success :: "instant \<Rightarrow> circuit_breaker \<Rightarrow> circuit_breaker" where
  "record_success now cb =
     (let cb1 = cb\<lparr>total_successes := total_successes cb + 1, consecutive_failures := 0\<rparr>;
          successes = consecutive_successes cb1 + 1;
          cb2 = cb1\<lparr>consecutive_successes := successes\<rparr>
      in case cb_state cb2 of
           HalfOpen \<Rightarrow> if successes \<ge> cb_success_threshold (cb_config cb2)
                       then transition_to now Closed cb2 else cb2
         | Closed \<Rightarrow> cb2
         | Open \<Rightarrow> cb2)"

definition record_failure :: "instant \<Rightarrow> circuit_breaker \<Rightarrow> circuit_breaker" where
  "record_failure now cb =
     (let cb1 = cb\<lparr>total_failures := total_failures cb + 1, consecutive_successes := 0\<rparr>;
          failures = consecutive_failures cb1 + 1;
          cb2 = cb1\<lparr>consecutive_failures := failures, last_failure_time := Some now\<rparr>
      in case cb_state cb2 of
           Closed \<Rightarrow> if failures \<ge> cb_failure_threshold (cb_config cb2)
                     then transition_to now Open cb2 else cb2
         | HalfOpen \<Rightarrow> transition_to now Open cb2
         | Open \<Rightarrow> cb2)"

definition record_outcome :: "instant \<Rightarrow> bool \<Rightarrow> circuit_breaker \<Rightarrow> circuit_breaker" where
  "record_outcome now success cb =
     (if success then record_success now cb else record_failure now cb)"

definition is_half_open :: "instant \<Rightarrow> circuit_breaker \<Rightarrow> bool \<times> circuit_breaker" where
  "is_half_open now cb = (let (st, cb') = get_state now cb in (st = HalfOpen, cb'))"

definition record_test_success :: "instant \<Rightarrow> circuit_breaker \<Rightarrow> circuit_breaker" where
  "record_test_success now cb =
     (let (half, cb') = is_half_open now cb in if half then record_success now cb' else cb')"

definition record_test_failure :: "instant \<Rightarrow> circuit_breaker \<Rightarrow> circuit_breaker" where
  "record_test_failure now cb =
     (let (half, cb') = is_half_open now cb in if half then record_failure now cb' else cb')"

definition cb_reset :: "instant \<Rightarrow> circuit_breaker \<Rightarrow> circuit_breaker" where
  "cb_reset now cb =
     (transition_to now Closed cb)\<lparr>consecutive_failures := 0, consecutive_successes := 0\<rparr>"

definition force_open :: "instant \<Rightarrow> circuit_breaker \<Rightarrow> circuit_breaker" where
  "force_open now cb = transition_to now Open cb"

definition time_since_last_failure :: "instant \<Rightarrow> circuit_breaker \<Rightarrow> duration option" where
  "time_since_last_failure now cb = map_option (\<lambda>t. now - t) (last_failure_time cb)"

definition time_since_last_state_change :: "instant \<Rightarrow> circuit_breaker \<Rightarrow> duration" where
  "time_since_last_state_change now cb = now - last_state_change cb"

record circuit_breaker_stats =
  st_state :: circuit_state
  st_consecutive_failures :: u32
  st_consecutive_successes :: u32
  st_total_failures :: u64
  st_total_successes :: u64
  st_time_since_last_failure :: "duration option"
  st_time_since_last_state_change :: duration

definition cb_stats ::
  "instant \<Rightarrow> circuit_breaker \<Rightarrow> circuit_breaker_stats \<times> circuit_breaker" where
  "cb_stats now cb =
     (let (st, cb') = get_state now cb in
      (\<lparr>st_state = st,
        st_consecutive_failures = consecutive_failures cb',
        st_consecutive_successes = consecutive_successes cb',
        st_total_failures = total_failures cb',
        st_total_successes = total_successes cb',
        st_time_since_last_failure = time_since_last_failure now cb',
        st_time_since_last_state_change = time_since_last_state_change now cb'\<rparr>, cb'))"

section \<open>The breaker as a machine\<close>

datatype cb_event =
    CanExecute | GetState | RecordSuccess | RecordFailure
  | RecordTestSuccess | RecordTestFailure | Reset | ForceOpen | Stats

fun cb_step :: "instant \<Rightarrow> cb_event \<Rightarrow> circuit_breaker \<Rightarrow> circuit_breaker" where
  "cb_step now CanExecute cb = snd (can_execute now cb)"
| "cb_step now GetState cb = snd (get_state now cb)"
| "cb_step now RecordSuccess cb = record_success now cb"
| "cb_step now RecordFailure cb = record_failure now cb"
| "cb_step now RecordTestSuccess cb = record_test_success now cb"
| "cb_step now RecordTestFailure cb = record_test_failure now cb"
| "cb_step now Reset cb = cb_reset now cb"
| "cb_step now ForceOpen cb = force_open now cb"
| "cb_step now Stats cb = snd (cb_stats now cb)"

fun cb_run :: "(instant \<times> cb_event) list \<Rightarrow> circuit_breaker \<Rightarrow> circuit_breaker" where
  "cb_run [] cb = cb"
| "cb_run ((now, e) # es) cb = cb_run es (cb_step now e cb)"

inductive cb_reachable :: "circuit_breaker_config \<Rightarrow> circuit_breaker \<Rightarrow> bool"
  for cfg :: circuit_breaker_config where
  cb_start: "cb_reachable cfg (with_config now cfg)"
| cb_next: "cb_reachable cfg cb \<Longrightarrow> cb_reachable cfg (cb_step now e cb)"

lemmas cb_op_defs =
  transition_to_def check_and_update_state_def can_execute_def get_state_def record_success_def
  record_failure_def is_half_open_def record_test_success_def record_test_failure_def
  cb_reset_def force_open_def cb_stats_def

lemma cb_step_config [simp]: "cb_config (cb_step now e cb) = cb_config cb"
  by (cases e; cases "cb_state cb") (auto simp: cb_op_defs Let_def)

lemma cb_run_config [simp]: "cb_config (cb_run es cb) = cb_config cb"
  by (induction es cb rule: cb_run.induct) auto

lemma cb_reachable_config: "cb_reachable cfg cb \<Longrightarrow> cb_config cb = cfg"
  by (induction rule: cb_reachable.induct) (auto simp: with_config_def)

section \<open>Counters and state agree\<close>

definition cb_inv :: "circuit_breaker \<Rightarrow> bool" where
  "cb_inv cb \<longleftrightarrow>
     (cb_state cb = Closed \<longrightarrow> consecutive_failures cb < cb_failure_threshold (cb_config cb)) \<and>
     (cb_state cb = HalfOpen \<longrightarrow>
        consecutive_failures cb = 0 \<and>
        consecutive_successes cb < cb_success_threshold (cb_config cb))"

lemma cb_inv_step:
  assumes "cb_inv cb"
    and "0 < cb_failure_threshold (cb_config cb)" and "0 < cb_success_threshold (cb_config cb)"
  shows "cb_inv (cb_step now e cb)"
  using assms
  by (cases e; cases "cb_state cb")
    (auto simp: cb_inv_def cb_op_defs Let_def not_le)

lemma cb_inv_run:
  assumes "cb_inv cb"
    and "0 < cb_failure_threshold (cb_config cb)" and "0 < cb_success_threshold (cb_config cb)"
  shows "cb_inv (cb_run es cb)"
  using assms by (induction es cb rule: cb_run.induct) (auto intro: cb_inv_step)

lemma cb_inv_with_config: "0 < cb_failure_threshold cfg \<Longrightarrow> cb_inv (with_config now cfg)"
  by (simp add: cb_inv_def with_config_def)

lemma cb_reachable_inv:
  assumes "cb_reachable cfg cb" and "0 < cb_failure_threshold cfg" and "0 < cb_success_threshold cfg"
  shows "cb_inv cb"
  using assms
proof (induction rule: cb_reachable.induct)
  case (cb_start now)
  then show ?case by (simp add: cb_inv_with_config)
next
  case (cb_next cb now e)
  then show ?case by (auto intro: cb_inv_step simp: cb_reachable_config)
qed

text \<open>
  C24: In every state the breaker can reach, with positive thresholds, a closed circuit has seen
  fewer consecutive failures than the failure threshold, and a half-open one has seen no failure
  and fewer consecutive successes than the success threshold: no operation leaves a counter
  past the threshold that should have triggered a transition.
\<close>

theorem cb_reachable_counters:
  assumes "cb_reachable cfg cb"
    and "0 < cb_failure_threshold cfg" and "0 < cb_success_threshold cfg"
  shows "(cb_state cb = Closed \<longrightarrow>
            unat (consecutive_failures cb) < unat (cb_failure_threshold cfg)) \<and>
         (cb_state cb = HalfOpen \<longrightarrow>
            consecutive_failures cb = 0 \<and>
            unat (consecutive_successes cb) < unat (cb_success_threshold cfg))"
  using cb_reachable_inv [OF assms] cb_reachable_config [OF assms(1)]
  by (auto simp: cb_inv_def word_less_nat_alt)

lemma cb_reachable_example:
  "cb_reachable default_cb_config
     (record_failure 7 (with_config 0 default_cb_config))"
  using cb_next [OF cb_start, of default_cb_config 7 RecordFailure 0] by simp

theorem cb_reachable_counters_witness:
  "cb_state (record_failure 7 (with_config 0 default_cb_config)) = Closed \<and>
   unat (consecutive_failures (record_failure 7 (with_config 0 default_cb_config))) < 5"
proof -
  have pos: "0 < cb_failure_threshold default_cb_config"
    "0 < cb_success_threshold default_cb_config"
    by (simp_all add: default_cb_config_def)
  have closed: "cb_state (record_failure 7 (with_config 0 default_cb_config)) = Closed"
    by (simp add: record_failure_def with_config_def default_cb_config_def Let_def word_le_nat_alt)
  show ?thesis
    using cb_reachable_counters [OF cb_reachable_example pos] closed
    by (simp add: default_cb_config_def)
qed

section \<open>An open circuit rejects until its timeout\<close>

lemma cb_step_open:
  assumes "cb_state cb = Open" and "e \<noteq> Reset"
    and "now - last_state_change cb < cb_timeout_duration (cb_config cb)"
  shows "cb_state (cb_step now e cb) = Open"
    and "last_state_change (cb_step now e cb) = last_state_change cb"
  using assms by (cases e; auto simp: cb_op_defs Let_def)+

lemma cb_run_open:
  assumes "cb_state cb = Open"
    and "\<forall>(t, e) \<in> set es. t - last_state_change cb < cb_timeout_duration (cb_config cb) \<and> e \<noteq> Reset"
  shows "cb_state (cb_run es cb) = Open \<and> last_state_change (cb_run es cb) = last_state_change cb"
  using assms
proof (induction es cb rule: cb_run.induct)
  case (1 cb)
  then show ?case by simp
next
  case (2 now e es cb)
  then have "e \<noteq> Reset" "now - last_state_change cb < cb_timeout_duration (cb_config cb)" by auto
  note step = cb_step_open [OF \<open>cb_state cb = Open\<close> this]
  from 2 step show ?case by simp
qed

text \<open>
  C25: Once open, the circuit rejects every request whose probe comes before the timeout since it
  opened has passed, whatever outcomes are recorded, probed or forced in between, as long as
  nobody resets it; and the time it opened does not move.
\<close>

theorem open_circuit_rejects:
  assumes "cb_state cb = Open"
    and "\<forall>(t, e) \<in> set es. t - last_state_change cb < cb_timeout_duration (cb_config cb) \<and> e \<noteq> Reset"
    and "now - last_state_change cb < cb_timeout_duration (cb_config cb)"
  shows "\<not> fst (can_execute now (cb_run es cb)) \<and>
         last_state_change (cb_run es cb) = last_state_change cb"
  using cb_run_open [OF assms(1,2)] assms(3)
  by (auto simp: can_execute_def check_and_update_state_def Let_def)

theorem open_circuit_rejects_witness:
  "\<not> fst (can_execute 40 (cb_run [(20, RecordSuccess), (30, RecordFailure), (31, ForceOpen)]
       (force_open 10 (with_config 0 default_cb_config))))"
proof -
  let ?cb = "force_open 10 (with_config 0 default_cb_config)"
  let ?es = "[(20, RecordSuccess), (30, RecordFailure), (31, ForceOpen)]"
  have "cb_state ?cb = Open"
    by (simp add: force_open_def transition_to_def with_config_def)
  moreover have "\<forall>(t, e) \<in> set ?es.
      t - last_state_change ?cb < cb_timeout_duration (cb_config ?cb) \<and> e \<noteq> Reset"
    by (simp add: force_open_def transition_to_def with_config_def default_cb_config_def)
  moreover have "40 - last_state_change ?cb < cb_timeout_duration (cb_config ?cb)"
    by (simp add: force_open_def transition_to_def with_config_def default_cb_config_def)
  ultimately show ?thesis using open_circuit_rejects by blast
qed

section \<open>The thresholds count exactly\<close>

lemma record_failure_closed:
  assumes "cb_state cb = Closed"
  shows "record_failure now cb =
    (let cb' = cb\<lparr>total_failures := total_failures cb + 1, consecutive_successes := 0,
                  consecutive_failures := consecutive_failures cb + 1,
                  last_failure_time := Some now\<rparr>
     in if cb_failure_threshold (cb_config cb) \<le> consecutive_failures cb + 1
        then cb'\<lparr>cb_state := Open, last_state_change := now\<rparr> else cb')"
  using assms by (simp add: record_failure_def transition_to_def Let_def)

lemma record_failure_open: "cb_state cb = Open \<Longrightarrow> cb_state (record_failure now cb) = Open"
  by (simp add: record_failure_def Let_def)

lemma fold_record_failure_open:
  "cb_state cb = Open \<Longrightarrow> cb_state (fold record_failure ts cb) = Open"
  by (induction ts arbitrary: cb) (auto simp: record_failure_open)

lemma fold_record_failure_closed:
  assumes "cb_state cb = Closed"
    and "consecutive_failures cb = 0 \<or> consecutive_failures cb < cb_failure_threshold (cb_config cb)"
  shows "cb_state (fold record_failure ts cb) =
    (if ts \<noteq> [] \<and> unat (cb_failure_threshold (cb_config cb))
           \<le> unat (consecutive_failures cb) + length ts
     then Open else Closed)"
  using assms
proof (induction ts arbitrary: cb)
  case Nil
  then show ?case by simp
next
  case (Cons t ts)
  let ?ft = "cb_failure_threshold (cb_config cb)" and ?cf = "consecutive_failures cb"
  have suc: "unat (?cf + 1) = Suc (unat ?cf)"
    using Cons.prems(2) by (auto intro: unat_Suc_word_less)
  show ?case
  proof (cases "?ft \<le> ?cf + 1")
    case True
    then have "unat ?ft \<le> Suc (unat ?cf)" by (simp add: word_le_nat_alt suc)
    with True Cons.prems show ?thesis
      by (simp add: record_failure_closed fold_record_failure_open Let_def)
  next
    case False
    then have lt: "?cf + 1 < ?ft" by simp
    then have "Suc (unat ?cf) < unat ?ft" by (simp add: word_less_nat_alt suc)
    with False lt Cons.prems show ?thesis
      by (subst fold_simps(2), subst Cons.IH) (auto simp: record_failure_closed Let_def suc)
  qed
qed

text \<open>
  Starting closed with no failure counted, a run of failures opens the circuit exactly when
  it is at least as long as the failure threshold (a threshold of zero acts as one); until then
  the circuit stays closed.
\<close>

theorem failures_open_at_threshold:
  assumes "cb_state cb = Closed" and "consecutive_failures cb = 0"
  shows "cb_state (fold record_failure ts cb) =
    (if ts \<noteq> [] \<and> unat (cb_failure_threshold (cb_config cb)) \<le> length ts then Open else Closed)"
  using fold_record_failure_closed [of cb ts] assms by simp

theorem failures_open_at_threshold_witness:
  "cb_state (fold record_failure [1, 2, 3, 4] (cb_new 0)) = Closed \<and>
   cb_state (fold record_failure [1, 2, 3, 4, 5] (cb_new 0)) = Open"
proof -
  have "cb_state (cb_new 0) = Closed" "consecutive_failures (cb_new 0) = 0"
    by (simp_all add: cb_new_def with_config_def)
  note inst = failures_open_at_threshold [OF this]
  show ?thesis
    using inst [of "[1, 2, 3, 4]"] inst [of "[1, 2, 3, 4, 5]"]
    by (simp add: cb_new_def with_config_def default_cb_config_def del: fold_simps)
qed

lemma record_success_closed: "cb_state cb = Closed \<Longrightarrow> cb_state (record_success now cb) = Closed"
  by (simp add: record_success_def Let_def)

lemma fold_record_success_closed:
  "cb_state cb = Closed \<Longrightarrow> cb_state (fold record_success ts cb) = Closed"
  by (induction ts arbitrary: cb) (auto simp: record_success_closed)

lemma record_success_half_open:
  assumes "cb_state cb = HalfOpen"
  shows "record_success now cb =
    (let cb' = cb\<lparr>total_successes := total_successes cb + 1, consecutive_failures := 0,
                  consecutive_successes := consecutive_successes cb + 1\<rparr>
     in if cb_success_threshold (cb_config cb) \<le> consecutive_successes cb + 1
        then transition_to now Closed cb' else cb')"
  using assms by (simp add: record_success_def Let_def)

lemma cb_state_transition_to [simp]: "cb_state (transition_to now s cb) = s"
  by (cases s) (auto simp: transition_to_def Let_def)

lemma fold_record_success_half_open:
  assumes "cb_state cb = HalfOpen"
    and "consecutive_successes cb = 0 \<or> consecutive_successes cb < cb_success_threshold (cb_config cb)"
  shows "cb_state (fold record_success ts cb) =
    (if ts \<noteq> [] \<and> unat (cb_success_threshold (cb_config cb))
           \<le> unat (consecutive_successes cb) + length ts
     then Closed else HalfOpen)"
  using assms
proof (induction ts arbitrary: cb)
  case Nil
  then show ?case by simp
next
  case (Cons t ts)
  let ?st = "cb_success_threshold (cb_config cb)" and ?cs = "consecutive_successes cb"
  have suc: "unat (?cs + 1) = Suc (unat ?cs)"
    using Cons.prems(2) by (auto intro: unat_Suc_word_less)
  show ?case
  proof (cases "?st \<le> ?cs + 1")
    case True
    then have "unat ?st \<le> Suc (unat ?cs)" by (simp add: word_le_nat_alt suc)
    with True Cons.prems show ?thesis
      by (simp add: record_success_half_open fold_record_success_closed Let_def)
  next
    case False
    then have lt: "?cs + 1 < ?st" by simp
    then have "Suc (unat ?cs) < unat ?st" by (simp add: word_less_nat_alt suc)
    with False lt Cons.prems show ?thesis
      by (subst fold_simps(2), subst Cons.IH) (auto simp: record_success_half_open Let_def suc)
  qed
qed

text \<open>
  C26: The first probe after the timeout of an open circuit admits the request and leaves the
  circuit half-open with fresh counters; from there a run of successes closes it exactly when it
  is at least as long as the success threshold, and a single failure opens it again and restarts
  the timeout.
\<close>

theorem half_open_trial:
  assumes "cb_state cb = Open"
    and "last_state_change cb + cb_timeout_duration (cb_config cb) \<le> now"
  shows "fst (can_execute now cb) \<and>
         cb_state (snd (can_execute now cb)) = HalfOpen \<and>
         cb_state (fold record_success ts (snd (can_execute now cb))) =
           (if ts \<noteq> [] \<and> unat (cb_success_threshold (cb_config cb)) \<le> length ts
            then Closed else HalfOpen) \<and>
         cb_state (record_failure t (snd (can_execute now cb))) = Open \<and>
         last_state_change (record_failure t (snd (can_execute now cb))) = t"
proof -
  let ?cb = "snd (can_execute now cb)"
  from assms have cb: "?cb = transition_to now HalfOpen cb" "fst (can_execute now cb)"
    by (auto simp: can_execute_def check_and_update_state_def Let_def)
  have fields: "cb_state ?cb = HalfOpen" "consecutive_successes ?cb = 0" "cb_config ?cb = cb_config cb"
    using assms(1) by (auto simp: cb transition_to_def Let_def)
  have "cb_state (record_failure t ?cb) = Open" "last_state_change (record_failure t ?cb) = t"
    using fields(1) by (auto simp: record_failure_def transition_to_def Let_def)
  then show ?thesis
    using cb(2) fields fold_record_success_half_open [OF fields(1), of ts] by simp
qed

theorem half_open_trial_witness:
  "cb_state (fold record_success [31, 32]
      (snd (can_execute (40 * 10 ^ 9) (force_open 0 (cb_new 0))))) = Closed"
proof -
  have "cb_state (force_open 0 (cb_new 0)) = Open" by (simp add: force_open_def)
  moreover have "last_state_change (force_open 0 (cb_new 0))
      + cb_timeout_duration (cb_config (force_open 0 (cb_new 0))) \<le> 40 * 10 ^ 9"
    by (simp add: force_open_def transition_to_def cb_new_def with_config_def default_cb_config_def)
  moreover have "cb_success_threshold (cb_config (force_open 0 (cb_new 0))) = 2"
    by (simp add: force_open_def transition_to_def cb_new_def with_config_def default_cb_config_def)
  ultimately show ?thesis
    using half_open_trial [of "force_open 0 (cb_new 0)" "40 * 10 ^ 9" "[31, 32]"]
    by (simp del: fold_simps)
qed

section \<open>Probing is idempotent\<close>

lemma can_execute_idem:
  "can_execute now (snd (can_execute now cb)) = can_execute now cb"
  by (cases "cb_state cb")
    (auto simp: can_execute_def check_and_update_state_def transition_to_def Let_def)

end
