(* ===== verification/Rust_Str.thy ===== *)
theory Rust_Str
  imports Router_Prelude
begin

text \<open>
  The operations of Rust's \<^verbatim>\<open>str\<close> that the router uses on URLs, headers and
  session keys.  Such a string is the list of its UTF-8 bytes, one
  \<^typ>\<open>char\<close> per byte, so that \<^const>\<open>length\<close> is \<^verbatim>\<open>str::len\<close>.

  \<^item> \<open>split_char\<close> is \<^verbatim>\<open>str::split(c)\<close> for an ASCII separator, \<open>rsplit_once\<close>,
    \<open>strip_prefix\<close> and \<open>str_find\<close> are the methods of the same names;
  \<^item> \<open>show_nat\<close> is the \<^verbatim>\<open>Display\<close> of the unsigned integers and \<open>parse_uint\<close> is
    \<^verbatim>\<open>from_str\<close> of the unsigned type whose largest value is given: an empty
    string, a lone sign, a byte that is no digit and an overflow are errors,
    a leading plus sign is accepted;
  \<^item> the lemmas are the round trips the URL formats rest on.
\<close>

type_synonym str = string

subsection \<open>Splitting and searching\<close>

fun split_char :: "char \<Rightarrow> str \<Rightarrow> str list" where
  "split_char d [] = [[]]"
| "split_char d (c # cs) =
     (if c = d then [] # split_char d cs
      else (case split_char d cs of
              [] \<Rightarrow> [[c]]
            | p # ps \<Rightarrow> (c # p) # ps))"

fun split_once :: "char \<Rightarrow> str \<Rightarrow> (str \<times> str) option" where
  "split_once d [] = None"
| "split_once d (c # cs) =
     (if c = d then Some ([], cs)
      else map_option (\<lambda>(p, q). (c # p, q)) (split_once d cs))"

definition rsplit_once :: "char \<Rightarrow> str \<Rightarrow> (str \<times> str) option" where
  "rsplit_once d s =
     map_option (\<lambda>(p, q). (rev q, rev p)) (split_once d (rev s))"

definition starts_with :: "str \<Rightarrow> str \<Rightarrow> bool" where
  "starts_with p s = (take (length p) s = p)"

definition strip_prefix :: "str \<Rightarrow> str \<Rightarrow> str option" where
  "strip_prefix p s = (if starts_with p s then Some (drop (length p) s) else None)"

fun str_find :: "str \<Rightarrow> str \<Rightarrow> nat option" where
  "str_find pat [] = (if pat = [] then Some 0 else None)"
| "str_find pat (c # cs) =
     (if starts_with pat (c # cs) then Some 0 else map_option Suc (str_find pat cs))"

definition str_contains :: "str \<Rightarrow> str \<Rightarrow> bool" where
  "str_contains s pat = (str_find pat s \<noteq> None)"

lemma split_char_not_Nil [simp]: "split_char d s \<noteq> []"
  by (induction s) (auto split: list.split)

lemma split_char_no_sep: "d \<notin> set s \<Longrightarrow> split_char d s = [s]"
  by (induction s) auto

lemma split_char_app:
  "d \<notin> set p \<Longrightarrow> split_char d (p @ d # q) = p # split_char d q"
  by (induction p) auto

lemma split_char_length: "length (split_char d s) = Suc (count_list s d)"
  by (induction s) (auto split: list.split)

lemma split_char_parts: "p \<in> set (split_char d s) \<Longrightarrow> d \<notin> set p"
proof (induction s arbitrary: p)
  case (Cons c s)
  then show ?case
    by (cases "split_char d s") (auto split: if_splits)
qed auto

lemma split_char_two:
  assumes "split_char d s = [p, q]"
  shows "s = p @ d # q \<and> d \<notin> set p \<and> d \<notin> set q"
  using assms
proof (induction s arbitrary: p)
  case (Cons c s)
  show ?case
  proof (cases "c = d")
    case True
    with Cons.prems have "split_char d s = [q]" and [simp]: "p = []" by auto
    then have "count_list s d = 0"
      using split_char_length [of d s] by simp
    then have "d \<notin> set s" by (simp add: count_list_0_iff)
    moreover from this have "s = q"
      using split_char_no_sep [of d s] \<open>split_char d s = [q]\<close> by simp
    ultimately show ?thesis using True by simp
  next
    case False
    with Cons.prems obtain p' where "split_char d s = [p', q]" "p = c # p'"
      by (auto split: list.splits)
    with Cons.IH [of p'] False show ?thesis by auto
  qed
qed auto

lemma split_once_None_iff [simp]: "split_once d s = None \<longleftrightarrow> d \<notin> set s"
  by (induction s) auto

lemma split_once_app: "d \<notin> set p \<Longrightarrow> split_once d (p @ d # q) = Some (p, q)"
  by (induction p) auto

lemma split_once_SomeD:
  "split_once d s = Some (p, q) \<Longrightarrow> s = p @ d # q \<and> d \<notin> set p"
  by (induction s arbitrary: p) (auto split: if_splits)

lemma rsplit_once_app: "d \<notin> set q \<Longrightarrow> rsplit_once d (p @ d # q) = Some (p, q)"
  by (simp add: rsplit_once_def split_once_app)

lemma rsplit_once_None [simp]: "rsplit_once d s = None \<longleftrightarrow> d \<notin> set s"
  by (simp add: rsplit_once_def)

lemma rsplit_once_SomeD:
  assumes "rsplit_once d s = Some (p, q)"
  shows "s = p @ d # q \<and> d \<notin> set q"
proof -
  from assms obtain a b where ab: "split_once d (rev s) = Some (a, b)" "p = rev b" "q = rev a"
    by (auto simp: rsplit_once_def)
  then have "rev s = a @ d # b" "d \<notin> set a" using split_once_SomeD by blast+
  then have "s = rev (a @ d # b)" by (metis rev_rev_ident)
  with ab \<open>d \<notin> set a\<close> show ?thesis by simp
qed

lemma starts_with_append [simp]: "starts_with p (p @ s)"
  by (simp add: starts_with_def)

lemma starts_with_iff: "starts_with p s \<longleftrightarrow> (\<exists>r. s = p @ r)"
  by (auto simp: starts_with_def) (metis append_take_drop_id)

lemma strip_prefix_Some_iff: "strip_prefix p s = Some r \<longleftrightarrow> s = p @ r"
  by (auto simp: strip_prefix_def starts_with_iff)

lemma str_find_SomeD:
  "str_find pat s = Some i \<Longrightarrow> i \<le> length s \<and> starts_with pat (drop i s)"
  by (induction s arbitrary: i) (auto simp: starts_with_def split: if_splits)

lemma str_find_least:
  "str_find pat s = Some i \<Longrightarrow> j < i \<Longrightarrow> \<not> starts_with pat (drop j s)"
proof (induction s arbitrary: i j)
  case (Cons c s)
  then show ?case by (cases j) (auto split: if_splits)
qed (auto split: if_splits)

lemma str_find_None:
  "str_find pat s = None \<Longrightarrow> \<not> starts_with pat (drop j s)"
proof (induction s arbitrary: j)
  case (Cons c s)
  then show ?case by (cases j) (auto split: if_splits)
qed (auto simp: starts_with_def split: if_splits)

lemma str_contains_single [simp]: "str_contains s [c] \<longleftrightarrow> c \<in> set s"
  unfolding str_contains_def by (induction s) (auto simp: starts_with_def)

subsection \<open>Decimal integers\<close>

definition digit_char :: "nat \<Rightarrow> char" where
  "digit_char d = char_of (48 + d)"

definition to_digit :: "char \<Rightarrow> nat option" where
  "to_digit c = (let k = of_char c :: nat in if 48 \<le> k \<and> k < 58 then Some (k - 48) else None)"

fun show_nat :: "nat \<Rightarrow> str" where
  "show_nat n =
     (if n < 10 then [digit_char n] else show_nat (n div 10) @ [digit_char (n mod 10)])"

fun parse_digits :: "nat \<Rightarrow> nat \<Rightarrow> str \<Rightarrow> nat option" where
  "parse_digits mx acc [] = Some acc"
| "parse_digits mx acc (c # cs) =
     (case to_digit c of
        None \<Rightarrow> None
      | Some d \<Rightarrow> if mx < acc * 10 + d then None else parse_digits mx (acc * 10 + d) cs)"

definition parse_uint :: "nat \<Rightarrow> str \<Rightarrow> nat option" where
  "parse_uint mx s =
     (case s of
        [] \<Rightarrow> None
      | c # cs \<Rightarrow>
          if cs = [] \<and> (c = CHR ''+'' \<or> c = CHR ''-'') then None
          else if c = CHR ''+'' then parse_digits mx 0 cs
          else parse_digits mx 0 s)"

definition u32_max :: nat where "u32_max = 4294967295"
definition usize_max :: nat where "usize_max = 18446744073709551615"

declare show_nat.simps [simp del]

lemma to_digit_digit_char [simp]: "d < 10 \<Longrightarrow> to_digit (digit_char d) = Some d"
  by (simp add: to_digit_def digit_char_def Let_def of_char_of)

lemma to_digit_SomeD: "to_digit c = Some d \<Longrightarrow> d < 10 \<and> c = digit_char d"
  by (auto simp: to_digit_def digit_char_def Let_def split: if_splits)

lemma digit_char_range: "d < 10 \<Longrightarrow> of_char (digit_char d) \<in> {48..<58::nat}"
  by (simp add: digit_char_def of_char_of)

lemma show_nat_not_Nil [simp]: "show_nat n \<noteq> []"
  by (subst show_nat.simps) simp

lemma set_show_nat: "c \<in> set (show_nat n) \<Longrightarrow> of_char c \<in> {48..<58::nat}"
proof (induction n rule: show_nat.induct)
  case (1 n)
  then show ?case
    by (subst (asm) (2) show_nat.simps) (auto simp: digit_char_range split: if_splits simp del: atLeastLessThan_iff)
qed

lemma no_sign_in_show_nat:
  "CHR ''+'' \<notin> set (show_nat n)" "CHR ''-'' \<notin> set (show_nat n)" "CHR ''@'' \<notin> set (show_nat n)"
  using set_show_nat [of _ n] by fastforce+

lemma parse_digits_append:
  "parse_digits mx acc (xs @ ys) =
     Option.bind (parse_digits mx acc xs) (\<lambda>a. parse_digits mx a ys)"
  by (induction xs arbitrary: acc) (auto split: option.split)

lemma parse_digits_show_nat: "n \<le> mx \<Longrightarrow> parse_digits mx 0 (show_nat n) = Some n"
proof (induction n rule: show_nat.induct)
  case (1 n)
  show ?case
  proof (cases "n < 10")
    case True
    then show ?thesis using 1(2) by (subst show_nat.simps) simp
  next
    case False
    have "parse_digits mx 0 (show_nat (n div 10)) = Some (n div 10)"
      using 1 False by auto
    moreover have "n div 10 * 10 + n mod 10 = n" by simp
    ultimately show ?thesis using False 1(2)
      by (subst show_nat.simps) (simp add: parse_digits_append)
  qed
qed

lemma parse_uint_show_nat [simp]:
  assumes "n \<le> mx"
  shows "parse_uint mx (show_nat n) = Some n"
proof (cases "show_nat n")
  case Nil
  then show ?thesis by simp
next
  case (Cons c cs)
  then have "c \<noteq> CHR ''+''" "c \<noteq> CHR ''-''"
    using no_sign_in_show_nat(1,2) [of n] by auto
  with Cons parse_digits_show_nat [OF assms] show ?thesis
    by (simp add: parse_uint_def)
qed

lemma parse_digits_bound: "parse_digits mx acc s = Some n \<Longrightarrow> acc \<le> mx \<Longrightarrow> n \<le> mx"
  by (induction s arbitrary: acc) (auto split: option.splits if_splits)

lemma parse_uint_bound: "parse_uint mx s = Some n \<Longrightarrow> n \<le> mx"
  unfolding parse_uint_def
  by (auto split: list.splits if_splits simp del: parse_digits.simps dest: parse_digits_bound)

lemma show_nat_inject: "show_nat m = show_nat n \<longleftrightarrow> m = n"
  by (metis max.cobounded1 max.cobounded2 option.inject parse_uint_show_nat)

end
