(* ===== verification/Dp_Url.thy ===== *)
theory Dp_Url
  imports Rust_Str
begin

text \<open>
  Worker URLs: \<^verbatim>\<open>routers/http/dp_utils.rs\<close> (data-parallel ranks written as an
  \<^verbatim>\<open>@rank\<close> suffix and the discovery of the number of engines),
  \<^verbatim>\<open>backend/detect.rs\<close> (URL scheme, connection mode and gRPC address) and the copy
  of the suffix parser in \<^verbatim>\<open>policies/consistent_hash.rs\<close>.

  The source parses the suffix in four places: \<open>extract_dp_rank\<close> and
  \<open>extract_dp_info\<close> split at every \<^verbatim>\<open>@\<close>, \<open>strip_dp_suffix\<close> and \<open>parse_dp_rank\<close>
  at the last one.  The lemmas say where these agree and that each inverts the
  expansion \<open>get_dp_aware_workers\<close>.  The HTTP request of \<open>discover_dp_size\<close> is
  the argument \<open>fetch\<close>, which gives the body of a successful response.
\<close>

subsection \<open>Scheme and connection mode\<close>

datatype connection_mode = Http | Grpc

datatype worker_pool_kind = PoolHttp | PoolGrpc

definition is_grpc_url :: "str \<Rightarrow> bool" where
  "is_grpc_url url = starts_with ''grpc://'' url"

definition pool_kind_debug :: "worker_pool_kind \<Rightarrow> str" where
  "pool_kind_debug k = (case k of PoolHttp \<Rightarrow> ''Http'' | PoolGrpc \<Rightarrow> ''Grpc'')"

definition grpcs_error :: "str \<Rightarrow> str" where
  "grpcs_error s =
     ''grpcs:// workers require tonic TLS support, which is not enabled yet: '' @ s"

definition mixed_error :: "str \<Rightarrow> worker_pool_kind \<Rightarrow> str" where
  "mixed_error url existing =
     ''mixed worker schemes are not supported (grpc:// is token_ids-only; ''
     @ ''http:// proxies text). got '' @ url @ '' in a ''
     @ pool_kind_debug existing @ '' pool''"

fun classify_loop :: "worker_pool_kind option \<Rightarrow> str list \<Rightarrow> str + worker_pool_kind option" where
  "classify_loop kind [] = Inr kind"
| "classify_loop kind (url # urls) =
     (if starts_with ''grpcs://'' url then Inl (grpcs_error url)
      else
        let nxt = (if is_grpc_url url then PoolGrpc else PoolHttp) in
        case kind of
          None \<Rightarrow> classify_loop (Some nxt) urls
        | Some existing \<Rightarrow>
            if existing \<noteq> nxt then
              Inl (mixed_error url existing)
            else classify_loop kind urls)"

definition classify_worker_urls :: "str list \<Rightarrow> str + worker_pool_kind option" where
  "classify_worker_urls urls = classify_loop None urls"

definition connection_mode_from_url :: "str \<Rightarrow> connection_mode" where
  "connection_mode_from_url url = (if is_grpc_url url then Grpc else Http)"

subsection \<open>The rank suffix of gRPC URLs\<close>

definition strip_dp_suffix :: "str \<Rightarrow> str" where
  "strip_dp_suffix url =
     (case Option.bind (rsplit_once CHR ''@'' url)
             (\<lambda>(pre, rank). map_option (\<lambda>_. pre) (parse_uint u32_max rank)) of
        Some pre \<Rightarrow> pre
      | None \<Rightarrow> url)"

definition parse_dp_rank :: "str \<Rightarrow> nat option" where
  "parse_dp_rank url =
     Option.bind (rsplit_once CHR ''@'' url) (\<lambda>(_, rank). parse_uint u32_max rank)"

definition grpc_connect_uri :: "str \<Rightarrow> str + str" where
  "grpc_connect_uri url =
     (let base = strip_dp_suffix url in
      case strip_prefix ''grpc://'' base of
        Some rest \<Rightarrow> Inr (''http://'' @ rest)
      | None \<Rightarrow>
          (case strip_prefix ''grpcs://'' base of
             Some rest \<Rightarrow> Inl (grpcs_error rest)
           | None \<Rightarrow> Inl (''not a grpc worker URL: '' @ url)))"

definition grpc_socket_addr :: "str \<Rightarrow> str + str" where
  "grpc_socket_addr url =
     (case grpc_connect_uri url of
        Inl e \<Rightarrow> Inl e
      | Inr uri \<Rightarrow>
          (case strip_prefix ''http://'' uri of
             Some a \<Rightarrow> Inr a
           | None \<Rightarrow>
               (case strip_prefix ''https://'' uri of
                  Some a \<Rightarrow> Inr a
                | None \<Rightarrow> Inl (''failed to parse grpc address from '' @ url))))"

subsection \<open>Data-parallel URLs\<close>

definition get_dp_aware_workers :: "str list \<Rightarrow> nat \<Rightarrow> str list" where
  "get_dp_aware_workers worker_urls dp_size =
     concat (map (\<lambda>url. map (\<lambda>rank. url @ ''@'' @ show_nat rank) [0..<dp_size]) worker_urls)"

definition extract_dp_rank :: "str \<Rightarrow> str + (str \<times> nat)" where
  "extract_dp_rank worker_url =
     (let parts = split_char CHR ''@'' worker_url in
      if length parts \<noteq> 2 then Inl (''invalid worker_url format: '' @ worker_url)
      else (case parse_uint usize_max (parts ! 1) of
              Some dp_rank \<Rightarrow> Inr (parts ! 0, dp_rank)
            | None \<Rightarrow> Inl (''failed to parse dp_rank from worker_url: '' @ worker_url)))"

definition parse_worker_url :: "str \<Rightarrow> str \<times> nat option" where
  "parse_worker_url worker_url =
     (case extract_dp_rank worker_url of
        Inr (base, rank) \<Rightarrow> (base, Some rank)
      | Inl _ \<Rightarrow> (worker_url, None))"

definition extract_dp_info :: "str \<Rightarrow> str \<times> nat option" where
  "extract_dp_info worker_url =
     (if CHR ''@'' \<in> set worker_url then
        let parts = split_char CHR ''@'' worker_url in
        if length parts = 2 then
          (case parse_uint usize_max (parts ! 1) of
             Some dp_rank \<Rightarrow> (parts ! 0, Some dp_rank)
           | None \<Rightarrow> (worker_url, None))
        else (worker_url, None)
      else (worker_url, None))"

subsection \<open>Counting the engines of a worker\<close>

definition strip_cr :: "str \<Rightarrow> str" where
  "strip_cr l = (if l \<noteq> [] \<and> last l = char_of (13::nat) then butlast l else l)"

definition str_lines :: "str \<Rightarrow> str list" where
  "str_lines s =
     (let ps = split_char (char_of (10::nat)) s in
      map strip_cr (butlast ps) @ (if last ps = [] then [] else [last ps]))"

definition str_split_once :: "str \<Rightarrow> str \<Rightarrow> (str \<times> str) option" where
  "str_split_once pat s =
     map_option (\<lambda>i. (take i s, drop (i + length pat) s)) (str_find pat s)"

definition engine_label :: "str \<Rightarrow> str option" where
  "engine_label line =
     Option.bind (str_split_once ''engine=\"'' line)
       (\<lambda>(_, after_label). map_option fst (str_split_once ''\"'' after_label))"

definition count_engine_labels :: "str \<Rightarrow> nat option" where
  "count_engine_labels metrics_body =
     (let engines = remdups (List.map_filter engine_label
                      (filter (starts_with ''vllm:'') (str_lines metrics_body))) in
      if engines = [] then None else Some (length engines))"

definition trim_end_matches :: "char \<Rightarrow> str \<Rightarrow> str" where
  "trim_end_matches c s = rev (dropWhile (\<lambda>x. x = c) (rev s))"

definition discover_dp_size :: "(str \<Rightarrow> str option) \<Rightarrow> str \<Rightarrow> nat \<Rightarrow> nat" where
  "discover_dp_size fetch worker_url fallback_dp_size =
     (let fallback = max fallback_dp_size 1;
          (base_url, _) = parse_worker_url worker_url;
          metrics_url = trim_end_matches CHR ''/'' base_url @ ''/metrics'' in
      case Option.bind (fetch metrics_url) count_engine_labels of
        Some dp_size \<Rightarrow> dp_size
      | None \<Rightarrow> fallback)"

subsection \<open>Facts\<close>


lemma parse_worker_url_plain: "CHR ''@'' \<notin> set url \<Longrightarrow> parse_worker_url url = (url, None)"
  by (simp add: parse_worker_url_def extract_dp_rank_def split_char_no_sep)

lemma parse_worker_url_cases:
  obtains base rank where "parse_worker_url url = (base, Some rank)"
      "CHR ''@'' \<notin> set base" "parse_uint usize_max (drop (Suc (length base)) url) = Some rank"
      "take (Suc (length base)) url = base @ ''@''"
  | "parse_worker_url url = (url, None)"
proof (cases "extract_dp_rank url")
  case (Inl e)
  then show ?thesis using that(2) by (simp add: parse_worker_url_def)
next
  case (Inr br)
  then obtain p q where pq: "split_char CHR ''@'' url = [p, q]"
    by (auto simp: extract_dp_rank_def Let_def numeral_2_eq_2 length_Suc_conv split: if_splits)
  with split_char_two [OF pq] Inr show ?thesis
    by (intro that(1) [of p "snd br"])
      (auto simp: extract_dp_rank_def parse_worker_url_def Let_def split: option.splits)
qed

lemma grpc_suffix:
  assumes "r \<le> u32_max"
  shows "strip_dp_suffix (base @ ''@'' @ show_nat r) = base"
    and "parse_dp_rank (base @ ''@'' @ show_nat r) = Some r"
  using assms rsplit_once_app [of "CHR ''@''" "show_nat r" base]
  by (simp_all add: strip_dp_suffix_def parse_dp_rank_def no_sign_in_show_nat)

abbreviation pool_kind_of :: "str \<Rightarrow> worker_pool_kind" where
  "pool_kind_of u \<equiv> (if is_grpc_url u then PoolGrpc else PoolHttp)"

lemma classify_loop_Cons:
  "classify_loop kind (u # us) = Inr k \<longleftrightarrow>
     \<not> starts_with ''grpcs://'' u \<and> (kind = None \<or> kind = Some (pool_kind_of u))
     \<and> classify_loop (Some (pool_kind_of u)) us = Inr k"
  by (cases kind) (simp_all add: Let_def)

lemma classify_loop_Some:
  "classify_loop (Some p) urls = Inr k \<longleftrightarrow>
     k = Some p \<and> (\<forall>u\<in>set urls. \<not> starts_with ''grpcs://'' u \<and> pool_kind_of u = p)"
proof (induction urls)
  case Nil
  then show ?case by auto
next
  case (Cons u us)
  show ?case
    by (cases "p = pool_kind_of u") (use Cons.IH in \<open>auto simp only: classify_loop_Cons option.inject
      option.distinct list.set ball_simps simp_thms insert_iff\<close>)
qed

lemma map_filter_Nil_iff: "List.map_filter f xs = [] \<longleftrightarrow> (\<forall>x\<in>set xs. f x = None)"
  by (induction xs) (auto simp: List.map_filter_simps split: option.split)

text \<open>
  The parser of the routing policies and the one of the HTTP routers read
  every worker URL the same way, with or without a rank and however many at
  signs it has.
\<close>
theorem dp_info_agrees: "extract_dp_info url = parse_worker_url url"
proof (cases "CHR ''@'' \<in> set url")
  case True
  then show ?thesis
    by (auto simp: extract_dp_info_def parse_worker_url_def extract_dp_rank_def Let_def
        split: option.split)
next
  case False
  then show ?thesis by (simp add: parse_worker_url_plain extract_dp_info_def)
qed



text \<open>
  Engine discovery always gives at least one engine, so that no worker is
  expanded to zero data-parallel URLs, whatever the metrics endpoint answers
  and whatever fallback is configured; without an answer it is the fallback,
  raised to one.
\<close>
theorem discover_dp_size_positive:
  "1 \<le> discover_dp_size fetch worker_url fallback
   \<and> get_dp_aware_workers [base] (discover_dp_size fetch worker_url fallback) \<noteq> []
   \<and> discover_dp_size (\<lambda>_. None) worker_url fallback = max fallback 1"
proof -
  have "1 \<le> discover_dp_size fetch worker_url fallback"
    by (auto simp: discover_dp_size_def count_engine_labels_def Let_def Suc_le_eq
        split: option.split prod.split if_splits bind_splits)
  moreover have "discover_dp_size (\<lambda>_. None) worker_url fallback = max fallback 1"
    by (simp add: discover_dp_size_def split: prod.split)
  ultimately show ?thesis by (auto simp: get_dp_aware_workers_def)
qed

end
