(* ===== verification/Worker.thy ===== *)
theory Worker
  imports Circuit_Breaker Dp_Url
begin

text \<open>
  Workers: \<^verbatim>\<open>core/worker.rs\<close> and \<^verbatim>\<open>core/error.rs\<close>.

  \<^item> \<open>basic_worker\<close> is \<^verbatim>\<open>BasicWorker\<close>; its atomics are the fields of the record, the
    counters at the width of \<^verbatim>\<open>usize\<close>.  \<open>worker\<close> is \<^verbatim>\<open>dyn Worker\<close>, with one
    constructor per implementation; the methods \<^verbatim>\<open>DPAwareWorker\<close> delegates to its
    base worker are defined on both at once.
  \<^item> The network is the argument \<open>env\<close>: whether a GET of a URL within a timeout is
    answered with a success status, and whether the gRPC health call succeeds.
  \<^item> A \<open>load_guard\<close> is \<^verbatim>\<open>WorkerLoadGuard\<close>; \<open>load_step\<close> interleaves the creation,
    release and drop of any number of guards with health checks, recorded
    outcomes and processed-request counting.
  \<^item> Calls to \<^verbatim>\<open>RouterMetrics\<close> and to the log are not modelled, nor is \<open>cost\<close>, which
    parses a floating-point label.
\<close>

section \<open>Types\<close>

datatype worker_error =
    HealthCheckFailed str str
  | WorkerNotFound str
  | InvalidConfiguration str
  | NetworkError str str
  | WorkerAtCapacity str
  | InvalidUrl str

definition worker_error_display :: "worker_error \<Rightarrow> str" where
  "worker_error_display e = (case e of
     HealthCheckFailed url reason \<Rightarrow> ''Health check failed for worker '' @ url @ '': '' @ reason
   | WorkerNotFound url \<Rightarrow> ''Worker not found: '' @ url
   | InvalidConfiguration message \<Rightarrow> ''Invalid worker configuration: '' @ message
   | NetworkError url error \<Rightarrow> ''Network error for worker '' @ url @ '': '' @ error
   | WorkerAtCapacity url \<Rightarrow> ''Worker at capacity: '' @ url
   | InvalidUrl url \<Rightarrow> ''Invalid URL format: '' @ url)"

datatype worker_type = Regular | Prefill "nat option" | Decode

definition worker_type_display :: "worker_type \<Rightarrow> str" where
  "worker_type_display t = (case t of
     Regular \<Rightarrow> ''Regular''
   | Prefill (Some port) \<Rightarrow> ''Prefill(bootstrap:'' @ show_nat port @ '')''
   | Prefill None \<Rightarrow> ''Prefill''
   | Decode \<Rightarrow> ''Decode'')"

definition connection_mode_display :: "connection_mode \<Rightarrow> str" where
  "connection_mode_display m = (case m of Http \<Rightarrow> ''HTTP'' | Grpc \<Rightarrow> ''gRPC'')"

record health_config =
  timeout_secs :: nat
  check_interval_secs :: nat
  endpoint :: str
  hc_failure_threshold :: u32
  hc_success_threshold :: u32

definition default_health_config :: health_config where
  "default_health_config =
     \<lparr>timeout_secs = 5, check_interval_secs = 30, endpoint = ''/health'',
      hc_failure_threshold = 3, hc_success_threshold = 2\<rparr>"

record worker_metadata =
  md_url :: str
  md_worker_type :: worker_type
  md_connection_mode :: connection_mode
  md_labels :: "str \<rightharpoonup> str"
  md_health_config :: health_config

record basic_worker =
  bw_metadata :: worker_metadata
  load_counter :: usize
  processed_counter :: usize
  bw_healthy :: bool
  probe_failures :: usize
  probe_successes :: usize
  bw_circuit_breaker :: circuit_breaker

datatype worker =
    BasicWorker (base_worker: basic_worker)
  | DPAwareWorker (base_worker: basic_worker) (dpw_rank: nat) (dpw_size: nat) (dpw_base_url: str)

definition map_base :: "(basic_worker \<Rightarrow> basic_worker) \<Rightarrow> worker \<Rightarrow> worker" where
  "map_base f w = (case w of
     BasicWorker b \<Rightarrow> BasicWorker (f b)
   | DPAwareWorker b rank sz base \<Rightarrow> DPAwareWorker (f b) rank sz base)"

section \<open>BasicWorker\<close>

definition with_connection_mode ::
  "instant \<Rightarrow> str \<Rightarrow> worker_type \<Rightarrow> connection_mode \<Rightarrow> basic_worker" where
  "with_connection_mode now url wt mode =
     \<lparr>bw_metadata = \<lparr>md_url = url, md_worker_type = wt, md_connection_mode = mode,
                     md_labels = Map.empty, md_health_config = default_health_config\<rparr>,
      load_counter = 0, processed_counter = 0, bw_healthy = True,
      probe_failures = 0, probe_successes = 0, bw_circuit_breaker = cb_new now\<rparr>"

definition bw_new :: "instant \<Rightarrow> str \<Rightarrow> worker_type \<Rightarrow> basic_worker" where
  "bw_new now url wt = with_connection_mode now url wt (connection_mode_from_url url)"

definition with_labels :: "(str \<rightharpoonup> str) \<Rightarrow> basic_worker \<Rightarrow> basic_worker" where
  "with_labels labels b = b\<lparr>bw_metadata := (bw_metadata b)\<lparr>md_labels := labels\<rparr>\<rparr>"

definition with_health_config :: "health_config \<Rightarrow> basic_worker \<Rightarrow> basic_worker" where
  "with_health_config config b =
     b\<lparr>bw_metadata := (bw_metadata b)\<lparr>md_health_config := config\<rparr>\<rparr>"

definition with_circuit_breaker_config ::
  "instant \<Rightarrow> circuit_breaker_config \<Rightarrow> basic_worker \<Rightarrow> basic_worker" where
  "with_circuit_breaker_config now config b = b\<lparr>bw_circuit_breaker := with_config now config\<rparr>"

definition bw_url :: "basic_worker \<Rightarrow> str" where
  "bw_url b = md_url (bw_metadata b)"

definition normalised_url :: "basic_worker \<Rightarrow> worker_error + str" where
  "normalised_url b =
     (if str_contains (bw_url b) ''@'' then
        let parts = split_char CHR ''@'' (bw_url b) in
        if length parts \<noteq> 2 then Inl (InvalidUrl (bw_url b))
        else (case parse_uint usize_max (parts ! 1) of
                Some _ \<Rightarrow> Inr (parts ! 0)
              | None \<Rightarrow> Inl (InvalidUrl (bw_url b)))
      else Inr (bw_url b))"

record health_env =
  http_get_success :: "str \<Rightarrow> nat \<Rightarrow> bool"
  check_grpc_health_ok :: "str \<Rightarrow> nat \<Rightarrow> bool"

definition health_probe :: "health_env \<Rightarrow> basic_worker \<Rightarrow> worker_error + bool" where
  "health_probe env b =
     (let cfg = md_health_config (bw_metadata b) in
      case md_connection_mode (bw_metadata b) of
        Http \<Rightarrow>
          (case normalised_url b of
             Inl e \<Rightarrow> Inl e
           | Inr url \<Rightarrow> Inr (http_get_success env (url @ endpoint cfg) (timeout_secs cfg)))
      | Grpc \<Rightarrow> Inr (check_grpc_health_ok env (bw_url b) (timeout_secs cfg)))"

definition health_failed_reason :: "usize \<Rightarrow> str" where
  "health_failed_reason failures =
     ''Health check failed (consecutive failures: '' @ show_nat (unat failures) @ '')''"

definition bw_check_health_async ::
  "health_env \<Rightarrow> basic_worker \<Rightarrow> (worker_error + unit) \<times> basic_worker" where
  "bw_check_health_async env b =
     (let cfg = md_health_config (bw_metadata b) in
      case health_probe env b of
        Inl e \<Rightarrow> (Inl e, b)
      | Inr True \<Rightarrow>
          (let b1 = b\<lparr>probe_failures := 0\<rparr>;
               successes = probe_successes b1 + 1;
               b2 = b1\<lparr>probe_successes := successes\<rparr>;
               b3 = (if \<not> bw_healthy b2 \<and> ucast (hc_success_threshold cfg) \<le> successes
                     then b2\<lparr>bw_healthy := True, probe_successes := 0\<rparr> else b2)
           in (Inr (), b3))
      | Inr False \<Rightarrow>
          (let b1 = b\<lparr>probe_successes := 0\<rparr>;
               failures = probe_failures b1 + 1;
               b2 = b1\<lparr>probe_failures := failures\<rparr>;
               b3 = (if bw_healthy b2 \<and> ucast (hc_failure_threshold cfg) \<le> failures
                     then b2\<lparr>bw_healthy := False, probe_failures := 0\<rparr> else b2)
           in (Inl (HealthCheckFailed (bw_url b) (health_failed_reason failures)), b3)))"

section \<open>The Worker trait\<close>

definition url :: "worker \<Rightarrow> str" where
  "url w = bw_url (base_worker w)"

definition worker_type_of :: "worker \<Rightarrow> worker_type" where
  "worker_type_of w = md_worker_type (bw_metadata (base_worker w))"

definition connection_mode_of :: "worker \<Rightarrow> connection_mode" where
  "connection_mode_of w = md_connection_mode (bw_metadata (base_worker w))"

definition is_healthy :: "worker \<Rightarrow> bool" where
  "is_healthy w = bw_healthy (base_worker w)"

definition set_healthy :: "bool \<Rightarrow> worker \<Rightarrow> worker" where
  "set_healthy h = map_base (\<lambda>b. b\<lparr>bw_healthy := h\<rparr>)"

definition check_health_async ::
  "health_env \<Rightarrow> worker \<Rightarrow> (worker_error + unit) \<times> worker" where
  "check_health_async env w =
     (let (res, b) = bw_check_health_async env (base_worker w) in (res, map_base (\<lambda>_. b) w))"

definition load :: "worker \<Rightarrow> usize" where
  "load w = load_counter (base_worker w)"

definition increment_load :: "worker \<Rightarrow> worker" where
  "increment_load = map_base (\<lambda>b. b\<lparr>load_counter := load_counter b + 1\<rparr>)"

definition decrement_load :: "worker \<Rightarrow> worker" where
  "decrement_load =
     map_base (\<lambda>b. if load_counter b = 0 then b else b\<lparr>load_counter := load_counter b - 1\<rparr>)"

definition reset_load :: "worker \<Rightarrow> worker" where
  "reset_load = map_base (\<lambda>b. b\<lparr>load_counter := 0\<rparr>)"

definition processed_requests :: "worker \<Rightarrow> usize" where
  "processed_requests w = processed_counter (base_worker w)"

definition increment_processed :: "worker \<Rightarrow> worker" where
  "increment_processed = map_base (\<lambda>b. b\<lparr>processed_counter := processed_counter b + 1\<rparr>)"

definition metadata :: "worker \<Rightarrow> worker_metadata" where
  "metadata w = bw_metadata (base_worker w)"

definition circuit_breaker_of :: "worker \<Rightarrow> circuit_breaker" where
  "circuit_breaker_of w = bw_circuit_breaker (base_worker w)"

definition set_breaker :: "circuit_breaker \<Rightarrow> worker \<Rightarrow> worker" where
  "set_breaker cb = map_base (\<lambda>b. b\<lparr>bw_circuit_breaker := cb\<rparr>)"

definition is_available :: "instant \<Rightarrow> worker \<Rightarrow> bool \<times> worker" where
  "is_available now w =
     (if is_healthy w then
        let (ok, cb) = can_execute now (circuit_breaker_of w) in (ok, set_breaker cb w)
      else (False, w))"

definition worker_record_outcome :: "instant \<Rightarrow> bool \<Rightarrow> worker \<Rightarrow> worker" where
  "worker_record_outcome now success w =
     (let (before, cb1) = get_state now (circuit_breaker_of w);
          cb2 = record_outcome now success cb1;
          (after, cb3) = get_state now cb2;
          (state_code, cb4) = get_state now cb3
      in set_breaker cb4 w)"

definition is_dp_aware :: "worker \<Rightarrow> bool" where
  "is_dp_aware w = (case w of BasicWorker _ \<Rightarrow> False | DPAwareWorker _ _ _ _ \<Rightarrow> True)"

definition base_url :: "worker \<Rightarrow> str" where
  "base_url w = (case w of BasicWorker _ \<Rightarrow> url w | DPAwareWorker _ _ _ base \<Rightarrow> base)"

definition dp_rank :: "worker \<Rightarrow> nat option" where
  "dp_rank w = (case w of BasicWorker _ \<Rightarrow> None | DPAwareWorker _ rank _ _ \<Rightarrow> Some rank)"

definition dp_size :: "worker \<Rightarrow> nat option" where
  "dp_size w = (case w of BasicWorker _ \<Rightarrow> None | DPAwareWorker _ _ sz _ \<Rightarrow> Some sz)"

definition endpoint_url :: "str \<Rightarrow> worker \<Rightarrow> str" where
  "endpoint_url route w = base_url w @ route"

definition model_id :: "worker \<Rightarrow> str" where
  "model_id w = (case md_labels (metadata w) ''model_id'' of Some s \<Rightarrow> s | None \<Rightarrow> ''unknown'')"

definition priority :: "worker \<Rightarrow> nat" where
  "priority w =
     (case Option.bind (md_labels (metadata w) ''priority'') (parse_uint u32_max) of
        Some p \<Rightarrow> p
      | None \<Rightarrow> 50)"

section \<open>DPAwareWorker and WorkerFactory\<close>

definition dp_new :: "instant \<Rightarrow> str \<Rightarrow> nat \<Rightarrow> nat \<Rightarrow> worker_type \<Rightarrow> worker" where
  "dp_new now base rank sz wt =
     DPAwareWorker (bw_new now (base @ ''@'' @ show_nat rank) wt) rank sz base"

definition dp_with_circuit_breaker_config ::
  "instant \<Rightarrow> circuit_breaker_config \<Rightarrow> worker \<Rightarrow> worker" where
  "dp_with_circuit_breaker_config now config = map_base (with_circuit_breaker_config now config)"

definition dp_with_health_config :: "health_config \<Rightarrow> worker \<Rightarrow> worker" where
  "dp_with_health_config config = map_base (with_health_config config)"

definition create_regular :: "instant \<Rightarrow> str \<Rightarrow> worker" where
  "create_regular now u = BasicWorker (bw_new now u Regular)"

definition create_regular_with_config ::
  "instant \<Rightarrow> str \<Rightarrow> circuit_breaker_config \<Rightarrow> worker" where
  "create_regular_with_config now u config =
     BasicWorker (with_circuit_breaker_config now config (bw_new now u Regular))"

definition create_prefill :: "instant \<Rightarrow> str \<Rightarrow> nat option \<Rightarrow> worker" where
  "create_prefill now u bootstrap_port = BasicWorker (bw_new now u (Prefill bootstrap_port))"

definition create_prefill_with_config ::
  "instant \<Rightarrow> str \<Rightarrow> nat option \<Rightarrow> circuit_breaker_config \<Rightarrow> worker" where
  "create_prefill_with_config now u bootstrap_port config =
     BasicWorker (with_circuit_breaker_config now config (bw_new now u (Prefill bootstrap_port)))"

definition create_decode :: "instant \<Rightarrow> str \<Rightarrow> worker" where
  "create_decode now u = BasicWorker (bw_new now u Decode)"

definition create_decode_with_config ::
  "instant \<Rightarrow> str \<Rightarrow> circuit_breaker_config \<Rightarrow> worker" where
  "create_decode_with_config now u config =
     BasicWorker (with_circuit_breaker_config now config (bw_new now u Decode))"

definition create_from_urls ::
  "instant \<Rightarrow> str list \<Rightarrow> (str \<times> nat option) list \<Rightarrow> str list
   \<Rightarrow> worker list \<times> worker list \<times> worker list" where
  "create_from_urls now regular_urls prefill_urls decode_urls =
     (map (create_regular now) regular_urls,
      map (\<lambda>(u, port). create_prefill now u port) prefill_urls,
      map (create_decode now) decode_urls)"

definition create_regular_with_labels ::
  "instant \<Rightarrow> str \<Rightarrow> (str \<rightharpoonup> str) \<Rightarrow> circuit_breaker_config \<Rightarrow> worker" where
  "create_regular_with_labels now u labels config =
     BasicWorker (with_labels labels (with_circuit_breaker_config now config (bw_new now u Regular)))"

definition create_prefill_with_labels ::
  "instant \<Rightarrow> str \<Rightarrow> nat option \<Rightarrow> (str \<rightharpoonup> str) \<Rightarrow> circuit_breaker_config \<Rightarrow> worker" where
  "create_prefill_with_labels now u bootstrap_port labels config =
     BasicWorker (with_labels labels
       (with_circuit_breaker_config now config (bw_new now u (Prefill bootstrap_port))))"

definition create_decode_with_labels ::
  "instant \<Rightarrow> str \<Rightarrow> (str \<rightharpoonup> str) \<Rightarrow> circuit_breaker_config \<Rightarrow> worker" where
  "create_decode_with_labels now u labels config =
     BasicWorker (with_labels labels (with_circuit_breaker_config now config (bw_new now u Decode)))"

definition create_dp_aware :: "instant \<Rightarrow> str \<Rightarrow> nat \<Rightarrow> nat \<Rightarrow> worker_type \<Rightarrow> worker" where
  "create_dp_aware = dp_new"

definition create_workers :: "instant \<Rightarrow> str list \<Rightarrow> nat \<Rightarrow> worker list" where
  "create_workers now urls data_parallel_size =
     (if 1 < data_parallel_size then
        concat (map (\<lambda>u. map (\<lambda>rank. create_dp_aware now u rank data_parallel_size Regular)
                            [0..<data_parallel_size]) urls)
      else map (create_regular now) urls)"

section \<open>Collections of workers\<close>

definition healthy_workers :: "worker list \<Rightarrow> worker list" where
  "healthy_workers ws = filter is_healthy ws"

definition total_load :: "worker list \<Rightarrow> usize" where
  "total_load ws = sum_list (map load ws)"

definition find_worker :: "str \<Rightarrow> worker list \<Rightarrow> worker option" where
  "find_worker u ws = List.find (\<lambda>w. url w = u) ws"

definition urls_to_workers :: "instant \<Rightarrow> str list \<Rightarrow> worker list" where
  "urls_to_workers now urls = map (create_regular now) urls"

definition workers_to_urls :: "worker list \<Rightarrow> str list" where
  "workers_to_urls ws = map url ws"

section \<open>Load guards\<close>

record load_guard =
  guard_active :: bool

definition guard_new :: "worker \<Rightarrow> load_guard \<times> worker" where
  "guard_new w = (\<lparr>guard_active = True\<rparr>, increment_load w)"

definition guard_drop :: "load_guard \<Rightarrow> worker \<Rightarrow> worker" where
  "guard_drop g w = (if guard_active g then decrement_load w else w)"

definition guard_release :: "load_guard \<Rightarrow> worker \<Rightarrow> worker" where
  "guard_release g w =
     (let g' = g\<lparr>guard_active := False\<rparr>; w' = decrement_load w in guard_drop g' w')"

definition health_check_round :: "health_env \<Rightarrow> worker list \<Rightarrow> worker list" where
  "health_check_round env ws = map (\<lambda>w. snd (check_health_async env w)) ws"

inductive load_step ::
  "worker \<times> (nat \<rightharpoonup> load_guard) \<Rightarrow> worker \<times> (nat \<rightharpoonup> load_guard) \<Rightarrow> bool" where
  new: "G i = None \<Longrightarrow> Suc (card (dom G)) < 2 ^ 64 \<Longrightarrow> guard_new w = (g, w') \<Longrightarrow>
          load_step (w, G) (w', G(i \<mapsto> g))"
| release: "G i = Some g \<Longrightarrow> load_step (w, G) (guard_release g w, G(i := None))"
| drop: "G i = Some g \<Longrightarrow> load_step (w, G) (guard_drop g w, G(i := None))"
| health: "load_step (w, G) (snd (check_health_async env w), G)"
| set_health: "load_step (w, G) (set_healthy h w, G)"
| outcome: "load_step (w, G) (worker_record_outcome now success w, G)"
| available: "load_step (w, G) (snd (is_available now w), G)"
| processed: "load_step (w, G) (increment_processed w, G)"

section \<open>Basic facts\<close>

lemma base_worker_map_base [simp]: "base_worker (map_base f w) = f (base_worker w)"
  by (cases w) (simp_all add: map_base_def)

lemma map_base_id [simp]: "map_base (\<lambda>_. base_worker w) w = w"
  by (cases w) (simp_all add: map_base_def)

lemmas worker_op_defs =
  url_def is_healthy_def load_def metadata_def circuit_breaker_of_def set_healthy_def
  increment_load_def decrement_load_def reset_load_def increment_processed_def set_breaker_def
  processed_requests_def model_id_def worker_type_of_def connection_mode_of_def bw_url_def

lemma health_check_metadata [simp]:
  "bw_metadata (snd (bw_check_health_async env b)) = bw_metadata b"
  by (auto simp: bw_check_health_async_def Let_def split: sum.split bool.split)

lemma health_check_load [simp]:
  "load_counter (snd (bw_check_health_async env b)) = load_counter b"
  by (auto simp: bw_check_health_async_def Let_def split: sum.split bool.split)

lemma health_check_breaker [simp]:
  "bw_circuit_breaker (snd (bw_check_health_async env b)) = bw_circuit_breaker b"
  by (auto simp: bw_check_health_async_def Let_def split: sum.split bool.split)

lemma check_health_async_base [simp]:
  "base_worker (snd (check_health_async env w)) = snd (bw_check_health_async env (base_worker w))"
  by (simp add: check_health_async_def split: prod.split)

lemma load_set_breaker [simp]: "load (set_breaker cb w) = load w"
  by (simp add: worker_op_defs)

lemma load_other_ops [simp]:
  "load (snd (check_health_async env w)) = load w"
  "load (set_healthy h w) = load w"
  "load (worker_record_outcome now success w) = load w"
  "load (snd (is_available now w)) = load w"
  "load (increment_processed w) = load w"
  by (simp_all add: worker_op_defs worker_record_outcome_def is_available_def Let_def
      split: prod.split)

lemma url_other_ops [simp]:
  "url (set_breaker cb w) = url w"
  "url (snd (check_health_async env w)) = url w"
  "url (set_healthy h w) = url w"
  "url (worker_record_outcome now success w) = url w"
  "url (snd (is_available now w)) = url w"
  "url (increment_processed w) = url w"
  "url (increment_load w) = url w"
  "url (decrement_load w) = url w"
  by (simp_all add: worker_op_defs worker_record_outcome_def is_available_def Let_def
      split: prod.split)

lemma unat_load_increment:
  "Suc (unat (load w)) < 2 ^ 64 \<Longrightarrow> unat (load (increment_load w)) = Suc (unat (load w))"
  by (simp add: worker_op_defs unat_Suc_word)

lemma unat_load_decrement [simp]: "unat (load (decrement_load w)) = unat (load w) - 1"
  by (auto simp: worker_op_defs unat_minus_one)

section \<open>Availability\<close>

definition available :: "instant \<Rightarrow> worker \<Rightarrow> bool" where
  "available now w = fst (is_available now w)"

lemma is_available_eq:
  "is_available now w =
     (is_healthy w \<and> fst (can_execute now (circuit_breaker_of w)),
      if is_healthy w then set_breaker (snd (can_execute now (circuit_breaker_of w))) w else w)"
  by (simp add: is_available_def split: prod.split)

lemma available_snd [simp]: "available now (snd (is_available now w)) = available now w"
  by (simp add: available_def is_available_eq worker_op_defs can_execute_idem)

lemma is_available_keeps [simp]:
  "metadata (snd (is_available now w)) = metadata w"
  "is_healthy (snd (is_available now w)) = is_healthy w"
  by (simp_all add: is_available_eq worker_op_defs)

section \<open>Load accounting\<close>

definition load_inv :: "worker \<times> (nat \<rightharpoonup> load_guard) \<Rightarrow> bool" where
  "load_inv s = (case s of (w, G) \<Rightarrow>
     finite (dom G) \<and> (\<forall>g\<in>ran G. guard_active g) \<and> unat (load w) = card (dom G))"

inductive_cases load_stepE: "load_step s s'"

lemma load_inv_guard_drop:
  assumes "load_inv (w, G)" "G i = Some g"
  shows "load_inv (decrement_load w, G(i := None))"
proof -
  have "dom (G(i := None)) = dom G - {i}" by auto
  moreover have "ran (G(i := None)) \<subseteq> ran G" by (auto simp: ran_def)
  moreover have "i \<in> dom G" using assms(2) by auto
  ultimately show ?thesis
    using assms(1) by (auto simp: load_inv_def card_Diff_singleton)
qed

lemma load_inv_step [inv_intros]:
  assumes "load_step s s'" "load_inv s"
  shows "load_inv s'"
  using assms
proof (cases rule: load_step.cases)
  case (new G i w g w')
  then have "unat (load w') = Suc (card (dom G))"
    using assms(2) by (auto simp: load_inv_def guard_new_def unat_load_increment)
  moreover have "guard_active g" using new by (auto simp: guard_new_def)
  ultimately show ?thesis
    using new assms(2) by (auto simp: load_inv_def domIff)
next
  case (release G i g w)
  then show ?thesis
    using assms(2) load_inv_guard_drop [of w G i g]
    by (simp add: guard_release_def guard_drop_def)
next
  case (drop G i g w)
  then have "guard_active g" using assms(2) by (auto simp: load_inv_def ran_def)
  then show ?thesis
    using drop assms(2) load_inv_guard_drop [of w G i g] by (simp add: guard_drop_def)
qed (simp_all add: load_inv_def)

lemma load_inv_steps:
  "load_step\<^sup>*\<^sup>* s s' \<Longrightarrow> load_inv s \<Longrightarrow> load_inv s'"
  by (induction rule: rtranclp_induct) (auto intro: load_inv_step)

text \<open>
  C16: However requests, retries, stream aborts, health checks and recorded
  outcomes interleave, the load counter of a worker is exactly the number of
  guards that are alive: every guard is counted once from its creation and
  uncounted once, by its release or its drop.
\<close>
theorem load_counts_guards:
  assumes "load w = 0" and "load_step\<^sup>*\<^sup>* (w, Map.empty) (w', G)"
  shows "unat (load w') = card (dom G)"
  using load_inv_steps [OF assms(2)] assms(1) by (simp add: load_inv_def)

theorem load_counts_guards_witness:
  "unat (load (guard_drop \<lparr>guard_active = True\<rparr>
     (increment_load (increment_load (create_regular 0 ''http://a''))))) = 1"
proof -
  let ?w = "create_regular 0 ''http://a''" and ?g = "\<lparr>guard_active = True\<rparr>"
  have "load_step\<^sup>*\<^sup>* (?w, Map.empty) (increment_load ?w, [0 \<mapsto> ?g])"
    by (rule r_into_rtranclp, rule load_step.new) (simp_all add: guard_new_def)
  moreover have "load_step (increment_load ?w, [0 \<mapsto> ?g])
      (increment_load (increment_load ?w), [0 \<mapsto> ?g, 1 \<mapsto> ?g])"
    by (rule load_step.new) (simp_all add: guard_new_def)
  moreover have "load_step (increment_load (increment_load ?w), [0 \<mapsto> ?g, 1 \<mapsto> ?g])
      (guard_drop ?g (increment_load (increment_load ?w)), [0 \<mapsto> ?g, 1 \<mapsto> ?g](0 := None))"
    by (rule load_step.drop) simp
  ultimately have "load_step\<^sup>*\<^sup>* (?w, Map.empty)
      (guard_drop ?g (increment_load (increment_load ?w)), [0 \<mapsto> ?g, 1 \<mapsto> ?g](0 := None))"
    by (meson rtranclp.rtrancl_into_rtrancl)
  moreover have "dom ([0 \<mapsto> ?g, 1 \<mapsto> ?g](0 := None)) = {1::nat}" by auto
  moreover have "load ?w = 0"
    by (simp add: load_def create_regular_def bw_new_def with_connection_mode_def)
  ultimately show ?thesis using load_counts_guards by fastforce
qed

section \<open>Health-check hysteresis\<close>

definition run_length :: "bool \<Rightarrow> bool list \<Rightarrow> nat" where
  "run_length b h = length (takeWhile (\<lambda>x. x = b) h)"

primrec health_spec :: "nat \<Rightarrow> nat \<Rightarrow> bool list \<Rightarrow> bool" where
  "health_spec ft st [] = True"
| "health_spec ft st (b # h) =
     (if health_spec ft st h then b \<or> run_length False (b # h) < ft
      else b \<and> st \<le> run_length True (b # h))"

definition probe_history :: "basic_worker \<Rightarrow> health_env list \<Rightarrow> bool list" where
  "probe_history b envs =
     rev (List.map_filter (\<lambda>env. case health_probe env b of Inl _ \<Rightarrow> None | Inr r \<Rightarrow> Some r) envs)"

definition health_rel :: "basic_worker \<Rightarrow> basic_worker \<Rightarrow> bool list \<Rightarrow> bool" where
  "health_rel b0 b h \<longleftrightarrow>
     (let cfg = md_health_config (bw_metadata b0);
          ft = unat (hc_failure_threshold cfg); st = unat (hc_success_threshold cfg) in
      bw_metadata b = bw_metadata b0 \<and> bw_healthy b = health_spec ft st h \<and>
      (bw_healthy b \<longrightarrow> unat (probe_failures b) = run_length False h \<and> run_length False h < max 1 ft) \<and>
      (\<not> bw_healthy b \<longrightarrow> unat (probe_successes b) = run_length True h \<and> run_length True h < max 1 st))"

lemma run_length_Cons [simp]:
  "run_length b (c # h) = (if c = b then Suc (run_length b h) else 0)"
  by (simp add: run_length_def)

lemma unat_count_below_u32:
  fixes c :: usize and t :: u32
  assumes "unat c < max 1 (unat t)"
  shows "unat (c + 1) = Suc (unat c)" and "ucast t \<le> c + 1 \<longleftrightarrow> unat t \<le> Suc (unat c)"
proof -
  have "unat t < 2 ^ LENGTH(32)" by (rule unsigned_less)
  then have t: "unat t < 2 ^ 64" by simp
  from \<open>unat t < 2 ^ LENGTH(32)\<close> have "Suc (unat c) < 2 ^ LENGTH(64)" using assms by simp
  then show s: "unat (c + 1) = Suc (unat c)" by (rule unat_Suc_word)
  show "ucast t \<le> c + 1 \<longleftrightarrow> unat t \<le> Suc (unat c)"
    using t by (simp add: word_le_nat_alt s unsigned_ucast_eq take_bit_nat_eq_self)
qed

lemma health_probe_metadata:
  assumes "bw_metadata b = bw_metadata b0"
  shows "health_probe env b = health_probe env b0"
  unfolding health_probe_def normalised_url_def bw_url_def assms ..

lemma health_rel_step:
  assumes rel: "health_rel b0 b h" and p: "health_probe env b0 = Inr r"
  shows "health_rel b0 (snd (bw_check_health_async env b)) (r # h)"
proof -
  let ?cfg = "md_health_config (bw_metadata b0)"
  have m: "bw_metadata b = bw_metadata b0" using rel by (simp add: health_rel_def Let_def)
  have pb: "health_probe env b = Inr r" using p health_probe_metadata [OF m] by simp
  show ?thesis
  proof (cases "bw_healthy b")
    case True
    then have c: "unat (probe_failures b) < max 1 (unat (hc_failure_threshold ?cfg))"
      using rel by (simp add: health_rel_def Let_def)
    show ?thesis
      using rel True pb unat_count_below_u32 [OF c] c m
      by (cases r) (auto simp: health_rel_def Let_def bw_check_health_async_def)
  next
    case False
    then have c: "unat (probe_successes b) < max 1 (unat (hc_success_threshold ?cfg))"
      using rel by (simp add: health_rel_def Let_def)
    show ?thesis
      using rel False pb unat_count_below_u32 [OF c] c m
      by (cases r) (auto simp: health_rel_def Let_def bw_check_health_async_def)
  qed
qed

lemma health_rel_run:
  "health_rel b0 b h \<Longrightarrow>
     health_rel b0 (fold (\<lambda>env b. snd (bw_check_health_async env b)) envs b) (probe_history b0 envs @ h)"
proof (induction envs arbitrary: b h)
  case Nil
  then show ?case by (simp add: probe_history_def List.map_filter_simps)
next
  case (Cons env envs)
  have m: "bw_metadata b = bw_metadata b0" using Cons.prems by (simp add: health_rel_def Let_def)
  show ?case
  proof (cases "health_probe env b0")
    case (Inl e)
    then have "snd (bw_check_health_async env b) = b"
      using health_probe_metadata [OF m, of env] by (simp add: bw_check_health_async_def Let_def)
    then show ?thesis using Cons Inl by (simp add: probe_history_def List.map_filter_simps)
  next
    case (Inr r)
    from Cons.IH [OF health_rel_step [OF Cons.prems Inr]] Inr show ?thesis
      by (simp add: probe_history_def List.map_filter_simps)
  qed
qed

text \<open>
  C17: The health flag of a worker is the hysteresis specification of its probe
  history.  It is lost exactly when the configured number of probes failed in
  a row and regained exactly when the configured number succeeded in a row,
  for every sequence of probes; probes that could not be sent do not count.
\<close>
theorem health_flag_refines_spec:
  "bw_healthy (fold (\<lambda>env b. snd (bw_check_health_async env b)) envs
                 (with_health_config cfg (bw_new now u wt)))
   = health_spec (unat (hc_failure_threshold cfg)) (unat (hc_success_threshold cfg))
       (probe_history (with_health_config cfg (bw_new now u wt)) envs)"
proof -
  let ?b = "with_health_config cfg (bw_new now u wt)"
  have "health_rel ?b ?b []"
    by (simp add: health_rel_def Let_def with_health_config_def bw_new_def with_connection_mode_def
        run_length_def)
  from health_rel_run [OF this, of envs] show ?thesis
    by (simp add: health_rel_def Let_def with_health_config_def)
qed

text \<open>
  A worker whose HTTP URL has an at sign that does not introduce a rank,
  such as one with user information, is never probed: every health check
  returns the invalid-URL error and leaves the worker, its health flag
  included, as it was.
\<close>
theorem invalid_url_never_probed:
  assumes "md_connection_mode (bw_metadata b) = Http"
    and "CHR ''@'' \<in> set (bw_url b)" and "snd (parse_worker_url (bw_url b)) = None"
  shows "bw_check_health_async env b = (Inl (InvalidUrl (bw_url b)), b)"
proof -
  have "normalised_url b = Inl (InvalidUrl (bw_url b))"
    using assms(2,3)
    by (auto simp: normalised_url_def parse_worker_url_def extract_dp_rank_def Let_def
        split: if_splits option.splits)
  then show ?thesis using assms(1) by (simp add: bw_check_health_async_def health_probe_def Let_def)
qed

theorem invalid_url_never_probed_witness:
  "bw_check_health_async \<lparr>http_get_success = (\<lambda>_ _. False), check_grpc_health_ok = (\<lambda>_ _. False)\<rparr>
       (bw_new 0 ''http://user:pw@host:8000'' Regular)
     = (Inl (InvalidUrl ''http://user:pw@host:8000''), bw_new 0 ''http://user:pw@host:8000'' Regular)"
proof -
  let ?b = "bw_new 0 ''http://user:pw@host:8000'' Regular"
  have u: "bw_url ?b = ''http://user:pw@host:8000''"
    by (simp add: bw_url_def bw_new_def with_connection_mode_def)
  have "md_connection_mode (bw_metadata ?b) = Http"
    by (simp add: bw_new_def with_connection_mode_def connection_mode_from_url_def is_grpc_url_def
        starts_with_def)
  moreover have "snd (parse_worker_url (bw_url ?b)) = None"
    unfolding u
    by (simp add: parse_worker_url_def extract_dp_rank_def Let_def parse_uint_def to_digit_def)
  ultimately show ?thesis
    using invalid_url_never_probed [of ?b] u by simp
qed

end
