(* ===== verification/Worker_Registry.thy ===== *)
theory Worker_Registry
  imports Worker
begin

text \<open>
  The worker registry of \<^verbatim>\<open>core/worker_registry.rs\<close>.

  A worker is shared by reference counting, so the registry holds references of
  type \<open>wref\<close> and the mutable workers live in a store \<open>H\<close> from references to
  workers; URL, model, type and connection mode are read through it.  The two
  concurrent hash maps that the code iterates over are association lists, the
  others are maps.  Drawing a UUID is the argument \<open>fresh\<close> of \<open>register\<close>.

  The contract of a secondary index (append an identifier under a key, retain
  the others on removal) is the locale \<open>secondary_index\<close>; its lemmas say that such
  an index lists exactly the registered identifiers with that key, and it is
  interpreted for the model, type and connection-mode indexes.
\<close>

section \<open>State\<close>

type_synonym wref = nat
type_synonym worker_id = str
type_synonym store = "wref \<Rightarrow> worker"

record worker_registry =
  workers :: "(worker_id \<times> wref) list"
  model_workers :: "(str \<times> worker_id list) list"
  model_index :: "str \<rightharpoonup> wref list"
  type_workers :: "worker_type \<rightharpoonup> worker_id list"
  connection_workers :: "connection_mode \<rightharpoonup> worker_id list"
  url_to_id :: "str \<rightharpoonup> worker_id"
  revision :: u64

definition registry_new :: worker_registry where
  "registry_new =
     \<lparr>workers = [], model_workers = [], model_index = Map.empty, type_workers = Map.empty,
      connection_workers = Map.empty, url_to_id = Map.empty, revision = 0\<rparr>"

definition notify_worker_state_change :: "worker_registry \<Rightarrow> worker_registry" where
  "notify_worker_state_change r = r\<lparr>revision := revision r + 1\<rparr>"

section \<open>Entries of the maps\<close>

definition entries :: "'v list option \<Rightarrow> 'v list" where
  "entries e = (case e of Some vs \<Rightarrow> vs | None \<Rightarrow> [])"

definition push_entry :: "'k \<Rightarrow> 'v \<Rightarrow> ('k \<rightharpoonup> 'v list) \<Rightarrow> ('k \<rightharpoonup> 'v list)" where
  "push_entry k v m = m(k \<mapsto> entries (m k) @ [v])"

definition retain_entry :: "'k \<Rightarrow> ('v \<Rightarrow> bool) \<Rightarrow> ('k \<rightharpoonup> 'v list) \<Rightarrow> ('k \<rightharpoonup> 'v list)" where
  "retain_entry k p m = (case m k of Some vs \<Rightarrow> m(k \<mapsto> filter p vs) | None \<Rightarrow> m)"

definition al_push :: "'k \<Rightarrow> 'v \<Rightarrow> ('k \<times> 'v list) list \<Rightarrow> ('k \<times> 'v list) list" where
  "al_push k v al = AList.update k (entries (map_of al k) @ [v]) al"

definition al_retain :: "'k \<Rightarrow> ('v \<Rightarrow> bool) \<Rightarrow> ('k \<times> 'v list) list \<Rightarrow> ('k \<times> 'v list) list" where
  "al_retain k p al =
     (case map_of al k of Some vs \<Rightarrow> AList.update k (filter p vs) al | None \<Rightarrow> al)"

section \<open>Operations\<close>

definition register ::
  "store \<Rightarrow> worker_id \<Rightarrow> wref \<Rightarrow> worker_registry \<Rightarrow> worker_id \<times> worker_registry" where
  "register H fresh w r =
     (let worker_id = (case url_to_id r (url (H w)) of Some existing_id \<Rightarrow> existing_id | None \<Rightarrow> fresh);
          r1 = r\<lparr>workers := AList.update worker_id w (workers r)\<rparr>;
          r2 = r1\<lparr>url_to_id := (url_to_id r1)(url (H w) \<mapsto> worker_id)\<rparr>;
          mid = model_id (H w);
          r3 = r2\<lparr>model_workers := al_push mid worker_id (model_workers r2)\<rparr>;
          r4 = r3\<lparr>model_index := push_entry mid w (model_index r3)\<rparr>;
          r5 = r4\<lparr>type_workers := push_entry (worker_type_of (H w)) worker_id (type_workers r4)\<rparr>;
          r6 = r5\<lparr>connection_workers :=
                    push_entry (connection_mode_of (H w)) worker_id (connection_workers r5)\<rparr>
      in (worker_id, notify_worker_state_change r6))"

definition remove :: "store \<Rightarrow> worker_id \<Rightarrow> worker_registry \<Rightarrow> wref option \<times> worker_registry" where
  "remove H worker_id r =
     (case map_of (workers r) worker_id of
        None \<Rightarrow> (None, r)
      | Some w \<Rightarrow>
          (let r1 = r\<lparr>workers := AList.delete worker_id (workers r)\<rparr>;
               r2 = r1\<lparr>url_to_id := (url_to_id r1)(url (H w) := None)\<rparr>;
               r3 = r2\<lparr>model_workers :=
                         al_retain (model_id (H w)) (\<lambda>i. i \<noteq> worker_id) (model_workers r2)\<rparr>;
               r4 = r3\<lparr>model_index :=
                         retain_entry (model_id (H w)) (\<lambda>v. url (H v) \<noteq> url (H w)) (model_index r3)\<rparr>;
               r5 = r4\<lparr>type_workers :=
                         retain_entry (worker_type_of (H w)) (\<lambda>i. i \<noteq> worker_id) (type_workers r4)\<rparr>;
               r6 = r5\<lparr>connection_workers :=
                         retain_entry (connection_mode_of (H w)) (\<lambda>i. i \<noteq> worker_id)
                           (connection_workers r5)\<rparr>
           in (Some w, notify_worker_state_change r6)))"

definition remove_by_url :: "store \<Rightarrow> str \<Rightarrow> worker_registry \<Rightarrow> wref option \<times> worker_registry" where
  "remove_by_url H u r =
     (case url_to_id r u of
        None \<Rightarrow> (None, r)
      | Some worker_id \<Rightarrow> remove H worker_id (r\<lparr>url_to_id := (url_to_id r)(u := None)\<rparr>))"

definition get :: "worker_registry \<Rightarrow> worker_id \<Rightarrow> wref option" where
  "get r worker_id = map_of (workers r) worker_id"

definition get_by_url :: "worker_registry \<Rightarrow> str \<Rightarrow> wref option" where
  "get_by_url r u = Option.bind (url_to_id r u) (get r)"

definition get_by_model :: "worker_registry \<Rightarrow> str \<Rightarrow> wref list" where
  "get_by_model r mid =
     (case map_of (model_workers r) mid of Some ids \<Rightarrow> List.map_filter (get r) ids | None \<Rightarrow> [])"

definition get_by_model_fast :: "worker_registry \<Rightarrow> str \<Rightarrow> wref list" where
  "get_by_model_fast r mid = (case model_index r mid of Some ws \<Rightarrow> ws | None \<Rightarrow> [])"

definition has_model :: "worker_registry \<Rightarrow> str \<Rightarrow> bool" where
  "has_model r mid = (case model_index r mid of Some ws \<Rightarrow> ws \<noteq> [] | None \<Rightarrow> False)"

definition get_by_type :: "worker_registry \<Rightarrow> worker_type \<Rightarrow> wref list" where
  "get_by_type r t =
     (case type_workers r t of Some ids \<Rightarrow> List.map_filter (get r) ids | None \<Rightarrow> [])"

definition is_prefill :: "worker_type \<Rightarrow> bool" where
  "is_prefill t = (case t of Prefill _ \<Rightarrow> True | _ \<Rightarrow> False)"

definition get_all :: "worker_registry \<Rightarrow> wref list" where
  "get_all r = map snd (workers r)"

definition get_prefill_workers :: "store \<Rightarrow> worker_registry \<Rightarrow> wref list" where
  "get_prefill_workers H r = filter (\<lambda>w. is_prefill (worker_type_of (H w))) (map snd (workers r))"

definition get_decode_workers :: "worker_registry \<Rightarrow> wref list" where
  "get_decode_workers r = get_by_type r Decode"

definition get_by_connection :: "worker_registry \<Rightarrow> connection_mode \<Rightarrow> wref list" where
  "get_by_connection r c =
     (case connection_workers r c of Some ids \<Rightarrow> List.map_filter (get r) ids | None \<Rightarrow> [])"

definition get_all_with_ids :: "worker_registry \<Rightarrow> (worker_id \<times> wref) list" where
  "get_all_with_ids r = workers r"

definition get_all_urls :: "store \<Rightarrow> worker_registry \<Rightarrow> str list" where
  "get_all_urls H r = map (\<lambda>e. url (H (snd e))) (workers r)"

definition get_models :: "worker_registry \<Rightarrow> str list" where
  "get_models r = map fst (filter (\<lambda>e. snd e \<noteq> []) (model_workers r))"

definition worker_matches ::
  "store \<Rightarrow> worker_type option \<Rightarrow> connection_mode option \<Rightarrow> bool \<Rightarrow> wref \<Rightarrow> bool" where
  "worker_matches H wtype conn healthy_only w =
     (if (case wtype of Some t \<Rightarrow> worker_type_of (H w) \<noteq> t | None \<Rightarrow> False) then False
      else if (case conn of Some c \<Rightarrow> connection_mode_of (H w) \<noteq> c | None \<Rightarrow> False) then False
      else if healthy_only \<and> \<not> is_healthy (H w) then False
      else True)"

definition get_workers_filtered ::
  "store \<Rightarrow> str option \<Rightarrow> worker_type option \<Rightarrow> connection_mode option \<Rightarrow> bool
   \<Rightarrow> worker_registry \<Rightarrow> wref list" where
  "get_workers_filtered H mid wtype conn healthy_only r =
     (let ws = (case mid of Some m \<Rightarrow> get_by_model_fast r m | None \<Rightarrow> get_all r) in
      filter (worker_matches H wtype conn healthy_only) ws)"

record worker_registry_stats =
  st_total_workers :: nat
  st_total_models :: nat
  st_healthy_workers :: nat
  st_total_load :: usize
  st_regular_workers :: nat
  st_prefill_workers :: nat
  st_decode_workers :: nat

definition stats_add :: "store \<Rightarrow> wref \<Rightarrow> worker_registry_stats \<Rightarrow> worker_registry_stats" where
  "stats_add H w s =
     (let s1 = (if is_healthy (H w)
                then s\<lparr>st_healthy_workers := st_healthy_workers s + 1\<rparr> else s);
          s2 = s1\<lparr>st_total_load := st_total_load s1 + load (H w)\<rparr>
      in case worker_type_of (H w) of
           Regular \<Rightarrow> s2\<lparr>st_regular_workers := st_regular_workers s2 + 1\<rparr>
         | Prefill _ \<Rightarrow> s2\<lparr>st_prefill_workers := st_prefill_workers s2 + 1\<rparr>
         | Decode \<Rightarrow> s2\<lparr>st_decode_workers := st_decode_workers s2 + 1\<rparr>)"

definition registry_stats :: "store \<Rightarrow> worker_registry \<Rightarrow> worker_registry_stats" where
  "registry_stats H r =
     fold (stats_add H) (get_all r)
       \<lparr>st_total_workers = length (workers r), st_total_models = length (get_models r),
        st_healthy_workers = 0, st_total_load = 0, st_regular_workers = 0,
        st_prefill_workers = 0, st_decode_workers = 0\<rparr>"

definition health_check_one ::
  "instant \<Rightarrow> health_env \<Rightarrow> wref \<Rightarrow> store \<times> u64 \<Rightarrow> store \<times> u64" where
  "health_check_one now env w s =
     (let (H, rev) = s;
          (was_available, w1) = is_available now (H w);
          (res, w2) = check_health_async env w1;
          (now_available, w3) = is_available now w2
      in (H(w := w3), if was_available \<noteq> now_available then rev + 1 else rev))"

definition registry_health_round ::
  "instant \<Rightarrow> health_env \<Rightarrow> store \<Rightarrow> worker_registry \<Rightarrow> store \<times> worker_registry" where
  "registry_health_round now env H r =
     (let (H', rev) = fold (health_check_one now env) (get_all r) (H, revision r)
      in (H', r\<lparr>revision := rev\<rparr>))"

inductive reg_reachable :: "store \<Rightarrow> worker_registry \<Rightarrow> bool" for H :: store where
  new: "reg_reachable H registry_new"
| register: "reg_reachable H r \<Longrightarrow> url_to_id r (url (H w)) = None \<Longrightarrow>
    fresh \<notin> fst ` set (workers r) \<Longrightarrow> reg_reachable H (snd (register H fresh w r))"
| remove: "reg_reachable H r \<Longrightarrow> reg_reachable H (snd (remove H i r))"
| remove_by_url: "reg_reachable H r \<Longrightarrow> reg_reachable H (snd (remove_by_url H u r))"
| notify: "reg_reachable H r \<Longrightarrow> reg_reachable H (notify_worker_state_change r)"

section \<open>Secondary indexes\<close>

definition index_ok :: "('k \<Rightarrow> 'i list) \<Rightarrow> ('w \<Rightarrow> 'k) \<Rightarrow> ('i \<rightharpoonup> 'w) \<Rightarrow> bool" where
  "index_ok look key W \<longleftrightarrow>
     (\<forall>k. distinct (look k) \<and> set (look k) = {i. \<exists>w. W i = Some w \<and> key w = k})"

locale secondary_index =
  fixes lookup :: "'idx \<Rightarrow> 'k \<Rightarrow> 'i list"
    and push :: "'k \<Rightarrow> 'i \<Rightarrow> 'idx \<Rightarrow> 'idx"
    and retain :: "'k \<Rightarrow> ('i \<Rightarrow> bool) \<Rightarrow> 'idx \<Rightarrow> 'idx"
  assumes lookup_push: "lookup (push k i I) k' = (if k' = k then lookup I k @ [i] else lookup I k')"
    and lookup_retain:
      "lookup (retain k p I) k' = (if k' = k then filter p (lookup I k) else lookup I k')"
begin

lemma index_push:
  assumes "index_ok (lookup I) key W" and "W i = None"
  shows "index_ok (lookup (push (key w) i I)) key (W(i \<mapsto> w))"
  using assms unfolding index_ok_def lookup_push by (auto split: if_splits)

lemma index_retain:
  assumes "index_ok (lookup I) key W" and "W i = Some w"
  shows "index_ok (lookup (retain (key w) (\<lambda>j. j \<noteq> i) I)) key (W(i := None))"
  using assms unfolding index_ok_def lookup_retain by (auto split: if_splits)

lemma index_lookup:
  assumes "index_ok (lookup I) key W"
  shows "set (List.map_filter W (lookup I k)) = {w. w \<in> ran W \<and> key w = k}"
proof -
  have "set (List.map_filter W (lookup I k)) = {w. \<exists>i\<in>set (lookup I k). W i = Some w}"
    by (auto simp: List.map_filter_def image_iff Bex_def) force
  then show ?thesis using assms by (auto simp: index_ok_def ran_def)
qed

end

interpretation map_idx: secondary_index "\<lambda>m k. entries (m k)" push_entry retain_entry
  by unfold_locales (auto simp: push_entry_def retain_entry_def entries_def split: option.split)

interpretation al_idx: secondary_index "\<lambda>al k. entries (map_of al k)" al_push al_retain
  by unfold_locales
    (auto simp: al_push_def al_retain_def entries_def update_conv' split: option.split)

section \<open>Invariant\<close>

definition reg_inv :: "store \<Rightarrow> worker_registry \<Rightarrow> bool" where
  "reg_inv H r \<longleftrightarrow>
     distinct (map fst (workers r)) \<and> distinct (map fst (model_workers r)) \<and>
     (\<forall>u i. url_to_id r u = Some i \<longleftrightarrow> (\<exists>w. get r i = Some w \<and> url (H w) = u)) \<and>
     index_ok (\<lambda>m. entries (map_of (model_workers r) m)) (\<lambda>w. model_id (H w)) (get r) \<and>
     index_ok (\<lambda>t. entries (type_workers r t)) (\<lambda>w. worker_type_of (H w)) (get r) \<and>
     index_ok (\<lambda>c. entries (connection_workers r c)) (\<lambda>w. connection_mode_of (H w)) (get r) \<and>
     (\<forall>m. entries (model_index r m) = map (\<lambda>i. the (get r i)) (entries (map_of (model_workers r) m)))"

lemma reg_inv_new: "reg_inv H registry_new"
  by (simp add: reg_inv_def registry_new_def index_ok_def get_def entries_def)

lemma get_update_other [simp]:
  "get (r\<lparr>revision := x\<rparr>) = get r"
  "get (r\<lparr>url_to_id := m\<rparr>) = get r"
  by (simp_all add: get_def fun_eq_iff)

lemma reg_inv_notify: "reg_inv H r \<Longrightarrow> reg_inv H (notify_worker_state_change r)"
  by (simp add: reg_inv_def notify_worker_state_change_def)

lemma reg_inv_url:
  "reg_inv H r \<Longrightarrow> url_to_id r u = Some i \<longleftrightarrow> (\<exists>w. get r i = Some w \<and> url (H w) = u)"
  by (simp add: reg_inv_def)

lemma get_None_iff: "get r i = None \<longleftrightarrow> i \<notin> fst ` set (workers r)"
  by (auto simp: get_def map_of_eq_None_iff)

lemma get_register:
  "get (snd (register H fresh w r)) =
     (get r)((case url_to_id r (url (H w)) of Some i \<Rightarrow> i | None \<Rightarrow> fresh) \<mapsto> w)"
  by (rule ext) (simp add: register_def Let_def get_def notify_worker_state_change_def update_conv')

lemma register_model_index:
  "model_index (snd (register H fresh w r)) = push_entry (model_id (H w)) w (model_index r)"
  by (simp add: register_def Let_def notify_worker_state_change_def)

lemma register_fields:
  assumes "url_to_id r (url (H w)) = None"
  shows "workers (snd (register H fresh w r)) = AList.update fresh w (workers r)"
    and "url_to_id (snd (register H fresh w r)) = (url_to_id r)(url (H w) \<mapsto> fresh)"
    and "model_workers (snd (register H fresh w r)) = al_push (model_id (H w)) fresh (model_workers r)"
    and "model_index (snd (register H fresh w r)) = push_entry (model_id (H w)) w (model_index r)"
    and "type_workers (snd (register H fresh w r)) =
           push_entry (worker_type_of (H w)) fresh (type_workers r)"
    and "connection_workers (snd (register H fresh w r)) =
           push_entry (connection_mode_of (H w)) fresh (connection_workers r)"
  using assms by (simp_all add: register_def Let_def notify_worker_state_change_def)

lemma reg_inv_register:
  assumes inv: "reg_inv H r" and new: "url_to_id r (url (H w)) = None"
    and fresh: "fresh \<notin> fst ` set (workers r)"
  shows "reg_inv H (snd (register H fresh w r))"
proof -
  let ?r = "snd (register H fresh w r)"
  note rf = register_fields [of r H w fresh, OF new]
  have g: "get ?r = (get r)(fresh \<mapsto> w)" using new by (simp add: get_register)
  have nf: "get r fresh = None" using fresh by (simp add: get_None_iff)
  have notin: "fresh \<notin> set (entries (map_of (model_workers r) m))" for m
    using inv nf by (auto simp: reg_inv_def index_ok_def)
  have "url_to_id ?r u = Some i \<longleftrightarrow> (\<exists>v. get ?r i = Some v \<and> url (H v) = u)" for u i
    using reg_inv_url [OF inv, of u i] reg_inv_url [OF inv, of "url (H w)" i] new nf
    unfolding g rf(2) by auto
  moreover have "index_ok (\<lambda>m. entries (map_of (model_workers ?r) m)) (\<lambda>w. model_id (H w)) (get ?r)"
    using inv nf al_idx.index_push [of "model_workers r" "\<lambda>w. model_id (H w)" "get r" fresh w]
    unfolding g rf(3) by (simp add: reg_inv_def)
  moreover have "index_ok (\<lambda>t. entries (type_workers ?r t)) (\<lambda>w. worker_type_of (H w)) (get ?r)"
    using inv nf map_idx.index_push [of "type_workers r" "\<lambda>w. worker_type_of (H w)" "get r" fresh w]
    unfolding g rf(5) by (simp add: reg_inv_def)
  moreover have "index_ok (\<lambda>c. entries (connection_workers ?r c)) (\<lambda>w. connection_mode_of (H w)) (get ?r)"
    using inv nf map_idx.index_push [of "connection_workers r" "\<lambda>w. connection_mode_of (H w)" "get r" fresh w]
    unfolding g rf(6) by (simp add: reg_inv_def)
  moreover have "entries (model_index ?r m) =
      map (\<lambda>i. the (get ?r i)) (entries (map_of (model_workers ?r) m))" for m
    using inv notin [of m] unfolding g rf(3,4)
    by (auto simp: reg_inv_def map_idx.lookup_push al_idx.lookup_push)
  moreover have "distinct (map fst (model_workers ?r))"
    using inv unfolding rf(3) al_push_def
    by (simp add: reg_inv_def distinct_update)
  ultimately show ?thesis
    using inv by (simp add: reg_inv_def rf(1) distinct_update)
qed

lemma get_remove:
  "get (snd (remove H i r)) = (get r)(i := None)"
  by (rule ext)
    (auto simp: remove_def Let_def get_def notify_worker_state_change_def delete_conv'
      split: option.split)

lemma remove_fields:
  assumes "get r i = Some w"
  shows "fst (remove H i r) = Some w"
    and "workers (snd (remove H i r)) = AList.delete i (workers r)"
    and "url_to_id (snd (remove H i r)) = (url_to_id r)(url (H w) := None)"
    and "model_workers (snd (remove H i r)) =
           al_retain (model_id (H w)) (\<lambda>j. j \<noteq> i) (model_workers r)"
    and "model_index (snd (remove H i r)) =
           retain_entry (model_id (H w)) (\<lambda>v. url (H v) \<noteq> url (H w)) (model_index r)"
    and "type_workers (snd (remove H i r)) =
           retain_entry (worker_type_of (H w)) (\<lambda>j. j \<noteq> i) (type_workers r)"
    and "connection_workers (snd (remove H i r)) =
           retain_entry (connection_mode_of (H w)) (\<lambda>j. j \<noteq> i) (connection_workers r)"
  using assms by (simp_all add: remove_def get_def Let_def notify_worker_state_change_def)

lemma remove_absent: "get r i = None \<Longrightarrow> remove H i r = (None, r)"
  by (simp add: remove_def get_def)

lemma reg_inv_url_inj:
  assumes "reg_inv H r" "get r i = Some v" "get r j = Some w" "url (H v) = url (H w)"
  shows "i = j"
  using assms reg_inv_url [OF assms(1), of "url (H w)"] by (metis option.inject)

lemma reg_inv_remove:
  assumes inv: "reg_inv H r"
  shows "reg_inv H (snd (remove H i r))"
proof (cases "get r i")
  case None
  then show ?thesis using inv by (simp add: remove_absent)
next
  case (Some w)
  let ?r = "snd (remove H i r)" and ?mid = "model_id (H w)"
  note rf = remove_fields [of r i w H, OF Some]
  have inj: "j = i" if "get r j = Some v" "url (H v) = url (H w)" for j v
    using reg_inv_url_inj [OF inv that(1) Some that(2)] .
  have "url_to_id ?r u = Some j \<longleftrightarrow> (\<exists>v. get ?r j = Some v \<and> url (H v) = u)" for u j
  proof (cases "u = url (H w)")
    case True
    then show ?thesis unfolding get_remove rf(3) by (auto dest: inj)
  next
    case False
    then show ?thesis
      unfolding get_remove rf(3) fun_upd_other [OF False] reg_inv_url [OF inv] using Some by auto
  qed
  moreover have "index_ok (\<lambda>m. entries (map_of (model_workers ?r) m)) (\<lambda>w. model_id (H w)) (get ?r)"
    using inv Some al_idx.index_retain [of "model_workers r" "\<lambda>w. model_id (H w)" "get r" i w]
    unfolding get_remove rf(4) by (simp add: reg_inv_def)
  moreover have "index_ok (\<lambda>t. entries (type_workers ?r t)) (\<lambda>w. worker_type_of (H w)) (get ?r)"
    using inv Some map_idx.index_retain [of "type_workers r" "\<lambda>w. worker_type_of (H w)" "get r" i w]
    unfolding get_remove rf(6) by (simp add: reg_inv_def)
  moreover have "index_ok (\<lambda>c. entries (connection_workers ?r c)) (\<lambda>w. connection_mode_of (H w)) (get ?r)"
    using inv Some map_idx.index_retain [of "connection_workers r" "\<lambda>w. connection_mode_of (H w)" "get r" i w]
    unfolding get_remove rf(7) by (simp add: reg_inv_def)
  moreover have "entries (model_index ?r m) =
      map (\<lambda>j. the (get ?r j)) (entries (map_of (model_workers ?r) m))" for m
  proof -
    let ?ids = "entries (map_of (model_workers r) m)"
    have ids: "j \<in> set ?ids \<longleftrightarrow> (\<exists>v. get r j = Some v \<and> model_id (H v) = m)" for j
      using inv by (auto simp: reg_inv_def index_ok_def)
    have flt: "filter (\<lambda>j. url (H (the (get r j))) \<noteq> url (H w)) ?ids = filter (\<lambda>j. j \<noteq> i) ?ids"
      using ids Some by (intro filter_cong) (auto dest: inj)
    have mi: "entries (model_index r m) = map (\<lambda>j. the (get r j)) ?ids"
      using inv by (simp add: reg_inv_def)
    show ?thesis
    proof (cases "m = ?mid")
      case True
      then show ?thesis
        unfolding rf(4,5) map_idx.lookup_retain al_idx.lookup_retain get_remove
        using mi flt by (simp add: filter_map comp_def)
    next
      case False
      then have "i \<notin> set ?ids" using ids Some by auto
      then show ?thesis
        unfolding rf(4,5) map_idx.lookup_retain al_idx.lookup_retain get_remove
        using mi False by auto
    qed
  qed
  moreover have "distinct (map fst (model_workers ?r))"
    using inv unfolding rf(4) al_retain_def
    by (auto simp: reg_inv_def distinct_update split: option.split)
  ultimately show ?thesis
    using inv by (simp add: reg_inv_def rf(2) distinct_delete)
qed

lemma remove_by_url_eq:
  assumes inv: "reg_inv H r" and u: "url_to_id r u = Some i"
  shows "remove_by_url H u r = remove H i r"
proof -
  obtain w where w: "get r i = Some w" "url (H w) = u" using inv u by (auto simp: reg_inv_def)
  have "(url_to_id r)(u := None, url (H w) := None) = (url_to_id r)(url (H w) := None)"
    using w(2) by simp
  then show ?thesis
    using u w by (simp add: remove_by_url_def remove_def get_def Let_def notify_worker_state_change_def)
qed

lemma reg_inv_remove_by_url:
  assumes "reg_inv H r"
  shows "reg_inv H (snd (remove_by_url H u r))"
proof (cases "url_to_id r u")
  case None
  then show ?thesis using assms by (simp add: remove_by_url_def)
next
  case (Some i)
  then show ?thesis using assms by (simp add: remove_by_url_eq reg_inv_remove)
qed

lemmas reg_inv_ops [inv_intros] =
  reg_inv_new reg_inv_notify reg_inv_register reg_inv_remove reg_inv_remove_by_url

lemma reg_reachable_inv: "reg_reachable H r \<Longrightarrow> reg_inv H r"
  by (induction rule: reg_reachable.induct) (auto intro: inv_intros)

section \<open>Lookups\<close>

lemma map_filter_entries:
  "(case e of Some ids \<Rightarrow> List.map_filter f ids | None \<Rightarrow> []) = List.map_filter f (entries e)"
  by (simp add: entries_def List.map_filter_simps split: option.split)

lemma get_eq: "get r = map_of (workers r)"
  by (simp add: get_def fun_eq_iff)

lemma ran_get: "distinct (map fst (workers r)) \<Longrightarrow> ran (get r) = set (get_all r)"
  by (simp add: get_eq get_all_def ran_distinct)

lemma reg_inv_get_all_distinct:
  assumes inv: "reg_inv H r"
  shows "distinct (get_all r)"
proof -
  have d: "distinct (map fst (workers r))" using inv by (simp add: reg_inv_def)
  have g: "get r i = Some v" if "(i, v) \<in> set (workers r)" for i v
    using that d by (simp add: get_def)
  have "x = y" if "x \<in> set (workers r)" "y \<in> set (workers r)" "snd x = snd y" for x y
  proof -
    have "get r (fst x) = Some (snd x)" "get r (fst y) = Some (snd y)"
      using that(1,2) g [of "fst x" "snd x"] g [of "fst y" "snd y"] by simp_all
    then have "fst x = fst y" using reg_inv_url_inj [OF inv] that(3) by metis
    then show ?thesis using that(3) by (simp add: prod_eq_iff)
  qed
  moreover have "distinct (workers r)" using d by (simp add: distinct_map)
  ultimately show ?thesis by (simp add: get_all_def distinct_map inj_on_def)
qed

lemma reg_inv_indexes:
  assumes inv: "reg_inv H r"
  shows "get_by_model_fast r m = get_by_model r m"
    and "set (get_by_model r m) = {w \<in> set (get_all r). model_id (H w) = m}"
    and "set (get_by_type r t) = {w \<in> set (get_all r). worker_type_of (H w) = t}"
    and "set (get_by_connection r c) = {w \<in> set (get_all r). connection_mode_of (H w) = c}"
proof -
  have ran: "ran (get r) = set (get_all r)" using inv by (simp add: reg_inv_def ran_get)
  show "set (get_by_model r m) = {w \<in> set (get_all r). model_id (H w) = m}"
    using al_idx.index_lookup [of "model_workers r" "\<lambda>w. model_id (H w)" "get r" m] inv ran
    by (simp add: get_by_model_def map_filter_entries reg_inv_def)
  show "set (get_by_type r t) = {w \<in> set (get_all r). worker_type_of (H w) = t}"
    using map_idx.index_lookup [of "type_workers r" "\<lambda>w. worker_type_of (H w)" "get r" t] inv ran
    by (simp add: get_by_type_def map_filter_entries reg_inv_def)
  show "set (get_by_connection r c) = {w \<in> set (get_all r). connection_mode_of (H w) = c}"
    using map_idx.index_lookup [of "connection_workers r" "\<lambda>w. connection_mode_of (H w)" "get r" c] inv ran
    by (simp add: get_by_connection_def map_filter_entries reg_inv_def)
  have "\<forall>i\<in>set (entries (map_of (model_workers r) m)). get r i \<noteq> None"
    using inv by (auto simp: reg_inv_def index_ok_def)
  then have "List.map_filter (get r) (entries (map_of (model_workers r) m)) =
      map (\<lambda>i. the (get r i)) (entries (map_of (model_workers r) m))"
    by (auto simp: List.map_filter_def filter_id_conv)
  then show "get_by_model_fast r m = get_by_model r m"
    using inv by (simp add: get_by_model_fast_def get_by_model_def map_filter_entries reg_inv_def)
      (simp add: entries_def)
qed

lemma reg_inv_get_by_url:
  assumes inv: "reg_inv H r"
  shows "get_by_url r u = Some w \<longleftrightarrow> w \<in> set (get_all r) \<and> url (H w) = u"
proof -
  have ran: "ran (get r) = set (get_all r)" using inv by (simp add: reg_inv_def ran_get)
  have "get_by_url r u = Some w \<longleftrightarrow> (\<exists>i. url_to_id r u = Some i \<and> get r i = Some w)"
    by (auto simp: get_by_url_def bind_eq_Some_conv)
  also have "\<dots> \<longleftrightarrow> (\<exists>i. get r i = Some w \<and> url (H w) = u)"
    unfolding reg_inv_url [OF inv] by auto
  also have "\<dots> \<longleftrightarrow> w \<in> set (get_all r) \<and> url (H w) = u"
    unfolding ran [symmetric] by (auto simp: ran_def)
  finally show ?thesis .
qed

lemma ran_remove_unique:
  assumes "m i = Some w" and "\<And>j. m j = Some w \<Longrightarrow> j = i"
  shows "ran (m(i := None)) = ran m - {w}"
proof -
  have "ran (m(i := None)) = {v. \<exists>j. j \<noteq> i \<and> m j = Some v}"
    by (auto simp: ran_def)
  also have "\<dots> = ran m - {w}"
    unfolding ran_def using assms by (safe; metis option.inject)
  finally show ?thesis .
qed


text \<open>
  Removing a registered worker by its URL returns that worker and nothing
  else changes: afterwards exactly the other workers are registered, so no
  lookup finds the removed one.
\<close>
theorem remove_by_url_exact:
  assumes "reg_reachable H r" and "get_by_url r u = Some w"
  shows "fst (remove_by_url H u r) = Some w
       \<and> set (get_all (snd (remove_by_url H u r))) = set (get_all r) - {w}
       \<and> get_by_url (snd (remove_by_url H u r)) u = None
       \<and> w \<notin> set (get_by_model_fast (snd (remove_by_url H u r)) m)"
proof -
  have inv: "reg_inv H r" using assms(1) by (rule reg_reachable_inv)
  obtain i where i: "url_to_id r u = Some i" "get r i = Some w"
    using assms(2) by (auto simp: get_by_url_def bind_eq_Some_conv)
  let ?r = "snd (remove_by_url H u r)"
  have eq: "remove_by_url H u r = remove H i r" using inv i(1) by (rule remove_by_url_eq)
  have inv': "reg_inv H ?r" using inv by (rule reg_inv_remove_by_url)
  have "set (get_all r) = ran (get r)" "set (get_all ?r) = ran ((get r)(i := None))"
    using inv inv' ran_get [of r] ran_get [of ?r] by (simp_all add: reg_inv_def eq get_remove)
  moreover have "ran ((get r)(i := None)) = ran (get r) - {w}"
    using i(2) reg_inv_url_inj [OF inv _ i(2), of _ w] by (rule ran_remove_unique) simp_all
  ultimately have all: "set (get_all ?r) = set (get_all r) - {w}" by simp
  have u: "url (H w) = u" using reg_inv_get_by_url [OF inv] assms(2) by simp
  have "get_by_url ?r u = None"
    using i u by (simp add: eq get_by_url_def remove_fields(3))
  moreover have "w \<notin> set (get_by_model_fast ?r m)"
    using reg_inv_indexes(1,2) [OF inv', of m] all by simp
  ultimately show ?thesis
    using all remove_fields(1) [OF i(2)] eq by simp
qed

text \<open>
  Registering a worker under a URL that is taken, with another model, and
  then removing that URL leaves the replaced worker in the optimised model
  index, although no worker is registered under the URL any more.
\<close>
theorem reregister_leaves_stale_entry:
  assumes "reg_reachable H r" and "get_by_url r (url (H v)) = Some w"
    and "model_id (H v) \<noteq> model_id (H w)"
  shows "let r1 = snd (register H fresh v r); r2 = snd (remove_by_url H (url (H v)) r1)
         in w \<in> set (get_by_model_fast r2 (model_id (H w))) \<and> get_by_url r2 (url (H v)) = None"
proof -
  have inv: "reg_inv H r" using assms(1) by (rule reg_reachable_inv)
  obtain i where i: "url_to_id r (url (H v)) = Some i" "get r i = Some w"
    using assms(2) by (auto simp: get_by_url_def bind_eq_Some_conv)
  let ?r1 = "snd (register H fresh v r)" and ?u = "url (H v)"
  let ?r2 = "snd (remove_by_url H ?u ?r1)"
  have g1: "get ?r1 i = Some v" using i by (simp add: get_register)
  have u1: "url_to_id ?r1 ?u = Some i"
    using i by (simp add: register_def Let_def notify_worker_state_change_def)
  have "get_by_url ?r2 ?u = None"
    using u1 g1 by (simp add: remove_by_url_def get_by_url_def remove_fields(3))
  moreover have "model_index ?r2 (model_id (H w)) = model_index r (model_id (H w))"
    using u1 g1 assms(3)
    by (simp add: remove_by_url_def remove_fields(5) register_model_index retain_entry_def push_entry_def
        split: option.split)
  moreover have "w \<in> set (get_by_model_fast r (model_id (H w)))"
    using reg_inv_indexes(1,2) [OF inv, of "model_id (H w)"] assms(2)
      reg_inv_get_by_url [OF inv, of ?u w] by simp
  ultimately show ?thesis by (simp add: get_by_model_fast_def Let_def)
qed

section \<open>Witnesses\<close>

definition demo_store :: store where
  "demo_store i =
     BasicWorker (with_labels [''model_id'' \<mapsto> (if i = 0 then ''a'' else ''b'')]
       (bw_new 0 ''http://w'' Regular))"

lemma demo_store_fields [simp]:
  "url (demo_store i) = ''http://w''"
  "model_id (demo_store i) = (if i = 0 then ''a'' else ''b'')"
  "worker_type_of (demo_store i) = Regular"
  by (simp_all add: demo_store_def worker_op_defs with_labels_def bw_new_def with_connection_mode_def)

definition demo_registry :: worker_registry where
  "demo_registry = snd (register demo_store ''id'' 0 registry_new)"

lemma demo_registry_facts:
  "reg_reachable demo_store demo_registry" "get_all demo_registry = [0]"
  "get_by_url demo_registry ''http://w'' = Some 0"
proof -
  show "reg_reachable demo_store demo_registry"
    unfolding demo_registry_def
    by (rule reg_reachable.register [OF reg_reachable.new]) (simp_all add: registry_new_def)
  show "get_all demo_registry = [0]" "get_by_url demo_registry ''http://w'' = Some 0"
    by (simp_all add: demo_registry_def register_def registry_new_def get_all_def get_by_url_def get_def
        Let_def notify_worker_state_change_def)
qed


theorem remove_by_url_exact_witness:
  "fst (remove_by_url demo_store ''http://w'' demo_registry) = Some 0
   \<and> set (get_all (snd (remove_by_url demo_store ''http://w'' demo_registry))) = {}"
  using remove_by_url_exact [OF demo_registry_facts(1,3)] demo_registry_facts(2) by auto

theorem reregister_leaves_stale_entry_witness:
  "0 \<in> set (get_by_model_fast (snd (remove_by_url demo_store ''http://w''
          (snd (register demo_store ''id2'' 1 demo_registry)))) ''a'')
   \<and> get_by_url (snd (remove_by_url demo_store ''http://w''
          (snd (register demo_store ''id2'' 1 demo_registry)))) ''http://w'' = None"
  using reregister_leaves_stale_entry [OF demo_registry_facts(1), of 1 0 "''id2''"] demo_registry_facts(3)
  by (simp add: Let_def)

section \<open>Health rounds\<close>

lemma check_health_async_metadata [simp]: "metadata (snd (check_health_async env w)) = metadata w"
  by (simp add: metadata_def)

lemma health_check_one_eq:
  "health_check_one now env w (H, n) =
     (H(w := snd (is_available now (snd (check_health_async env (snd (is_available now (H w))))))),
      n + (if available now (H w) \<noteq>
              available now (snd (check_health_async env (snd (is_available now (H w))))) then 1 else 0))"
  by (simp add: health_check_one_def available_def Let_def split: prod.split)

lemma health_fold:
  assumes "distinct ws" and "fold (health_check_one now env) ws (H, n) = (H', n')"
  shows "(\<forall>w. w \<notin> set ws \<longrightarrow> H' w = H w) \<and>
         (\<forall>w. load (H' w) = load (H w) \<and> metadata (H' w) = metadata (H w)) \<and>
         n' = n + of_nat (length (filter (\<lambda>w. available now (H w) \<noteq> available now (H' w)) ws))"
  using assms
proof (induction ws arbitrary: H n)
  case Nil
  then show ?case by simp
next
  case (Cons w ws)
  let ?w = "snd (is_available now (snd (check_health_async env (snd (is_available now (H w))))))"
  define d :: u64 where "d = (if available now (H w) \<noteq> available now ?w then 1 else 0)"
  have "fold (health_check_one now env) ws (H(w := ?w), n + d) = (H', n')"
    using Cons.prems(2) by (simp add: health_check_one_eq d_def)
  from Cons.IH [OF _ this] Cons.prems(1)
  have IH: "\<forall>v. v \<notin> set ws \<longrightarrow> H' v = (H(w := ?w)) v"
    "\<forall>v. load (H' v) = load ((H(w := ?w)) v) \<and> metadata (H' v) = metadata ((H(w := ?w)) v)"
    "n' = n + d + of_nat (length (filter (\<lambda>v. available now ((H(w := ?w)) v) \<noteq> available now (H' v)) ws))"
    by simp_all
  have "filter (\<lambda>v. available now ((H(w := ?w)) v) \<noteq> available now (H' v)) ws =
      filter (\<lambda>v. available now (H v) \<noteq> available now (H' v)) ws"
    using Cons.prems(1) by (intro filter_cong) auto
  moreover have "H' w = ?w" using IH(1) Cons.prems(1) by simp
  ultimately show ?case using IH Cons.prems(1) by (auto simp: d_def)
qed

text \<open>
  A round of the registry's health checker never touches the load of any
  worker, registered or not, nor its metadata, and raises the revision by
  exactly the number of registered workers whose availability changed.
\<close>
theorem health_round_revision:
  assumes "reg_reachable H r" and "registry_health_round now env H r = (H', r')"
  shows "load (H' w) = load (H w) \<and> metadata (H' w) = metadata (H w) \<and>
         revision r' = revision r
           + of_nat (length (filter (\<lambda>v. available now (H v) \<noteq> available now (H' v)) (get_all r)))"
proof -
  obtain n where "fold (health_check_one now env) (get_all r) (H, revision r) = (H', n)"
      "r' = r\<lparr>revision := n\<rparr>"
    using assms(2) by (auto simp: registry_health_round_def split: prod.splits)
  with health_fold [OF reg_inv_get_all_distinct [OF reg_reachable_inv [OF assms(1)]] this(1)]
  show ?thesis by simp
qed

theorem health_round_revision_witness:
  "let env = \<lparr>http_get_success = (\<lambda>_ _. False), check_grpc_health_ok = (\<lambda>_ _. False)\<rparr>;
       (H', r') = registry_health_round 1 env demo_store demo_registry
   in load (H' 0) = load (demo_store 0)"
  using health_round_revision [OF demo_registry_facts(1)] by (auto simp: Let_def split: prod.split)

end
