(* ===== verification/Policy.thy ===== *)
theory Policy
  imports Worker
begin

text \<open>
  The policy interface of \<^verbatim>\<open>policies/mod.rs\<close> and the policies that need neither
  request text nor headers: \<^verbatim>\<open>round_robin.rs\<close>, \<^verbatim>\<open>random.rs\<close> and \<^verbatim>\<open>power_of_two.rs\<close>.

  A selection reads the clock through the circuit breakers it probes and changes
  the workers (a probed breaker may turn half-open, the chosen worker counts a
  processed request), so it returns the new policy state and the new workers
  beside the index.  Randomness makes a selection a relation between inputs and
  outcomes.  A draw is an arbitrary natural number, reduced into the range asked
  for; every value of the range is the outcome of some draw.

  The contract of the trait is the locale \<open>lb_policy\<close>: a selection is always
  possible, an index it gives is in range and names an available worker, it gives
  none only if no worker is available, and it leaves URLs and loads alone.  The
  pair selection for prefill and decode pools is verified once from that contract.
  The weaker \<open>lb_healthy\<close>, with health in place of availability, is what a policy
  that ignores circuit breakers keeps.
\<close>

type_synonym request_headers = "str \<rightharpoonup> str"
type_synonym 'st outcome = "nat option \<times> 'st \<times> worker list"
type_synonym 'st selection =
  "instant \<Rightarrow> 'st \<Rightarrow> worker list \<Rightarrow> str option \<Rightarrow> request_headers option \<Rightarrow> 'st outcome \<Rightarrow> bool"

section \<open>Shared helpers\<close>

definition get_healthy_worker_indices :: "instant \<Rightarrow> worker list \<Rightarrow> nat list \<times> worker list" where
  "get_healthy_worker_indices now ws =
     (filter (\<lambda>i. fst (is_available now (ws ! i))) [0..<length ws],
      map (\<lambda>w. snd (is_available now w)) ws)"

definition normalize_model_key :: "str \<Rightarrow> str" where
  "normalize_model_key mid = (if mid = [] \<or> mid = ''unknown'' then ''default'' else mid)"

definition count_processed :: "nat \<Rightarrow> worker list \<Rightarrow> worker list" where
  "count_processed i ws = ws[i := increment_processed (ws ! i)]"

definition select_pair ::
  "'st selection \<Rightarrow> instant \<Rightarrow> 'st \<Rightarrow> worker list \<Rightarrow> worker list \<Rightarrow> str option \<Rightarrow> request_headers option
   \<Rightarrow> (nat \<times> nat) option \<times> 'st \<times> worker list \<times> worker list \<Rightarrow> bool" where
  "select_pair sel now st pws dws body hdrs out \<longleftrightarrow>
     (\<exists>p st1 pws1. sel now st pws body hdrs (p, st1, pws1) \<and>
        (case p of
           None \<Rightarrow> out = (None, st1, pws1, dws)
         | Some prefill_idx \<Rightarrow>
             \<exists>d st2 dws1. sel now st1 dws body hdrs (d, st2, dws1) \<and>
               out = (case d of
                        None \<Rightarrow> (None, st2, pws1, dws1)
                      | Some decode_idx \<Rightarrow> (Some (prefill_idx, decode_idx), st2, pws1, dws1))))"

section \<open>Round robin\<close>

record round_robin = rr_counter :: usize

definition rr_new :: round_robin where
  "rr_new = \<lparr>rr_counter = 0\<rparr>"

definition rr_select :: "instant \<Rightarrow> round_robin \<Rightarrow> worker list \<Rightarrow> round_robin outcome" where
  "rr_select now st ws =
     (let (healthy_indices, ws1) = get_healthy_worker_indices now ws in
      if healthy_indices = [] then (None, st, ws1)
      else
        let count = rr_counter st;
            st1 = st\<lparr>rr_counter := count + 1\<rparr>;
            selected_idx = unat count mod length healthy_indices
        in (Some (healthy_indices ! selected_idx), st1, ws1))"

definition rr_reset :: "round_robin \<Rightarrow> round_robin" where
  "rr_reset st = st\<lparr>rr_counter := 0\<rparr>"

fun rr_run :: "instant \<Rightarrow> nat \<Rightarrow> round_robin \<Rightarrow> worker list \<Rightarrow> nat option list" where
  "rr_run now 0 st ws = []"
| "rr_run now (Suc n) st ws =
     (let (i, st', ws') = rr_select now st ws in i # rr_run now n st' ws')"

section \<open>Random\<close>

definition random_range :: "nat \<Rightarrow> nat \<Rightarrow> nat" where
  "random_range draw n = draw mod n"

definition random_select :: "nat \<Rightarrow> instant \<Rightarrow> worker list \<Rightarrow> unit outcome" where
  "random_select draw now ws =
     (let (healthy_indices, ws1) = get_healthy_worker_indices now ws in
      if healthy_indices = [] then (None, (), ws1)
      else
        let random_idx = random_range draw (length healthy_indices)
        in (Some (healthy_indices ! random_idx), (), ws1))"

section \<open>Power of two choices\<close>

record power_of_two = cached_loads :: "str \<rightharpoonup> int"

definition p2_new :: power_of_two where
  "p2_new = \<lparr>cached_loads = Map.empty\<rparr>"

definition get_worker_load :: "power_of_two \<Rightarrow> worker \<Rightarrow> int" where
  "get_worker_load st w =
     (case cached_loads st (url w) of Some l \<Rightarrow> l | None \<Rightarrow> sint (load w))"

fun redraw :: "nat \<Rightarrow> nat \<Rightarrow> nat list \<Rightarrow> nat option" where
  "redraw n idx1 [] = None"
| "redraw n idx1 (r # draws) =
     (let idx2 = random_range r n in if idx2 = idx1 then redraw n idx1 draws else Some idx2)"

definition p2_select ::
  "nat \<Rightarrow> nat list \<Rightarrow> instant \<Rightarrow> power_of_two \<Rightarrow> worker list \<Rightarrow> power_of_two outcome option" where
  "p2_select draw draws now st ws =
     (let (healthy_indices, ws1) = get_healthy_worker_indices now ws; n = length healthy_indices in
      if healthy_indices = [] then Some (None, st, ws1)
      else if n = 1 then Some (Some (healthy_indices ! 0), st, ws1)
      else
        let idx1 = random_range draw n in
        case redraw n idx1 draws of
          None \<Rightarrow> None
        | Some idx2 \<Rightarrow>
            let worker_idx1 = healthy_indices ! idx1;
                worker_idx2 = healthy_indices ! idx2;
                load1 = get_worker_load st (ws1 ! worker_idx1);
                load2 = get_worker_load st (ws1 ! worker_idx2);
                selected_idx = (if load1 \<le> load2 then worker_idx1 else worker_idx2)
            in Some (Some selected_idx, st, count_processed selected_idx ws1))"

definition p2_update_loads :: "(str \<rightharpoonup> int) \<Rightarrow> power_of_two \<Rightarrow> power_of_two" where
  "p2_update_loads loads st = st\<lparr>cached_loads := loads\<rparr>"

section \<open>The contract\<close>

definition sound_choice :: "instant \<Rightarrow> worker list \<Rightarrow> nat option \<Rightarrow> bool" where
  "sound_choice now ws r \<longleftrightarrow>
     (r \<noteq> None \<longleftrightarrow> (\<exists>w\<in>set ws. available now w)) \<and>
     (\<forall>i. r = Some i \<longrightarrow> i < length ws \<and> available now (ws ! i))"

definition sound_pair :: "instant \<Rightarrow> worker list \<Rightarrow> worker list \<Rightarrow> (nat \<times> nat) option \<Rightarrow> bool" where
  "sound_pair now pws dws r \<longleftrightarrow>
     (r \<noteq> None \<longleftrightarrow> (\<exists>w\<in>set pws. available now w) \<and> (\<exists>w\<in>set dws. available now w)) \<and>
     (\<forall>i j. r = Some (i, j) \<longrightarrow> i < length pws \<and> available now (pws ! i)
                              \<and> j < length dws \<and> available now (dws ! j))"

lemma select_pair_cases:
  assumes "select_pair sel now st pws dws body hdrs (r, st', pws', dws')"
  obtains (no_prefill) "r = None" "sel now st pws body hdrs (None, st', pws')"
  | (no_decode) i st1 where "r = None" "sel now st pws body hdrs (Some i, st1, pws')"
      "sel now st1 dws body hdrs (None, st', dws')"
  | (both) i j st1 where "r = Some (i, j)" "sel now st pws body hdrs (Some i, st1, pws')"
      "sel now st1 dws body hdrs (Some j, st', dws')"
proof -
  from assms obtain q st1 pws1 where q: "sel now st pws body hdrs (q, st1, pws1)"
      "case q of None \<Rightarrow> (r, st', pws', dws') = (None, st1, pws1, dws)
       | Some prefill_idx \<Rightarrow> \<exists>d st2 dws1. sel now st1 dws body hdrs (d, st2, dws1) \<and>
           (r, st', pws', dws') = (case d of None \<Rightarrow> (None, st2, pws1, dws1)
             | Some decode_idx \<Rightarrow> (Some (prefill_idx, decode_idx), st2, pws1, dws1))"
    unfolding select_pair_def by blast
  show thesis
  proof (cases q)
    case None
    then show thesis using q no_prefill by simp
  next
    case (Some i)
    then obtain d st2 dws1 where d: "sel now st1 dws body hdrs (d, st2, dws1)"
        "(r, st', pws', dws') = (case d of None \<Rightarrow> (None, st2, pws1, dws1)
             | Some decode_idx \<Rightarrow> (Some (i, decode_idx), st2, pws1, dws1))"
      using q(2) by auto
    then show thesis using q(1) Some no_decode both by (cases d) simp_all
  qed
qed

locale lb_healthy =
  fixes sel :: "'st selection"
  assumes progress: "\<exists>out. sel now st ws body hdrs out"
    and in_range: "sel now st ws body hdrs (Some i, st', ws') \<Longrightarrow> i < length ws \<and> is_healthy (ws ! i)"
    and none_available:
      "sel now st ws body hdrs (None, st', ws') \<Longrightarrow> w \<in> set ws \<Longrightarrow> \<not> available now w"
    and keeps: "sel now st ws body hdrs (r, st', ws') \<Longrightarrow>
      map url ws' = map url ws \<and> map load ws' = map load ws"
begin

lemma pair_progress: "\<exists>out. select_pair sel now st pws dws body hdrs out"
proof -
  obtain p st1 pws1 where p: "sel now st pws body hdrs (p, st1, pws1)"
    using progress by (metis prod_cases3)
  obtain d st2 dws1 where d: "sel now st1 dws body hdrs (d, st2, dws1)"
    using progress by (metis prod_cases3)
  show ?thesis
  proof (cases p)
    case None
    then show ?thesis using p by (fastforce simp: select_pair_def)
  next
    case (Some i)
    then show ?thesis using p d by (fastforce simp: select_pair_def)
  qed
qed

lemma pair_in_range:
  assumes "select_pair sel now st pws dws body hdrs (Some (i, j), st', pws', dws')"
  shows "i < length pws \<and> is_healthy (pws ! i) \<and> j < length dws \<and> is_healthy (dws ! j)"
  using assms by (cases rule: select_pair_cases) (auto dest: in_range)

lemma pair_none:
  assumes "select_pair sel now st pws dws body hdrs (None, st', pws', dws')"
  shows "(\<forall>w\<in>set pws. \<not> available now w) \<or> (\<forall>w\<in>set dws. \<not> available now w)"
  using assms by (cases rule: select_pair_cases) (auto dest: none_available)

lemma lengths: "sel now st ws body hdrs (r, st', ws') \<Longrightarrow> length ws' = length ws"
  using keeps by (metis length_map)

end

locale lb_policy = lb_healthy +
  assumes chosen_available:
    "sel now st ws body hdrs (Some i, st', ws') \<Longrightarrow> available now (ws ! i)"
begin

lemma choice_sound:
  assumes "sel now st ws body hdrs (r, st', ws')"
  shows "sound_choice now ws r"
proof (cases r)
  case None
  then show ?thesis using none_available assms by (auto simp: sound_choice_def)
next
  case (Some i)
  then have "i < length ws" "available now (ws ! i)" using in_range chosen_available assms by auto
  then show ?thesis using Some by (auto simp: sound_choice_def)
qed

lemma pair_sound:
  assumes "select_pair sel now st pws dws body hdrs (r, st', pws', dws')"
  shows "sound_pair now pws dws r"
  using assms
proof (cases rule: select_pair_cases)
  case no_prefill
  then show ?thesis using choice_sound [of now st pws] by (fastforce simp: sound_choice_def sound_pair_def)
next
  case (no_decode i st1)
  then show ?thesis using choice_sound [of now st1 dws] by (fastforce simp: sound_choice_def sound_pair_def)
next
  case (both i j st1)
  then have "sound_choice now pws (Some i)" "sound_choice now dws (Some j)" using choice_sound by blast+
  then show ?thesis using both(1) by (simp add: sound_choice_def sound_pair_def)
qed

end

section \<open>Facts about the available indices\<close>

definition healthy_of :: "instant \<Rightarrow> worker list \<Rightarrow> nat list" where
  "healthy_of now ws = filter (\<lambda>i. available now (ws ! i)) [0..<length ws]"

definition probed :: "instant \<Rightarrow> worker list \<Rightarrow> worker list" where
  "probed now ws = map (\<lambda>w. snd (is_available now w)) ws"

lemma get_healthy_worker_indices_eq:
  "get_healthy_worker_indices now ws = (healthy_of now ws, probed now ws)"
  by (simp add: get_healthy_worker_indices_def available_def healthy_of_def probed_def)

lemma available_healthy: "available now w \<Longrightarrow> is_healthy w"
  by (simp add: available_def is_available_eq)

lemma healthy_of_nth:
  assumes "k < length (healthy_of now ws)"
  shows "healthy_of now ws ! k < length ws \<and> available now (ws ! (healthy_of now ws ! k))"
  using nth_mem [OF assms] by (auto simp: healthy_of_def)

lemma healthy_of_Nil: "healthy_of now ws = [] \<longleftrightarrow> (\<forall>w\<in>set ws. \<not> available now w)"
  by (auto simp: healthy_of_def filter_empty_conv all_set_conv_all_nth)

lemma probed_keeps [simp]:
  "map url (probed now ws) = map url ws" "map load (probed now ws) = map load ws"
  "length (probed now ws) = length ws"
  by (simp_all add: probed_def)

lemma map_update_same:
  assumes "f v = f (ws ! i)"
  shows "map f (ws[i := v]) = map f ws"
proof (cases "i < length ws")
  case True
  then have "(map f ws)[i := map f ws ! i] = map f ws" by (intro list_update_id)
  then show ?thesis using True assms by (simp add: map_update)
qed (simp add: not_less list_update_beyond)

lemma count_processed_keeps [simp]:
  "map url (count_processed i ws) = map url ws" "map load (count_processed i ws) = map load ws"
  by (simp_all add: count_processed_def map_update_same)

lemma healthy_of_probed [simp]: "healthy_of now (probed now ws) = healthy_of now ws"
  unfolding healthy_of_def probed_def by (rule filter_cong) auto

lemma available_increment_processed [simp]: "available now (increment_processed w) = available now w"
  by (simp add: available_def is_available_eq worker_op_defs)

section \<open>The policies keep the contract\<close>

lemma pick_ok:
  assumes "healthy_of now ws \<noteq> []" and "i = healthy_of now ws ! (k mod length (healthy_of now ws))"
  shows "i < length ws \<and> is_healthy (ws ! i) \<and> available now (ws ! i)"
  using healthy_of_nth [of "k mod length (healthy_of now ws)" now ws] assms
  by (auto intro: available_healthy)

lemma rr_select_eq:
  "rr_select now st ws =
     (if healthy_of now ws = [] then (None, st, probed now ws)
      else (Some (healthy_of now ws ! (unat (rr_counter st) mod length (healthy_of now ws))),
            st\<lparr>rr_counter := rr_counter st + 1\<rparr>, probed now ws))"
  by (simp add: rr_select_def get_healthy_worker_indices_eq Let_def)

lemma random_select_eq:
  "random_select draw now ws =
     (if healthy_of now ws = [] then (None, (), probed now ws)
      else (Some (healthy_of now ws ! (draw mod length (healthy_of now ws))), (), probed now ws))"
  by (simp add: random_select_def random_range_def get_healthy_worker_indices_eq Let_def)

definition rr_outcomes :: "round_robin selection" where
  "rr_outcomes now st ws body hdrs out \<longleftrightarrow> out = rr_select now st ws"

definition random_outcomes :: "unit selection" where
  "random_outcomes now st ws body hdrs out \<longleftrightarrow> (\<exists>draw. out = random_select draw now ws)"

definition p2_outcomes :: "power_of_two selection" where
  "p2_outcomes now st ws body hdrs out \<longleftrightarrow> (\<exists>draw draws. p2_select draw draws now st ws = Some out)"

interpretation rr: lb_policy rr_outcomes
proof
  fix now st ws body hdrs k st' ws' w r
  show "\<exists>out. rr_outcomes now st ws body hdrs out" by (simp add: rr_outcomes_def)
  show "k < length ws \<and> is_healthy (ws ! k)"
    and "available now (ws ! k)" if "rr_outcomes now st ws body hdrs (Some k, st', ws')"
    using that pick_ok [of now ws k "unat (rr_counter st)"]
    by (auto simp: rr_outcomes_def rr_select_eq split: if_splits)
  show "\<not> available now w" if "rr_outcomes now st ws body hdrs (None, st', ws')" "w \<in> set ws"
    using that by (simp add: rr_outcomes_def rr_select_eq healthy_of_Nil split: if_splits)
  show "map url ws' = map url ws \<and> map load ws' = map load ws"
    if "rr_outcomes now st ws body hdrs (r, st', ws')"
    using that by (simp add: rr_outcomes_def rr_select_eq split: if_splits)
qed

interpretation rnd: lb_policy random_outcomes
proof
  fix now st ws body hdrs k st' ws' w r
  show "\<exists>out. random_outcomes now st ws body hdrs out" unfolding random_outcomes_def by blast
  show "k < length ws \<and> is_healthy (ws ! k)"
    and "available now (ws ! k)" if "random_outcomes now st ws body hdrs (Some k, st', ws')"
    using that pick_ok [of now ws k]
    by (auto simp: random_outcomes_def random_select_eq split: if_splits)
  show "\<not> available now w" if "random_outcomes now st ws body hdrs (None, st', ws')" "w \<in> set ws"
    using that by (auto simp: random_outcomes_def random_select_eq healthy_of_Nil split: if_splits)
  show "map url ws' = map url ws \<and> map load ws' = map load ws"
    if "random_outcomes now st ws body hdrs (r, st', ws')"
    using that by (auto simp: random_outcomes_def random_select_eq split: if_splits)
qed

lemma redraw_Some: "redraw n i draws = Some j \<Longrightarrow> 0 < n \<Longrightarrow> j < n \<and> j \<noteq> i"
  by (induction n i draws rule: redraw.induct) (auto simp: random_range_def Let_def split: if_splits)

lemma p2_select_cases:
  assumes "p2_select draw draws now st ws = Some (r, st', ws')"
  obtains (none) "r = None" "healthy_of now ws = []" "st' = st" "ws' = probed now ws"
  | (one) i where "healthy_of now ws = [i]" "r = Some i" "st' = st" "ws' = probed now ws"
  | (two) a b where "a < length (healthy_of now ws)" "b < length (healthy_of now ws)" "a \<noteq> b"
      "r = Some (healthy_of now ws ! a)" "st' = st"
      "ws' = count_processed (healthy_of now ws ! a) (probed now ws)"
      "get_worker_load st (probed now ws ! (healthy_of now ws ! a))
         \<le> get_worker_load st (probed now ws ! (healthy_of now ws ! b))"
proof -
  let ?h = "healthy_of now ws" and ?ws = "probed now ws"
  consider "?h = []" | i where "?h = [i]" | "length ?h \<ge> 2"
    by (cases ?h rule: remdups_adj.cases) auto
  then show ?thesis
  proof cases
    case 1
    then show ?thesis
      using assms none by (simp add: p2_select_def get_healthy_worker_indices_eq Let_def)
  next
    case (2 i)
    then show ?thesis
      using assms one by (simp add: p2_select_def get_healthy_worker_indices_eq Let_def)
  next
    case 3
    define n where "n = length ?h"
    define a where "a = draw mod n"
    have n: "2 \<le> n" "?h \<noteq> []" using 3 by (auto simp: n_def)
    obtain b where b: "redraw n a draws = Some b"
      using assms n by (cases "redraw n a draws")
        (auto simp: p2_select_def get_healthy_worker_indices_eq Let_def random_range_def n_def a_def)
    have ab: "a < n" "b < n" "a \<noteq> b" using redraw_Some [OF b] n by (auto simp: a_def)
    let ?la = "get_worker_load st (?ws ! (?h ! a))" and ?lb = "get_worker_load st (?ws ! (?h ! b))"
    have out: "(r, st', ws') =
        (let s = (if ?la \<le> ?lb then ?h ! a else ?h ! b) in (Some s, st, count_processed s ?ws))"
      using assms n b
      by (simp add: p2_select_def get_healthy_worker_indices_eq Let_def random_range_def
          n_def [symmetric] a_def [symmetric] del: upt_Suc split: if_splits)
    show ?thesis
    proof (cases "?la \<le> ?lb")
      case True
      then show ?thesis using out ab two [of a b] by (simp add: n_def Let_def)
    next
      case False
      then show ?thesis using out ab two [of b a] by (simp add: n_def Let_def)
    qed
  qed
qed

lemma redraw_progress:
  "(\<exists>r\<in>set draws. random_range r n \<noteq> i) \<Longrightarrow> \<exists>j. redraw n i draws = Some j"
  by (induction n i draws rule: redraw.induct) (auto simp: Let_def)

lemma p2_returns:
  assumes "\<exists>r\<in>set draws. random_range r (length (healthy_of now ws))
      \<noteq> random_range draw (length (healthy_of now ws))"
  shows "\<exists>out. p2_select draw draws now st ws = Some out"
  using redraw_progress [OF assms]
  by (auto simp: p2_select_def get_healthy_worker_indices_eq Let_def)

interpretation p2: lb_policy p2_outcomes
proof
  fix now st ws body hdrs k st' ws' w r
  have pick: "k < length ws \<and> is_healthy (ws ! k) \<and> available now (ws ! k)"
    if "a < length (healthy_of now ws)" "k = healthy_of now ws ! a" for a
    using healthy_of_nth [OF that(1)] that(2) by (auto intro: available_healthy)
  show "\<exists>out. p2_outcomes now st ws body hdrs out"
  proof (cases "length (healthy_of now ws) \<le> 1")
    case True
    then have "\<exists>out. p2_select 0 [] now st ws = Some out"
      by (auto simp: p2_select_def get_healthy_worker_indices_eq Let_def le_Suc_eq)
    then show ?thesis unfolding p2_outcomes_def by blast
  next
    case False
    then have "\<exists>out. p2_select 0 [1] now st ws = Some out"
      by (intro p2_returns) (auto simp: random_range_def)
    then show ?thesis unfolding p2_outcomes_def by blast
  qed
  show "k < length ws \<and> is_healthy (ws ! k)" and "available now (ws ! k)"
    if "p2_outcomes now st ws body hdrs (Some k, st', ws')"
  proof -
    from that obtain draw draws where "p2_select draw draws now st ws = Some (Some k, st', ws')"
      unfolding p2_outcomes_def by blast
    then have "k < length ws \<and> is_healthy (ws ! k) \<and> available now (ws ! k)"
    proof (cases rule: p2_select_cases)
      case (one i)
      then show ?thesis using pick [of 0] by simp
    next
      case (two a b)
      then show ?thesis using pick [of a] by simp
    qed simp
    then show "k < length ws \<and> is_healthy (ws ! k)" "available now (ws ! k)" by auto
  qed
  show "\<not> available now w" if o: "p2_outcomes now st ws body hdrs (None, st', ws')" "w \<in> set ws"
  proof -
    from o(1) obtain draw draws where "p2_select draw draws now st ws = Some (None, st', ws')"
      unfolding p2_outcomes_def by blast
    then show ?thesis using o(2) by (cases rule: p2_select_cases) (auto simp: healthy_of_Nil)
  qed
  show "map url ws' = map url ws \<and> map load ws' = map load ws"
    if "p2_outcomes now st ws body hdrs (r, st', ws')"
  proof -
    from that obtain draw draws where "p2_select draw draws now st ws = Some (r, st', ws')"
      unfolding p2_outcomes_def by blast
    then show ?thesis by (cases rule: p2_select_cases) auto
  qed
qed

section \<open>Properties\<close>

abbreviation demo_workers :: "worker list" where
  "demo_workers \<equiv> [create_regular 0 ''http://a'', create_regular 0 ''http://b'']"

lemma available_create_regular [simp]: "available now (create_regular t u)"
  by (simp add: available_def is_available_eq create_regular_def bw_new_def with_connection_mode_def
      worker_op_defs can_execute_def check_and_update_state_def cb_new_def with_config_def)

lemma healthy_of_demo: "healthy_of now demo_workers = [0, 1]"
  by (simp add: healthy_of_def upt_rec)

text \<open>
  C37: Round robin, random and power-of-two selection find a worker exactly
  when one is available, and the worker they choose is in range, healthy and
  admitted by its circuit breaker; for prefill and decode pools together, a
  pair is found exactly when both pools have an available worker.
\<close>
theorem simple_policies_sound:
  "(rr_outcomes now s1 ws body hdrs (r, s1', ws') \<longrightarrow> sound_choice now ws r)
   \<and> (random_outcomes now () ws body hdrs (r, (), ws') \<longrightarrow> sound_choice now ws r)
   \<and> (p2_outcomes now s2 ws body hdrs (r, s2', ws') \<longrightarrow> sound_choice now ws r)
   \<and> (select_pair rr_outcomes now s1 pws dws body hdrs (q, s1', pws', dws') \<longrightarrow> sound_pair now pws dws q)
   \<and> (select_pair random_outcomes now () pws dws body hdrs (q, (), pws', dws') \<longrightarrow> sound_pair now pws dws q)
   \<and> (select_pair p2_outcomes now s2 pws dws body hdrs (q, s2', pws', dws') \<longrightarrow> sound_pair now pws dws q)"
  by (intro conjI impI)
    (erule rr.choice_sound rnd.choice_sound p2.choice_sound rr.pair_sound rnd.pair_sound p2.pair_sound)+

theorem simple_policies_sound_witness:
  "sound_choice 1 demo_workers (fst (rr_select 1 rr_new demo_workers))"
proof -
  let ?ws = demo_workers
  obtain r st' ws' where r: "rr_select 1 rr_new ?ws = (r, st', ws')" by (metis prod_cases3)
  then have "rr_outcomes 1 rr_new ?ws None None (r, st', ws')" by (simp add: rr_outcomes_def)
  then show ?thesis using simple_policies_sound [of 1 rr_new ?ws None None r st' ws'] r by simp
qed

lemma get_worker_load_probed [simp]: "get_worker_load st (snd (is_available now w)) = get_worker_load st w"
  by (simp add: get_worker_load_def split: option.split)

lemma rr_run_eq:
  assumes "healthy_of now ws \<noteq> []" and "unat (rr_counter st) + n \<le> 2 ^ 64"
  shows "rr_run now n st ws =
     map (\<lambda>k. Some (healthy_of now ws ! ((unat (rr_counter st) + k) mod length (healthy_of now ws)))) [0..<n]"
  using assms
proof (induction n arbitrary: st ws)
  case 0
  then show ?case by simp
next
  case (Suc n)
  let ?h = "healthy_of now ws" and ?c = "unat (rr_counter st)"
  let ?st = "st\<lparr>rr_counter := rr_counter st + 1\<rparr>"
  have step: "rr_run now (Suc n) st ws =
      Some (?h ! (?c mod length ?h)) # rr_run now n ?st (probed now ws)"
    using Suc.prems(1) by (simp add: rr_select_eq)
  show ?case
  proof (cases n)
    case 0
    then show ?thesis using step by simp
  next
    case (Suc m)
    then have c: "unat (rr_counter ?st) = Suc ?c"
      using Suc.prems(2) by (simp add: unat_Suc_word)
    have "rr_run now n ?st (probed now ws) =
        map (\<lambda>k. Some (?h ! ((?c + Suc k) mod length ?h))) [0..<n]"
      using Suc.IH [of "probed now ws" ?st] Suc.prems c by simp
    then show ?thesis
      using step by (simp add: upt_conv_Cons map_Suc_upt [symmetric] comp_def del: upt_Suc)
  qed
qed

lemma mod_window_bij:
  assumes "0 < (n::nat)"
  shows "distinct (map (\<lambda>k. (c + k) mod n) [0..<n])" "set (map (\<lambda>k. (c + k) mod n) [0..<n]) = {..<n}"
proof -
  have inj: "inj_on (\<lambda>k. (c + k) mod n) {..<n}"
  proof (rule inj_onI)
    have *: "x = y" if "x \<le> y" "y < n" "(c + y) mod n = (c + x) mod n" for x y
    proof -
      have "n dvd (c + y) - (c + x)" using that by (subst mod_eq_dvd_iff_nat [symmetric]) auto
      then have "n dvd y - x" by simp
      then show ?thesis using that by (auto dest: dvd_imp_le)
    qed
    fix x y assume "x \<in> {..<n}" "y \<in> {..<n}" "(c + x) mod n = (c + y) mod n"
    then show "x = y" using * [of x y] * [of y x] by (cases "x \<le> y") auto
  qed
  then show "distinct (map (\<lambda>k. (c + k) mod n) [0..<n])"
    by (simp add: distinct_map lessThan_atLeast0)
  have "(\<lambda>k. (c + k) mod n) ` {..<n} = {..<n}"
    using inj assms by (intro card_subset_eq) (auto simp: card_image)
  then show "set (map (\<lambda>k. (c + k) mod n) [0..<n]) = {..<n}"
    by (simp add: lessThan_atLeast0)
qed

text \<open>
  Round robin is fair.  As long as the set of available workers does not
  change and the counter does not wrap, as many consecutive selections as
  there are available workers choose each of them exactly once.
\<close>
theorem round_robin_fair:
  assumes "healthy_of now ws \<noteq> []" and "unat (rr_counter st) + length (healthy_of now ws) \<le> 2 ^ 64"
  shows "distinct (rr_run now (length (healthy_of now ws)) st ws)
       \<and> set (rr_run now (length (healthy_of now ws)) st ws) = Some ` set (healthy_of now ws)"
proof -
  let ?h = "healthy_of now ws" and ?c = "unat (rr_counter st)"
  let ?m = "map (\<lambda>k. (?c + k) mod length ?h) [0..<length ?h]"
  have run: "rr_run now (length ?h) st ws = map (\<lambda>j. Some (?h ! j)) ?m"
    using rr_run_eq [OF assms] by (simp add: comp_def)
  have m: "distinct ?m" "set ?m = {..<length ?h}"
    using mod_window_bij [of "length ?h" ?c] assms(1) by simp_all
  have "distinct ?h" by (simp add: healthy_of_def)
  then have "inj_on (\<lambda>j. Some (?h ! j)) {..<length ?h}"
    by (auto simp: inj_on_def nth_eq_iff_index_eq)
  moreover have "(\<lambda>j. Some (?h ! j)) ` {..<length ?h} = Some ` set ?h"
    by (auto simp: in_set_conv_nth image_iff)
  ultimately show ?thesis
    unfolding run using m
    by (simp only: distinct_map [of "\<lambda>j. Some (?h ! j)" ?m] set_map [of "\<lambda>j. Some (?h ! j)" ?m])
qed

theorem round_robin_fair_witness:
  "set (rr_run 1 (Suc (Suc 0)) rr_new demo_workers) = {Some 0, Some 1}"
proof -
  have "length (healthy_of 1 demo_workers) = 2" "unat (rr_counter rr_new) = 0"
    by (simp_all add: healthy_of_demo rr_new_def)
  then show ?thesis
    using round_robin_fair [of 1 demo_workers rr_new] by (simp add: healthy_of_demo del: rr_run.simps)
qed

text \<open>
  The power of two choices never picks the unique most loaded worker: with
  at least two available workers, some other available worker has at least the
  load of the chosen one.
\<close>
theorem power_of_two_avoids_heaviest:
  assumes "p2_select draw draws now st ws = Some (Some i, st', ws')" and "2 \<le> length (healthy_of now ws)"
  shows "\<exists>j\<in>set (healthy_of now ws). j \<noteq> i \<and>
           get_worker_load st (ws ! i) \<le> get_worker_load st (ws ! j)"
  using assms(1)
proof (cases rule: p2_select_cases)
  case (two a b)
  let ?h = "healthy_of now ws"
  have "?h ! b \<noteq> i" using two by (simp add: healthy_of_def nth_eq_iff_index_eq)
  moreover have "?h ! a < length ws" "?h ! b < length ws" using two healthy_of_nth by blast+
  ultimately show ?thesis
    using two by (intro bexI [of _ "?h ! b"]) (auto simp: probed_def)
qed (use assms(2) in auto)

theorem power_of_two_avoids_heaviest_witness:
  "\<exists>j\<in>{0, 1}. j \<noteq> 1 \<and>
     get_worker_load (p2_new\<lparr>cached_loads := [''http://a'' \<mapsto> 7]\<rparr>) (demo_workers ! 1)
       \<le> get_worker_load (p2_new\<lparr>cached_loads := [''http://a'' \<mapsto> 7]\<rparr>) (demo_workers ! j)"
proof -
  let ?st = "p2_new\<lparr>cached_loads := [''http://a'' \<mapsto> 7]\<rparr>"
  have "p2_select 0 [1] 1 ?st demo_workers = Some (Some 1, ?st, count_processed 1 (probed 1 demo_workers))"
    by (simp add: p2_select_def get_healthy_worker_indices_eq healthy_of_demo Let_def random_range_def
        probed_def get_worker_load_def)
      (simp add: create_regular_def bw_new_def with_connection_mode_def worker_op_defs p2_new_def)
  from power_of_two_avoids_heaviest [OF this] show ?thesis by (simp add: healthy_of_demo)
qed

end
