(* ===== verification/Fbi_Hash.thy ===== *)
theory Fbi_Hash
  imports Rust_Str
begin

unbundle bit_operations_syntax

text \<open>
  The hash functions of \<^verbatim>\<open>policies/consistent_hash.rs\<close>: MurmurHash64A, its
  specialisation to one word, the furc bit generator with its cache, furc hash
  and the 64-bit hash built from them.  Words keep their width, so that
  multiplication wraps as \<^verbatim>\<open>wrapping_mul\<close> does.  The furc depth and number stay below
  the width of \<^verbatim>\<open>u32\<close> (the number has at most as many bits as the depth, which is at
  most 31 for a modulus up to \<open>2 ^ 31\<close>), and are natural numbers.

  The cache of the bit generator is modelled as the code keeps it; the reference
  functions \<open>furc_bit\<close> and \<open>furc_hash_ref\<close> have none, and the equivalence of the two
  is proved.
\<close>

section \<open>MurmurHash64A\<close>

definition murmur_M :: u64 where "murmur_M = 0xc6a4a7935bd1e995"

definition furc_seed :: u32 where "furc_seed = 4193360111"

fun from_le_bytes :: "u8 list \<Rightarrow> u64" where
  "from_le_bytes [] = 0"
| "from_le_bytes (b # bs) = ucast b OR push_bit 8 (from_le_bytes bs)"

definition to_le_bytes :: "nat \<Rightarrow> u8 list" where
  "to_le_bytes n = map (\<lambda>i. word_of_nat (n div 256 ^ i)) [0..<4]"

definition str_bytes :: "str \<Rightarrow> u8 list" where
  "str_bytes s = map (\<lambda>c. word_of_nat (of_char c)) s"

definition murmur_mix :: "u64 \<Rightarrow> u64" where
  "murmur_mix k =
     (let k1 = k * murmur_M; k2 = k1 XOR drop_bit 47 k1 in k2 * murmur_M)"

definition murmur_finish :: "u64 \<Rightarrow> u64" where
  "murmur_finish h =
     (let h1 = h XOR drop_bit 47 h; h2 = h1 * murmur_M in h2 XOR drop_bit 47 h2)"

function murmur_chunks :: "u64 \<Rightarrow> u8 list \<Rightarrow> u64 \<times> u8 list" where
  "murmur_chunks h bs =
     (if length bs < 8 then (h, bs)
      else let k = murmur_mix (from_le_bytes (take 8 bs))
           in murmur_chunks ((h XOR k) * murmur_M) (drop 8 bs))"
  by pat_completeness auto
termination by (relation "measure (\<lambda>(h, bs). length bs)") auto

declare murmur_chunks.simps [simp del]

definition murmur_tail :: "u64 \<Rightarrow> u8 list \<Rightarrow> u64" where
  "murmur_tail h remainder =
     (if remainder = [] then h
      else fold (\<lambda>(i, b) h. h XOR push_bit (8 * i) (ucast b)) (rev (enumerate 0 remainder)) h * murmur_M)"

definition murmur_hash_64a :: "u8 list \<Rightarrow> u32 \<Rightarrow> u64" where
  "murmur_hash_64a key seed =
     (let h = ucast seed XOR (word_of_nat (length key) * murmur_M);
          (h1, remainder) = murmur_chunks h key
      in murmur_finish (murmur_tail h1 remainder))"

definition murmur_rehash_64a :: "u64 \<Rightarrow> u64" where
  "murmur_rehash_64a k =
     (let h = 4193360111 XOR (8 * murmur_M);
          h1 = (h XOR murmur_mix k) * murmur_M
      in murmur_finish h1)"

section \<open>Furc hash\<close>

record furc_cache =
  hash_cache :: "u64 list"
  old_ord :: int

definition furc_shift :: nat where "furc_shift = 23"
definition max_tries :: nat where "max_tries = 32"

definition furc_store :: "u8 list \<Rightarrow> nat \<Rightarrow> u64 list \<Rightarrow> u64 list" where
  "furc_store key n cache =
     (let hash_value = (if n = 0 then murmur_hash_64a key furc_seed
                        else murmur_rehash_64a (cache ! (n - 1)));
          cache1 = (if length cache \<le> n then cache @ replicate (n + 1 - length cache) 0 else cache)
      in cache1[n := hash_value])"

definition furc_get_bit :: "u8 list \<Rightarrow> nat \<Rightarrow> furc_cache \<Rightarrow> bool \<times> furc_cache" where
  "furc_get_bit key idx st =
     (let ord = idx div 64;
          st1 = (if old_ord st < int ord
                 then st\<lparr>hash_cache := fold (furc_store key) [nat (old_ord st + 1)..<ord + 1] (hash_cache st),
                         old_ord := int ord\<rparr>
                 else st);
          hash_val = hash_cache st1 ! ord
      in (drop_bit (idx mod 64) hash_val AND 1 \<noteq> 0, st1))"

function furc_depth :: "nat \<Rightarrow> nat \<Rightarrow> nat" where
  "furc_depth m d = (if 2 ^ d < m then furc_depth m (d + 1) else d)"
  by pat_completeness auto
termination
  by (relation "measure (\<lambda>(m, d). m - d)") (auto intro: diff_less_mono2 less_trans [OF less_exp])

declare furc_depth.simps [simp del]

fun furc_descend :: "u8 list \<Rightarrow> nat \<Rightarrow> nat \<Rightarrow> furc_cache \<Rightarrow> (nat \<times> nat) option \<times> furc_cache" where
  "furc_descend key d a st =
     (let (b, st1) = furc_get_bit key a st in
      if b then (Some (d, a), st1)
      else if d = 0 then (None, st1)
      else furc_descend key (d - 1) (d - 1) st1)"

declare furc_descend.simps [simp del]

fun furc_number :: "u8 list \<Rightarrow> nat \<Rightarrow> nat \<Rightarrow> nat \<Rightarrow> furc_cache \<Rightarrow> nat \<times> nat \<times> furc_cache" where
  "furc_number key 0 a num st = (num, a, st)"
| "furc_number key (Suc k) a num st =
     (let (b, st1) = furc_get_bit key a st
      in furc_number key k (a + furc_shift) (2 * num + (if b then 1 else 0)) st1)"

fun furc_tries :: "u8 list \<Rightarrow> nat \<Rightarrow> nat \<Rightarrow> nat \<Rightarrow> nat \<Rightarrow> furc_cache \<Rightarrow> nat" where
  "furc_tries key m 0 d a st = 0"
| "furc_tries key m (Suc t) d a st =
     (case furc_descend key d a st of
        (None, st1) \<Rightarrow> 0
      | (Some (d1, a1), st1) \<Rightarrow>
          let (num, a2, st2) = furc_number key (d1 - 1) (a1 + furc_shift) 1 st1
          in if num < m then num else furc_tries key m t d1 a2 st2)"

definition furc_hash :: "str \<Rightarrow> nat \<Rightarrow> nat" where
  "furc_hash key m =
     (if m \<le> 1 then 0
      else let d = furc_depth m 0
           in furc_tries (str_bytes key) m max_tries d d \<lparr>hash_cache = [], old_ord = -1\<rparr>)"

definition large_modulus :: nat where "large_modulus = 2 ^ 23 - 1"

definition fbi_hash :: "str \<Rightarrow> u64" where
  "fbi_hash key = murmur_hash_64a (to_le_bytes (furc_hash key large_modulus)) furc_seed"

section \<open>Reference without the cache\<close>

definition furc_word :: "u8 list \<Rightarrow> nat \<Rightarrow> u64" where
  "furc_word key n = (murmur_rehash_64a ^^ n) (murmur_hash_64a key furc_seed)"

definition furc_bit :: "u8 list \<Rightarrow> nat \<Rightarrow> bool" where
  "furc_bit key idx = bit (furc_word key (idx div 64)) (idx mod 64)"

fun descend_ref :: "u8 list \<Rightarrow> nat \<Rightarrow> nat \<Rightarrow> (nat \<times> nat) option" where
  "descend_ref key d a =
     (if furc_bit key a then Some (d, a)
      else if d = 0 then None
      else descend_ref key (d - 1) (d - 1))"

declare descend_ref.simps [simp del]

fun number_ref :: "u8 list \<Rightarrow> nat \<Rightarrow> nat \<Rightarrow> nat \<Rightarrow> nat \<times> nat" where
  "number_ref key 0 a num = (num, a)"
| "number_ref key (Suc k) a num =
     number_ref key k (a + furc_shift) (2 * num + (if furc_bit key a then 1 else 0))"

fun tries_ref :: "u8 list \<Rightarrow> nat \<Rightarrow> nat \<Rightarrow> nat \<Rightarrow> nat \<Rightarrow> nat" where
  "tries_ref key m 0 d a = 0"
| "tries_ref key m (Suc t) d a =
     (case descend_ref key d a of
        None \<Rightarrow> 0
      | Some (d1, a1) \<Rightarrow>
          let (num, a2) = number_ref key (d1 - 1) (a1 + furc_shift) 1
          in if num < m then num else tries_ref key m t d1 a2)"

definition furc_hash_ref :: "str \<Rightarrow> nat \<Rightarrow> nat" where
  "furc_hash_ref key m =
     (if m \<le> 1 then 0
      else let d = furc_depth m 0 in tries_ref (str_bytes key) m max_tries d d)"

section \<open>The cache\<close>

definition cache_ok :: "u8 list \<Rightarrow> furc_cache \<Rightarrow> bool" where
  "cache_ok key st \<longleftrightarrow>
     -1 \<le> old_ord st \<and> hash_cache st = map (furc_word key) [0..<nat (old_ord st + 1)]"

lemma furc_store_step:
  "furc_store key n (map (furc_word key) [0..<n]) = map (furc_word key) [0..<Suc n]"
proof -
  have "(map (furc_word key) [0..<n] @ [0])[n := furc_word key n] = map (furc_word key) [0..<Suc n]"
    by (simp add: list_update_append)
  moreover have "furc_word key n =
      (if n = 0 then murmur_hash_64a key furc_seed
       else murmur_rehash_64a (map (furc_word key) [0..<n] ! (n - 1)))"
    by (cases n) (simp_all add: furc_word_def nth_append)
  ultimately show ?thesis by (simp add: furc_store_def Let_def del: upt_Suc)
qed

lemma furc_store_range:
  "n \<le> k \<Longrightarrow> fold (furc_store key) [n..<k] (map (furc_word key) [0..<n]) = map (furc_word key) [0..<k]"
  by (induction k) (auto simp: le_Suc_eq furc_store_step simp del: upt_Suc simp: upt_Suc_append)

lemma furc_get_bit_ok:
  assumes "cache_ok key st"
  shows "fst (furc_get_bit key idx st) = furc_bit key idx \<and> cache_ok key (snd (furc_get_bit key idx st))"
proof -
  let ?ord = "idx div 64"
  define st1 where "st1 = snd (furc_get_bit key idx st)"
  have st1: "st1 = (if old_ord st < int ?ord
      then st\<lparr>hash_cache := fold (furc_store key) [nat (old_ord st + 1)..<?ord + 1] (hash_cache st),
              old_ord := int ?ord\<rparr> else st)"
    by (simp add: st1_def furc_get_bit_def Let_def)
  have ok: "cache_ok key st1" and le: "int ?ord \<le> old_ord st1"
    using assms furc_store_range [of "nat (old_ord st + 1)" "?ord + 1" key]
    by (auto simp: st1 cache_ok_def nat_add_distrib)
  have "hash_cache st1 ! ?ord = furc_word key ?ord"
    using ok le by (simp add: cache_ok_def nth_append)
  moreover have "fst (furc_get_bit key idx st) = (drop_bit (idx mod 64) (hash_cache st1 ! ?ord) AND 1 \<noteq> 0)"
    by (simp add: st1_def furc_get_bit_def Let_def)
  ultimately show ?thesis
    using ok by (simp add: st1_def furc_bit_def bit_iff_odd_drop_bit and_one_eq odd_iff_mod_2_eq_one)
qed

lemma furc_get_bit_eq:
  assumes "cache_ok key st"
  obtains st' where "furc_get_bit key idx st = (furc_bit key idx, st')" "cache_ok key st'"
  using furc_get_bit_ok [OF assms, of idx] that [of "snd (furc_get_bit key idx st)"]
  by (simp add: prod_eq_iff)

lemma furc_descend_eq:
  "cache_ok key st \<Longrightarrow> \<exists>st'. furc_descend key d a st = (descend_ref key d a, st') \<and> cache_ok key st'"
proof (induction d arbitrary: a st)
  case 0
  obtain st' where "furc_get_bit key a st = (furc_bit key a, st')" "cache_ok key st'"
    using furc_get_bit_eq [OF 0] by blast
  then show ?case by (subst furc_descend.simps, subst descend_ref.simps) simp
next
  case (Suc d)
  obtain st' where st': "furc_get_bit key a st = (furc_bit key a, st')" "cache_ok key st'"
    using furc_get_bit_eq [OF Suc.prems] by blast
  with Suc.IH [OF st'(2), of d] show ?case
    by (subst furc_descend.simps, subst descend_ref.simps) simp
qed

lemma furc_number_eq:
  "cache_ok key st \<Longrightarrow>
     \<exists>st'. furc_number key k a num st = (fst (number_ref key k a num), snd (number_ref key k a num), st')
         \<and> cache_ok key st'"
proof (induction k arbitrary: a num st)
  case (Suc k)
  obtain st' where "furc_get_bit key a st = (furc_bit key a, st')" "cache_ok key st'"
    using furc_get_bit_eq [OF Suc.prems] by blast
  with Suc.IH [OF this(2)] show ?case by simp
qed simp

lemma furc_tries_eq:
  "cache_ok key st \<Longrightarrow> furc_tries key m t d a st = tries_ref key m t d a"
proof (induction t arbitrary: d a st)
  case (Suc t)
  obtain st1 where d: "furc_descend key d a st = (descend_ref key d a, st1)" "cache_ok key st1"
    using furc_descend_eq [OF Suc.prems] by blast
  show ?case
  proof (cases "descend_ref key d a")
    case None
    then show ?thesis using d by simp
  next
    case (Some da)
    obtain d1 a1 where da: "da = (d1, a1)" by force
    obtain num a2 where n: "number_ref key (d1 - 1) (a1 + furc_shift) 1 = (num, a2)" by force
    obtain st2 where "furc_number key (d1 - 1) (a1 + furc_shift) 1 st1 = (num, a2, st2)" "cache_ok key st2"
      using furc_number_eq [OF d(2), of "d1 - 1" "a1 + furc_shift" 1] n by auto
    then show ?thesis using Some da d(1) n Suc.IH by simp
  qed
qed simp

text \<open>
  C36: The cached bit generator is transparent: furc hash computes the same value
  as the reference that recomputes the chain of rehashed words for every bit.
\<close>
theorem furc_hash_cache_transparent: "furc_hash key m = furc_hash_ref key m"
  using furc_tries_eq [of "str_bytes key" "\<lparr>hash_cache = [], old_ord = -1\<rparr>"]
  by (simp add: furc_hash_def furc_hash_ref_def cache_ok_def Let_def)

lemma furc_tries_bound: "1 < m \<Longrightarrow> furc_tries key m t d a st < m"
  by (induction t arbitrary: d a st) (auto simp: Let_def split: option.split prod.split)

text \<open>
  Furc hash terminates with a value below the modulus, so the 64-bit hash
  that places workers and sessions on the ring takes at most \<open>2 ^ 23 - 1\<close>
  distinct values, although it is a 64-bit word.
\<close>
theorem furc_hash_range:
  "furc_hash key (Suc m) < Suc m \<and> card (range fbi_hash) \<le> 2 ^ 23 - 1"
proof
  have bound: "furc_hash key (Suc m) < Suc m" for key m
    using furc_tries_bound [of "Suc m"] by (cases m) (simp_all add: furc_hash_def Let_def)
  then show "furc_hash key (Suc m) < Suc m" by blast
  have "range fbi_hash \<subseteq> (\<lambda>n. murmur_hash_64a (to_le_bytes n) furc_seed) ` {..<large_modulus}"
    using bound [of _ "large_modulus - 1"] by (auto simp: fbi_hash_def large_modulus_def)
  then have "card (range fbi_hash) \<le> card {..<large_modulus}" by (rule surj_card_le [rotated]) simp
  then show "card (range fbi_hash) \<le> 2 ^ 23 - 1" by (simp add: large_modulus_def)
qed

end
