(* ===== verification/Hash_Key.thy ===== *)
theory Hash_Key
  imports Fbi_Hash
begin

text \<open>
  Extraction of the routing key from headers and body, \<^verbatim>\<open>policies/hash_key.rs\<close>.
  Text is its UTF-8 bytes.  The code walks it character by character only to skip
  white space, so \<open>ws_prefix\<close> gives the number of bytes of a leading character with
  the Unicode property that \<^verbatim>\<open>char::is_whitespace\<close> tests; every other character the
  code looks for is a single byte.
\<close>

section \<open>White space and delimiters\<close>

definition ws_prefix :: "str \<Rightarrow> nat" where
  "ws_prefix s =
     (case map (of_char :: char \<Rightarrow> nat) (take 3 s) of
        [] \<Rightarrow> 0
      | a # r \<Rightarrow>
          if a \<in> {9, 10, 11, 12, 13, 32} then 1
          else (case r of
                  [] \<Rightarrow> 0
                | b # r2 \<Rightarrow>
                    if a = 0xC2 \<and> b \<in> {0x85, 0xA0} then 2
                    else (case r2 of
                            [] \<Rightarrow> 0
                          | c # _ \<Rightarrow>
                              if (a = 0xE1 \<and> b = 0x9A \<and> c = 0x80)
                                 \<or> (a = 0xE2 \<and> b = 0x80 \<and> (0x80 \<le> c \<and> c \<le> 0x8A \<or> c \<in> {0xA8, 0xA9, 0xAF}))
                                 \<or> (a = 0xE2 \<and> b = 0x81 \<and> c = 0x9F)
                                 \<or> (a = 0xE3 \<and> b = 0x80 \<and> c = 0x80)
                              then 3 else 0)))"

lemma ws_prefix_le: "ws_prefix s \<le> length s"
  unfolding ws_prefix_def
  by (cases s rule: list.exhaust; cases "tl s" rule: list.exhaust; cases "tl (tl s)" rule: list.exhaust)
    (auto split: if_splits)

function colon_after :: "str \<Rightarrow> nat option" where
  "colon_after s =
     (if s = [] then None
      else if hd s = CHR '':'' then Some 0
      else if ws_prefix s = 0 then None
      else map_option (\<lambda>i. ws_prefix s + i) (colon_after (drop (ws_prefix s) s)))"
  by pat_completeness auto
termination by (relation "measure length") auto

function trim_start :: "str \<Rightarrow> str" where
  "trim_start s = (if ws_prefix s = 0 \<or> s = [] then s else trim_start (drop (ws_prefix s) s))"
  by pat_completeness auto
termination by (relation "measure length") auto

declare colon_after.simps [simp del] trim_start.simps [simp del]

fun find_any :: "char list \<Rightarrow> str \<Rightarrow> nat option" where
  "find_any ds [] = None"
| "find_any ds (c # cs) = (if c \<in> set ds then Some 0 else map_option Suc (find_any ds cs))"

section \<open>Fields of a JSON-like body\<close>

definition dquote :: str where "dquote = ''\"''"
definition squote :: str where "squote = [CHR 0x27]"

definition value_delimiters :: "char list" where
  "value_delimiters =
     [CHR '','', CHR '' '', CHR ''}'', CHR '']'', CHR 0x0A, CHR 0x0D, CHR 0x09]"

definition quoted_value :: "str \<Rightarrow> str \<Rightarrow> str option" where
  "quoted_value q trimmed =
     (case strip_prefix q trimmed of
        None \<Rightarrow> None
      | Some stripped \<Rightarrow>
          (case str_find q stripped of
             Some end_quote \<Rightarrow> Some (take end_quote stripped)
           | None \<Rightarrow> None))"

definition field_value_at :: "str \<Rightarrow> str \<Rightarrow> str option" where
  "field_value_at text pat =
     (case str_find pat text of
        None \<Rightarrow> None
      | Some field_pos \<Rightarrow>
          (let after_field = drop (field_pos + length pat) text in
           case colon_after after_field of
             None \<Rightarrow> None
           | Some colon_idx \<Rightarrow>
               (let trimmed = trim_start (drop (colon_idx + 1) after_field) in
                if starts_with dquote trimmed then quoted_value dquote trimmed
                else if starts_with squote trimmed then quoted_value squote trimmed
                else
                  let end_pos = (case find_any value_delimiters trimmed of
                                   Some e \<Rightarrow> e | None \<Rightarrow> length trimmed)
                  in if 0 < end_pos then Some (take end_pos trimmed) else None)))"

fun first_some :: "('a \<Rightarrow> 'b option) \<Rightarrow> 'a list \<Rightarrow> 'b option" where
  "first_some f [] = None"
| "first_some f (x # xs) = (case f x of Some y \<Rightarrow> Some y | None \<Rightarrow> first_some f xs)"

definition extract_field_value :: "str \<Rightarrow> str \<Rightarrow> str option" where
  "extract_field_value text field_name =
     first_some (field_value_at text)
       [dquote @ field_name @ dquote, squote @ field_name @ squote, field_name]"

definition field_start_at :: "str \<Rightarrow> str \<Rightarrow> nat option" where
  "field_start_at text pat =
     (case str_find pat text of
        None \<Rightarrow> None
      | Some field_pos \<Rightarrow>
          map_option (\<lambda>i. field_pos + length pat + i + 1)
            (colon_after (drop (field_pos + length pat) text)))"

definition find_field_start :: "str \<Rightarrow> str \<Rightarrow> nat option" where
  "find_field_start text field_name =
     first_some (field_start_at text) [dquote @ field_name @ dquote, squote @ field_name @ squote]"

fun brace_end :: "nat \<Rightarrow> nat \<Rightarrow> str \<Rightarrow> nat option" where
  "brace_end brace_count i [] = None"
| "brace_end brace_count i (c # cs) =
     (if c = CHR ''{'' then brace_end (brace_count + 1) (i + 1) cs
      else if c = CHR ''}'' then
        (if brace_count - 1 = 0 then Some (i + 1) else brace_end (brace_count - 1) (i + 1) cs)
      else brace_end brace_count (i + 1) cs)"

definition extract_json_object :: "str \<Rightarrow> str option" where
  "extract_json_object text =
     (if \<not> starts_with ''{'' text then None
      else map_option (\<lambda>end_pos. take end_pos text) (brace_end 0 0 text))"

definition extract_nested_field_value :: "str \<Rightarrow> str \<Rightarrow> str \<Rightarrow> str option" where
  "extract_nested_field_value text parent_field child_field =
     (case find_field_start text parent_field of
        None \<Rightarrow> None
      | Some parent_start \<Rightarrow>
          (case str_find ''{'' (drop parent_start text) of
             None \<Rightarrow> None
           | Some obj_start \<Rightarrow>
               (case extract_json_object (drop (parent_start + obj_start) text) of
                  None \<Rightarrow> None
                | Some obj_content \<Rightarrow> extract_field_value obj_content child_field)))"

section \<open>The key\<close>

definition session_header_names :: "str list" where
  "session_header_names =
     [''x-session-id'', ''x-user-id'', ''x-tenant-id'', ''x-correlation-id'', ''x-request-id'', ''x-trace-id'']"

definition header_key :: "str \<Rightarrow> str \<Rightarrow> str" where
  "header_key name val = ''header:'' @ name @ '':'' @ val"

definition extract_hash_key_from_headers :: "(str \<rightharpoonup> str) \<Rightarrow> str option" where
  "extract_hash_key_from_headers headers =
     first_some (\<lambda>header_name.
       case headers header_name of
         Some val \<Rightarrow> if val \<noteq> [] then Some (header_key header_name val) else None
       | None \<Rightarrow> None) session_header_names"

definition extract_hash_key_from_body :: "str option \<Rightarrow> str option" where
  "extract_hash_key_from_body request_text =
     (let text = (case request_text of Some t \<Rightarrow> t | None \<Rightarrow> []) in
      if text = [] then None
      else case extract_nested_field_value text ''session_params'' ''session_id'' of
             Some session_id \<Rightarrow> Some (''session:'' @ session_id)
           | None \<Rightarrow>
      (case extract_field_value text ''user'' of
             Some user \<Rightarrow> Some (''user:'' @ user)
           | None \<Rightarrow>
      (case extract_field_value text ''session_id'' of
             Some session_id \<Rightarrow> Some (''session:'' @ session_id)
           | None \<Rightarrow>
      (case extract_field_value text ''user_id'' of
             Some user_id \<Rightarrow> Some (''user:'' @ user_id)
           | None \<Rightarrow> None))))"

definition hex_digit :: "nat \<Rightarrow> char" where
  "hex_digit d = (if d < 10 then char_of (48 + d) else char_of (87 + d))"

definition hex16 :: "u64 \<Rightarrow> str" where
  "hex16 w = map (\<lambda>i. hex_digit (unat w div 16 ^ (15 - i) mod 16)) [0..<16]"

definition extract_hash_key :: "str option \<Rightarrow> (str \<rightharpoonup> str) option \<Rightarrow> str" where
  "extract_hash_key request_text headers =
     (case Option.bind headers extract_hash_key_from_headers of
        Some key \<Rightarrow> key
      | None \<Rightarrow>
          (case extract_hash_key_from_body request_text of
             Some key \<Rightarrow> key
           | None \<Rightarrow>
               (let text = (case request_text of Some t \<Rightarrow> t | None \<Rightarrow> []) in
                if 100 < length text then ''request_hash:'' @ hex16 (fbi_hash text)
                else ''request:'' @ text)))"

section \<open>Facts\<close>

lemma first_some_SomeD: "first_some f xs = Some y \<Longrightarrow> \<exists>x\<in>set xs. f x = Some y"
  by (induction xs) (auto split: option.splits)

lemma body_key_head:
  assumes "extract_hash_key_from_body t = Some k"
  shows "\<exists>r. k = ''session:'' @ r \<or> k = ''user:'' @ r"
  using assms unfolding extract_hash_key_from_body_def Let_def
  by (auto split: if_splits option.splits)

lemma header_key_sources:
  "extract_hash_key_from_headers h = Some k \<Longrightarrow>
     \<exists>n\<in>set session_header_names. \<exists>v. h n = Some v \<and> v \<noteq> [] \<and> k = header_key n v"
  unfolding extract_hash_key_from_headers_def
  by (drule first_some_SomeD) (auto split: option.splits if_splits)

lemma session_header_no_colon: "n \<in> set session_header_names \<Longrightarrow> CHR '':'' \<notin> set n"
  by (auto simp: session_header_names_def)

lemma header_key_inject:
  assumes "n \<in> set session_header_names" "n' \<in> set session_header_names" "header_key n v = header_key n' v'"
  shows "n = n' \<and> v = v'"
proof -
  have "n @ CHR '':'' # v = n' @ CHR '':'' # v'" using assms(3) by (simp add: header_key_def)
  then have "split_once CHR '':'' (n @ CHR '':'' # v) = split_once CHR '':'' (n' @ CHR '':'' # v')" by simp
  then show ?thesis using assms(1,2) by (simp add: split_once_app session_header_no_colon)
qed

lemma non_header_key_head:
  assumes "Option.bind h extract_hash_key_from_headers = None"
  shows "extract_hash_key t h \<noteq> header_key n v"
proof (cases "extract_hash_key_from_body t")
  case None
  then show ?thesis using assms by (auto simp: extract_hash_key_def header_key_def Let_def)
next
  case (Some k)
  then show ?thesis using assms body_key_head [OF Some] by (auto simp: extract_hash_key_def header_key_def)
qed

text \<open>
  Session headers decide the key alone and without confusion.  If a request
  carries one, a request gets the same key only if it carries a session header
  too, and then both keys come from the same header with the same value; the
  body plays no part.
\<close>
theorem header_key_no_confusion:
  assumes "extract_hash_key_from_headers h = Some k"
    and "extract_hash_key t' h' = extract_hash_key t (Some h)"
  shows "\<exists>g n v. h' = Some g \<and> n \<in> set session_header_names \<and> h n = Some v \<and> g n = Some v
           \<and> extract_hash_key t' h' = header_key n v"
proof -
  obtain n v where n: "n \<in> set session_header_names" "h n = Some v" "k = header_key n v"
    using header_key_sources [OF assms(1)] by blast
  have k: "extract_hash_key t (Some h) = header_key n v"
    using assms(1) n(3) by (simp add: extract_hash_key_def)
  then have "Option.bind h' extract_hash_key_from_headers \<noteq> None"
    using assms(2) non_header_key_head [of h' t' n v] by metis
  then obtain g k' where g: "h' = Some g" "extract_hash_key_from_headers g = Some k'"
    by (cases h') auto
  obtain n' v' where n': "n' \<in> set session_header_names" "g n' = Some v'" "k' = header_key n' v'"
    using header_key_sources [OF g(2)] by blast
  have "header_key n' v' = header_key n v"
    using assms(2) k g n'(3) by (simp add: extract_hash_key_def)
  then have "n' = n" "v' = v" using header_key_inject [OF n'(1) n(1)] by auto
  then show ?thesis using g(1) n n' assms(2) k by auto
qed

theorem header_key_no_confusion_witness:
  "\<exists>g n v. Some [''x-session-id'' \<mapsto> ''s1''] = Some g \<and> n \<in> set session_header_names
      \<and> [''x-session-id'' \<mapsto> ''s1''] n = Some v \<and> g n = Some v
      \<and> extract_hash_key (Some ''b'') (Some [''x-session-id'' \<mapsto> ''s1'']) = header_key n v"
  by (rule header_key_no_confusion [where t = "Some ''a''" and k = "header_key ''x-session-id'' ''s1''"])
    (simp_all add: extract_hash_key_from_headers_def session_header_names_def extract_hash_key_def)

lemma quoted_value_app: "q \<notin> set v \<Longrightarrow> quoted_value [q] (q # v @ q # rest) = Some v"
proof -
  assume "q \<notin> set v"
  then have "str_find [q] (v @ q # rest) = Some (length v)"
    by (induction v) (auto simp: starts_with_def)
  then show ?thesis by (simp add: quoted_value_def strip_prefix_def starts_with_def)
qed

lemma ws_prefix_quote [simp]: "ws_prefix (CHR 0x22 # s) = 0"
  by (auto simp: ws_prefix_def split: list.split)

lemma ws_prefix_space [simp]: "ws_prefix (CHR '' '' # s) = 1"
  by (simp add: ws_prefix_def)

lemma trim_start_spaces: "trim_start (replicate n CHR '' '' @ dquote @ s) = dquote @ s"
proof (induction n)
  case 0
  show ?case by (subst trim_start.simps) (simp add: dquote_def)
next
  case (Suc n)
  then show ?case by (subst trim_start.simps) simp
qed

text \<open>
  A quoted string field is read back.  If the first occurrence of the quoted
  field name in the body is followed by a colon, any number of spaces and a
  quoted value, the value is what the extraction returns, whatever surrounds
  it.
\<close>
theorem extract_field_roundtrip:
  assumes "text = pre @ dquote @ name @ dquote @ '':'' @ replicate n CHR '' '' @ dquote @ v @ dquote @ rest"
    and "str_find (dquote @ name @ dquote) text = Some (length pre)"
    and "CHR 0x22 \<notin> set v"
  shows "extract_field_value text name = Some v"
proof -
  let ?after = "'':'' @ replicate n CHR '' '' @ dquote @ v @ dquote @ rest"
  have drop: "drop (length pre + length (dquote @ name @ dquote)) text = ?after"
    by (simp add: assms(1) dquote_def)
  have colon: "colon_after ?after = Some 0" by (simp add: colon_after.simps)
  have trim: "trim_start (drop (0 + 1) ?after) = dquote @ v @ dquote @ rest"
    by (simp add: trim_start_spaces)
  have "field_value_at text (dquote @ name @ dquote) = quoted_value dquote (dquote @ v @ dquote @ rest)"
    unfolding field_value_at_def assms(2) option.case Let_def drop colon trim by simp
  also have "\<dots> = Some v" using quoted_value_app [OF assms(3), of rest] by (simp add: dquote_def)
  finally show ?thesis by (simp add: extract_field_value_def)
qed

theorem extract_field_roundtrip_witness:
  "extract_field_value ''{\"model\":\"m\",\"user\": \"bob\"}'' ''user'' = Some ''bob''"
  by (rule extract_field_roundtrip [where pre = "''{\"model\":\"m\",''" and n = 1 and rest = "''}''"])
    (simp_all add: dquote_def starts_with_def)

text \<open>
  Only the first occurrence of a field name is examined, so the user field
  of a chat request is missed when a message with the role user comes before
  it, and no routing key is found in the body.
\<close>
theorem user_field_missed_after_role:
  "extract_hash_key_from_body
     (Some ''{\"messages\":[{\"role\":\"user\"}],\"user\":\"bob\"}'') = None"
  by code_simp

end
