(* ===== verification/Hash_Policies.thy ===== *)
theory Hash_Policies
  imports Policy Hash_Key
begin

text \<open>
  The two policies that route by a session key: the ring of
  \<^verbatim>\<open>policies/consistent_hash.rs\<close> and the highest-random-weight selection of
  \<^verbatim>\<open>policies/rendezvous_hash.rs\<close>.  The ring is a \<^verbatim>\<open>BTreeMap\<close>, modelled as the list of
  its entries in key order.

  Both keep the contract \<open>lb_policy\<close>.  The ring depends only on the current
  workers, so routing does not depend on history; adding a worker moves keys
  only to it, and losing a worker that a key does not map to moves nothing.
\<close>

section \<open>Ordered map\<close>

fun bt_insert :: "'k::linorder \<Rightarrow> 'v \<Rightarrow> ('k \<times> 'v) list \<Rightarrow> ('k \<times> 'v) list" where
  "bt_insert k v [] = [(k, v)]"
| "bt_insert k v ((a, b) # r) =
     (if k < a then (k, v) # (a, b) # r
      else if k = a then (k, v) # r
      else (a, b) # bt_insert k v r)"

definition bt_sorted :: "('k::linorder \<times> 'v) list \<Rightarrow> bool" where
  "bt_sorted r \<longleftrightarrow> sorted_wrt (<) (map fst r)"

section \<open>Consistent hashing\<close>

record consistent_hash =
  hash_ring :: "(u64 \<times> str) list"
  current_workers :: "str list"

definition ch_new :: consistent_hash where
  "ch_new = \<lparr>hash_ring = [], current_workers = []\<rparr>"

definition virtual_nodes_per_worker :: nat where
  "virtual_nodes_per_worker = 160"

definition add_virtual_nodes :: "str \<Rightarrow> (u64 \<times> str) list \<Rightarrow> (u64 \<times> str) list" where
  "add_virtual_nodes worker_url ring =
     fold (\<lambda>i r. bt_insert (fbi_hash (worker_url @ '':'' @ show_nat i)) worker_url r)
       [0..<virtual_nodes_per_worker] ring"

definition build_ring :: "str list \<Rightarrow> (u64 \<times> str) list" where
  "build_ring worker_urls = fold add_virtual_nodes worker_urls []"

definition update_hash_ring :: "worker list \<Rightarrow> consistent_hash \<Rightarrow> consistent_hash" where
  "update_hash_ring ws st =
     (let worker_urls = map url ws in
      if current_workers st = worker_urls then st
      else st\<lparr>hash_ring := build_ring worker_urls, current_workers := worker_urls\<rparr>)"

definition find_worker_by_hash :: "consistent_hash \<Rightarrow> str \<Rightarrow> str option" where
  "find_worker_by_hash st hash_key =
     (let hash_value = fbi_hash hash_key; ring = hash_ring st in
      if ring = [] then None
      else map_option snd
             (case List.find (\<lambda>e. hash_value \<le> fst e) ring of
                Some e \<Rightarrow> Some e
              | None \<Rightarrow> Some (hd ring)))"

definition ch_select ::
  "instant \<Rightarrow> consistent_hash \<Rightarrow> worker list \<Rightarrow> str option \<Rightarrow> request_headers option
   \<Rightarrow> consistent_hash outcome" where
  "ch_select now st ws request_text headers =
     (let (healthy_indices, ws1) = get_healthy_worker_indices now ws in
      if healthy_indices = [] then (None, st, ws1)
      else
        let st1 = update_hash_ring ws1 st;
            hash_key = extract_hash_key request_text headers;
            fallback_idx = healthy_indices ! 0
        in case find_worker_by_hash st1 hash_key of
             None \<Rightarrow> (Some fallback_idx, st1, ws1)
           | Some target_worker_url \<Rightarrow>
               let (base, rank) = extract_dp_info target_worker_url;
                   selected_idx =
                     (case rank of
                        Some _ \<Rightarrow> position (\<lambda>w. url w = target_worker_url) ws1
                      | None \<Rightarrow> position (\<lambda>w. fst (extract_dp_info (url w)) = base) ws1)
               in case selected_idx of
                    Some idx \<Rightarrow>
                      let (ok, w) = is_available now (ws1 ! idx); ws2 = ws1[idx := w]
                      in if ok then (Some idx, st1, count_processed idx ws2)
                         else (Some fallback_idx, st1, count_processed fallback_idx ws2)
                  | None \<Rightarrow> (Some fallback_idx, st1, count_processed fallback_idx ws1))"

definition ch_reset :: "consistent_hash \<Rightarrow> consistent_hash" where
  "ch_reset st = st\<lparr>hash_ring := [], current_workers := []\<rparr>"

definition ch_select_pair ::
  "instant \<Rightarrow> consistent_hash \<Rightarrow> worker list \<Rightarrow> worker list \<Rightarrow> str option \<Rightarrow> request_headers option
   \<Rightarrow> (nat \<times> nat) option \<times> consistent_hash \<times> worker list \<times> worker list" where
  "ch_select_pair now st pws dws request_text headers =
     (case ch_select now st pws request_text headers of
        (None, st1, pws1) \<Rightarrow> (None, st1, pws1, dws)
      | (Some prefill_idx, st1, pws1) \<Rightarrow>
          (case ch_select now st1 dws request_text headers of
             (None, st2, dws1) \<Rightarrow> (None, st2, pws1, dws1)
           | (Some decode_idx, st2, dws1) \<Rightarrow> (Some (prefill_idx, decode_idx), st2, pws1, dws1)))"

inductive ch_reachable :: "consistent_hash \<Rightarrow> bool" where
  new: "ch_reachable ch_new"
| select: "ch_reachable st \<Longrightarrow> ch_reachable (fst (snd (ch_select now st ws t h)))"
| reset: "ch_reachable st \<Longrightarrow> ch_reachable (ch_reset st)"

section \<open>Rendezvous hashing\<close>

definition rendezvous_score :: "str \<Rightarrow> str \<Rightarrow> u64" where
  "rendezvous_score hash_key worker_url = fbi_hash (hash_key @ '':'' @ worker_url)"

definition rv_select ::
  "instant \<Rightarrow> worker list \<Rightarrow> str option \<Rightarrow> request_headers option \<Rightarrow> unit outcome" where
  "rv_select now ws request_text headers =
     (let (healthy_indices, ws1) = get_healthy_worker_indices now ws in
      if healthy_indices = [] then (None, (), ws1)
      else
        let hash_key = extract_hash_key request_text headers in
        case max_by_key (\<lambda>idx. rendezvous_score hash_key (url (ws1 ! idx))) healthy_indices of
          Some selected_idx \<Rightarrow> (Some selected_idx, (), count_processed selected_idx ws1)
        | None \<Rightarrow> (None, (), ws1))"

section \<open>The ring\<close>

lemma set_bt_insert: "set (bt_insert k v r) \<subseteq> insert (k, v) (set r)"
  by (induction k v r rule: bt_insert.induct) auto

lemma bt_insert_sorted [inv_intros]: "bt_sorted r \<Longrightarrow> bt_sorted (bt_insert k v r)"
proof (induction k v r rule: bt_insert.induct)
  case (2 k v a b r)
  show ?case
  proof (cases "a < k")
    case True
    have "bt_sorted (bt_insert k v r)" using 2 True by (auto simp: bt_sorted_def)
    moreover have "a < fst x" if "x \<in> set (bt_insert k v r)" for x
      using that set_bt_insert [of k v r] 2(2) True by (auto simp: bt_sorted_def)
    ultimately show ?thesis using True by (auto simp: bt_sorted_def)
  next
    case False
    then show ?thesis using 2(2) by (auto simp: bt_sorted_def not_less_iff_gr_or_eq)
  qed
qed (simp add: bt_sorted_def)

lemma bt_insert_not_Nil [simp]: "bt_insert k v r \<noteq> []"
  by (cases r) (auto split: if_splits)

lemma hd_bt_insert: "hd (bt_insert k v r) = (k, v) \<or> hd (bt_insert k v r) = hd r"
  by (cases r) (auto split: if_splits)

definition ring_owner :: "'k::linorder \<Rightarrow> ('k \<times> 'v) list \<Rightarrow> 'v option" where
  "ring_owner h r =
     (if r = [] then None
      else map_option snd
        (case List.find (\<lambda>e. h \<le> fst e) r of Some e \<Rightarrow> Some e | None \<Rightarrow> Some (hd r)))"

lemma find_bt_insert:
  "bt_sorted r \<Longrightarrow>
     List.find (\<lambda>e. h \<le> fst e) (bt_insert k v r) = Some (k, v)
     \<or> List.find (\<lambda>e. h \<le> fst e) (bt_insert k v r) = List.find (\<lambda>e. h \<le> fst e) r"
  by (induction k v r rule: bt_insert.induct) (auto simp: bt_sorted_def)

lemma ring_owner_bt_insert:
  assumes "bt_sorted r" "r \<noteq> []"
  shows "ring_owner h (bt_insert k v r) \<in> {Some v, ring_owner h r}"
proof (cases "List.find (\<lambda>e. h \<le> fst e) (bt_insert k v r) = Some (k, v)")
  case False
  then have f: "List.find (\<lambda>e. h \<le> fst e) (bt_insert k v r) = List.find (\<lambda>e. h \<le> fst e) r"
    using find_bt_insert [OF assms(1), of h k v] by blast
  show ?thesis
    using hd_bt_insert [of k v r] assms(2)
    by (cases "List.find (\<lambda>e. h \<le> fst e) r") (auto simp: ring_owner_def f)
qed (simp add: ring_owner_def)

lemma ring_owner_new: "ring_owner h (bt_insert k v []) = Some v"
  by (simp add: ring_owner_def)

lemma add_virtual_nodes_sorted: "bt_sorted r \<Longrightarrow> bt_sorted (add_virtual_nodes u r)"
proof -
  assume "bt_sorted r"
  then have "bt_sorted (fold (\<lambda>i r. bt_insert (f i) u r) is r)" for f :: "nat \<Rightarrow> u64" and "is"
    by (induction "is" arbitrary: r) (auto intro: bt_insert_sorted)
  then show ?thesis by (simp add: add_virtual_nodes_def)
qed

lemma build_ring_sorted: "bt_sorted (build_ring us)"
proof -
  have "bt_sorted r \<Longrightarrow> bt_sorted (fold add_virtual_nodes us r)" for r
    by (induction us arbitrary: r) (auto intro: add_virtual_nodes_sorted)
  then show ?thesis by (simp add: build_ring_def bt_sorted_def)
qed

lemma ring_owner_fold_insert:
  assumes "bt_sorted r" "r \<noteq> []"
  shows "ring_owner h (fold (\<lambda>i r. bt_insert (f i) u r) is r) \<in> {Some u, ring_owner h r}"
  using assms
proof (induction "is" arbitrary: r)
  case (Cons i "is")
  have "ring_owner h (fold (\<lambda>i r. bt_insert (f i) u r) is (bt_insert (f i) u r))
      \<in> {Some u, ring_owner h (bt_insert (f i) u r)}"
    using Cons.IH bt_insert_sorted [OF Cons.prems(1)] by simp
  then show ?case using ring_owner_bt_insert [OF Cons.prems, of h "f i" u] by auto
qed simp

lemma add_virtual_nodes_owner:
  assumes "bt_sorted r"
  shows "ring_owner h (add_virtual_nodes u r) \<in> {Some u, ring_owner h r}"
proof (cases "r = []")
  case False
  then show ?thesis using ring_owner_fold_insert [OF assms] by (simp add: add_virtual_nodes_def)
next
  case True
  define f where "f = (\<lambda>i. fbi_hash (u @ '':'' @ show_nat i))"
  have "[0..<virtual_nodes_per_worker] = 0 # [1..<virtual_nodes_per_worker]"
    by (simp add: virtual_nodes_per_worker_def upt_conv_Cons del: upt_Suc)
  then have "add_virtual_nodes u r =
      fold (\<lambda>i r. bt_insert (f i) u r) [1..<virtual_nodes_per_worker] (bt_insert (f 0) u [])"
    unfolding add_virtual_nodes_def True f_def by (simp del: bt_insert.simps)
  moreover have "bt_sorted (bt_insert (f 0) u [])" by (simp add: bt_sorted_def)
  ultimately show ?thesis
    using ring_owner_fold_insert [of "bt_insert (f 0) u []" h f u "[1..<virtual_nodes_per_worker]"]
    by (simp add: ring_owner_new del: bt_insert.simps)
qed

lemma find_worker_by_hash_owner:
  "find_worker_by_hash st key = ring_owner (fbi_hash key) (hash_ring st)"
  by (simp add: find_worker_by_hash_def ring_owner_def Let_def)

lemma find_sorted_least:
  assumes "bt_sorted r" "List.find (\<lambda>e. h \<le> fst e) r = Some e"
  shows "e \<in> set r \<and> h \<le> fst e \<and> (\<forall>x\<in>set r. h \<le> fst x \<longrightarrow> fst e \<le> fst x)"
  using assms
  by (induction r) (auto simp: bt_sorted_def less_imp_le split: if_splits)

text \<open>
  The ring implements consistent hashing: the worker of a key is the one at
  the first point of the ring at or after the hash of the key, and at the first
  point of the whole ring if there is none.
\<close>
theorem ring_owner_is_successor:
  assumes "find_worker_by_hash \<lparr>hash_ring = build_ring us, current_workers = us\<rparr> key = Some u"
  shows "\<exists>p. (p, u) \<in> set (build_ring us) \<and>
     ((fbi_hash key \<le> p \<and> (\<forall>(q, w)\<in>set (build_ring us). fbi_hash key \<le> q \<longrightarrow> p \<le> q)) \<or>
      (\<forall>(q, w)\<in>set (build_ring us). q < fbi_hash key \<and> p \<le> q))"
proof -
  let ?r = "build_ring us" and ?h = "fbi_hash key"
  have own: "ring_owner ?h ?r = Some u" using assms by (simp add: find_worker_by_hash_owner)
  show ?thesis
  proof (cases "List.find (\<lambda>e. ?h \<le> fst e) ?r")
    case (Some e)
    then have "snd e = u" using own by (auto simp: ring_owner_def split: if_splits)
    then show ?thesis using find_sorted_least [OF build_ring_sorted Some] by (cases e) fastforce
  next
    case None
    then have lt: "\<forall>x\<in>set ?r. fst x < ?h" by (auto simp: find_None_iff not_le)
    have ne: "?r \<noteq> []" and u: "snd (hd ?r) = u"
      using own None by (auto simp: ring_owner_def split: if_splits)
    have "\<forall>x\<in>set ?r. fst (hd ?r) \<le> fst x"
      using build_ring_sorted [of us] ne by (cases ?r) (auto simp: bt_sorted_def less_imp_le)
    then show ?thesis using lt ne u by (intro exI [of _ "fst (hd ?r)"]) force
  qed
qed

section \<open>Placement by the ring\<close>

definition ch_inv :: "consistent_hash \<Rightarrow> bool" where
  "ch_inv st \<longleftrightarrow> hash_ring st = build_ring (current_workers st)"

definition ch_target_index :: "worker list \<Rightarrow> str \<Rightarrow> nat option" where
  "ch_target_index ws target =
     (case snd (extract_dp_info target) of
        Some _ \<Rightarrow> position (\<lambda>w. url w = target) ws
      | None \<Rightarrow> position (\<lambda>w. fst (extract_dp_info (url w)) = fst (extract_dp_info target)) ws)"

definition ch_place :: "instant \<Rightarrow> worker list \<Rightarrow> nat \<Rightarrow> str option \<Rightarrow> nat \<times> worker list" where
  "ch_place now ws fallback target =
     (case target of
        None \<Rightarrow> (fallback, ws)
      | Some u \<Rightarrow>
          (case ch_target_index ws u of
             None \<Rightarrow> (fallback, count_processed fallback ws)
           | Some idx \<Rightarrow>
               let ws2 = ws[idx := snd (is_available now (ws ! idx))];
                   i = (if available now (ws ! idx) then idx else fallback)
               in (i, count_processed i ws2)))"

lemma ch_inv_new: "ch_inv ch_new"
  by (simp add: ch_inv_def ch_new_def build_ring_def)

lemma ch_inv_update [inv_intros]: "ch_inv st \<Longrightarrow> ch_inv (update_hash_ring ws st)"
  by (simp add: ch_inv_def update_hash_ring_def Let_def)

lemma update_hash_ring_ring: "ch_inv st \<Longrightarrow> hash_ring (update_hash_ring ws st) = build_ring (map url ws)"
  by (auto simp: ch_inv_def update_hash_ring_def Let_def)

lemma ch_select_place:
  "ch_select now st ws t h =
     (if healthy_of now ws = [] then (None, st, probed now ws)
      else let (i, ws') = ch_place now (probed now ws) (healthy_of now ws ! 0)
                  (find_worker_by_hash (update_hash_ring (probed now ws) st) (extract_hash_key t h))
           in (Some i, update_hash_ring (probed now ws) st, ws'))"
  unfolding ch_select_def get_healthy_worker_indices_eq
  by (auto simp: Let_def ch_place_def ch_target_index_def available_def split: option.split prod.split)

lemma ch_target:
  assumes "ch_inv st"
  shows "find_worker_by_hash (update_hash_ring (probed now ws) st) key
       = ring_owner (fbi_hash key) (build_ring (map url ws))"
  using update_hash_ring_ring [OF assms, of "probed now ws"] by (simp add: find_worker_by_hash_owner)

lemma ch_select_state:
  "ch_inv st \<Longrightarrow> ch_inv (fst (snd (ch_select now st ws t h)))"
  by (simp add: ch_select_place Let_def ch_inv_update split: prod.split)

lemma ch_reachable_inv: "ch_reachable st \<Longrightarrow> ch_inv st"
  by (induction rule: ch_reachable.induct)
    (auto simp: ch_inv_new ch_select_state, simp add: ch_inv_def ch_reset_def build_ring_def)

lemma ch_place_keeps:
  assumes "ch_place now ws fb target = (i, ws')"
  shows "map url ws' = map url ws \<and> map load ws' = map load ws"
  using assms
  by (auto simp: ch_place_def Let_def map_update_same split: option.splits)

lemma ch_place_available:
  assumes "ch_place now ws fb target = (i, ws')" "fb < length ws" "available now (ws ! fb)"
  shows "i < length ws \<and> available now (ws ! i)"
proof -
  have "idx < length ws" if "ch_target_index ws u = Some idx" for u idx
    using that by (auto simp: ch_target_index_def dest: position_SomeD split: option.splits)
  then show ?thesis
    using assms by (auto simp: ch_place_def Let_def split: option.splits if_splits)
qed

lemma available_probed [simp]: "i < length ws \<Longrightarrow> available now (probed now ws ! i) = available now (ws ! i)"
  by (simp add: probed_def)

section \<open>Both policies keep the contract\<close>

definition ch_outcomes :: "consistent_hash selection" where
  "ch_outcomes now st ws t h out \<longleftrightarrow> out = ch_select now st ws t h"

definition rv_outcomes :: "unit selection" where
  "rv_outcomes now st ws t h out \<longleftrightarrow> out = rv_select now ws t h"

lemma healthy_of_hd: "healthy_of now ws \<noteq> [] \<Longrightarrow>
    healthy_of now ws ! 0 < length ws \<and> available now (ws ! (healthy_of now ws ! 0))"
  by (rule healthy_of_nth) simp

interpretation ch: lb_policy ch_outcomes
proof
  fix now st ws body hdrs k st' ws' w r
  let ?target = "find_worker_by_hash (update_hash_ring (probed now ws) st) (extract_hash_key body hdrs)"
  show "\<exists>out. ch_outcomes now st ws body hdrs out" by (simp add: ch_outcomes_def)
  show "k < length ws \<and> is_healthy (ws ! k)" and "available now (ws ! k)"
    if o: "ch_outcomes now st ws body hdrs (Some k, st', ws')"
  proof -
    have h: "healthy_of now ws \<noteq> []"
      and p: "ch_place now (probed now ws) (healthy_of now ws ! 0) ?target = (k, ws')"
      using o by (auto simp: ch_outcomes_def ch_select_place Let_def split: if_splits prod.splits)
    have "k < length ws \<and> available now (probed now ws ! k)"
      using ch_place_available [OF p] healthy_of_hd [OF h] by simp
    then show "k < length ws \<and> is_healthy (ws ! k)" "available now (ws ! k)"
      by (auto intro: available_healthy)
  qed
  show "\<not> available now w" if "ch_outcomes now st ws body hdrs (None, st', ws')" "w \<in> set ws"
    using that by (auto simp: ch_outcomes_def ch_select_place Let_def healthy_of_Nil split: if_splits prod.splits)
  show "map url ws' = map url ws \<and> map load ws' = map load ws"
    if o: "ch_outcomes now st ws body hdrs (r, st', ws')"
    using o ch_place_keeps [of now "probed now ws" "healthy_of now ws ! 0" ?target]
    by (auto simp: ch_outcomes_def ch_select_place Let_def split: if_splits prod.splits)
qed

lemma rv_select_eq:
  "rv_select now ws t h =
     (case max_by_key (\<lambda>i. rendezvous_score (extract_hash_key t h) (url (ws ! i))) (healthy_of now ws) of
        None \<Rightarrow> (None, (), probed now ws)
      | Some i \<Rightarrow> (Some i, (), count_processed i (probed now ws)))"
proof -
  have "max_by_key (\<lambda>i. rendezvous_score (extract_hash_key t h) (url (probed now ws ! i))) (healthy_of now ws)
      = max_by_key (\<lambda>i. rendezvous_score (extract_hash_key t h) (url (ws ! i))) (healthy_of now ws)"
    by (rule max_by_key_cong) (auto simp: healthy_of_def probed_def)
  then show ?thesis
    by (auto simp: rv_select_def get_healthy_worker_indices_eq Let_def)
qed

lemma healthy_of_mem: "i \<in> set (healthy_of now ws) \<longleftrightarrow> i < length ws \<and> available now (ws ! i)"
  by (auto simp: healthy_of_def)

interpretation rv: lb_policy rv_outcomes
proof
  fix now st ws body hdrs k st' ws' w r
  show "\<exists>out. rv_outcomes now st ws body hdrs out" unfolding rv_outcomes_def by blast
  show "k < length ws \<and> is_healthy (ws ! k)" and "available now (ws ! k)"
    if "rv_outcomes now st ws body hdrs (Some k, st', ws')"
    using that
    by (auto simp: rv_outcomes_def rv_select_eq healthy_of_mem intro: available_healthy
        dest!: max_by_key_SomeD split: option.splits)
  show "\<not> available now w" if "rv_outcomes now st ws body hdrs (None, st', ws')" "w \<in> set ws"
    using that by (auto simp: rv_outcomes_def rv_select_eq healthy_of_Nil split: option.splits)
  show "map url ws' = map url ws \<and> map load ws' = map load ws"
    if "rv_outcomes now st ws body hdrs (r, st', ws')"
    using that by (auto simp: rv_outcomes_def rv_select_eq split: option.splits)
qed

section \<open>Properties\<close>

text \<open>
  C30: Consistent hashing is sticky and forgets its history: whatever worker sets
  the policy has seen and whether it was reset, two requests with the same
  routing key get the same worker from the same workers.
\<close>
theorem consistent_hash_history_independent:
  assumes "ch_reachable st1" "ch_reachable st2" and "extract_hash_key t1 h1 = extract_hash_key t2 h2"
  shows "fst (ch_select now st1 ws t1 h1) = fst (ch_select now st2 ws t2 h2)"
  using ch_target [OF ch_reachable_inv [OF assms(1)]] ch_target [OF ch_reachable_inv [OF assms(2)]] assms(3)
  by (simp add: ch_select_place Let_def split: prod.split)

theorem consistent_hash_history_independent_witness:
  "fst (ch_select 1 (fst (snd (ch_select 0 ch_new [create_regular 0 ''http://c''] None None))) demo_workers None None)
   = fst (ch_select 1 ch_new demo_workers None None)"
  by (rule consistent_hash_history_independent)
    (auto intro: ch_reachable.new ch_reachable.select)

text \<open>
  C31: Adding a worker disturbs the ring minimally: a key keeps its worker or
  moves to the added one, and is never moved between the old workers.
\<close>
theorem ring_minimal_disruption:
  "find_worker_by_hash \<lparr>hash_ring = build_ring (us @ [u]), current_workers = us @ [u]\<rparr> key
     \<in> {Some u, find_worker_by_hash \<lparr>hash_ring = build_ring us, current_workers = us\<rparr> key}"
proof -
  have "build_ring (us @ [u]) = add_virtual_nodes u (build_ring us)" by (simp add: build_ring_def)
  then show ?thesis
    using add_virtual_nodes_owner [OF build_ring_sorted [of us], of "fbi_hash key" u]
    by (simp add: find_worker_by_hash_owner)
qed

text \<open>
  Rendezvous hashing disturbs minimally: if workers other than the chosen one
  become unavailable, the choice for the key stays the same.
\<close>
theorem rendezvous_minimal_disruption:
  assumes "fst (rv_select now ws t h) = Some i"
    and "map url ws' = map url ws" and "extract_hash_key t' h' = extract_hash_key t h"
    and "\<forall>j < length ws. available now (ws' ! j) \<longrightarrow> available now (ws ! j)"
    and "available now (ws' ! i)"
  shows "fst (rv_select now ws' t' h') = Some i"
proof -
  let ?f = "\<lambda>ws i. rendezvous_score (extract_hash_key t h) (url (ws ! i))"
  have len: "length ws' = length ws" using assms(2) by (metis length_map)
  have m: "max_by_key (?f ws) (healthy_of now ws) = Some i"
    using assms(1) by (auto simp: rv_select_eq split: option.splits)
  have "healthy_of now ws' = filter (\<lambda>j. available now (ws' ! j)) (healthy_of now ws)"
    unfolding healthy_of_def len filter_filter using assms(4) by (intro filter_cong) auto
  then have "max_by_key (?f ws) (healthy_of now ws') = Some i"
    using max_by_key_filter [OF m, of "\<lambda>j. available now (ws' ! j)"] assms(5) by simp
  moreover have "max_by_key (?f ws') (healthy_of now ws') = max_by_key (?f ws) (healthy_of now ws')"
  proof (rule max_by_key_cong)
    fix j assume "j \<in> set (healthy_of now ws')"
    then have "j < length ws'" by (simp add: healthy_of_mem)
    then show "?f ws' j = ?f ws j" using assms(2) len by (metis nth_map)
  qed
  ultimately show ?thesis using assms(3) by (simp add: rv_select_eq)
qed

theorem rendezvous_minimal_disruption_witness:
  "\<exists>i < 2. fst (rv_select 1 demo_workers None None) = Some i \<and>
     fst (rv_select 1 (demo_workers[1 - i := set_healthy False (demo_workers ! (1 - i))]) None None) = Some i"
proof -
  obtain r ws' where r: "rv_select 1 demo_workers None None = (r, (), ws')" by (metis old.unit.exhaust prod_cases3)
  then have "sound_choice 1 demo_workers r"
    by (intro rv.choice_sound [of _ "()" _ None None]) (simp add: rv_outcomes_def)
  then obtain i where i: "fst (rv_select 1 demo_workers None None) = Some i" "i < 2"
    using r by (auto simp: sound_choice_def numeral_2_eq_2)
  let ?ws = "demo_workers[1 - i := set_healthy False (demo_workers ! (1 - i))]"
  have "map url ?ws = map url demo_workers" by (rule map_update_same) simp
  moreover have "available 1 (?ws ! i)" using i(2) by (auto simp: less_2_cases_iff)
  moreover have "\<forall>j < length demo_workers. available 1 (?ws ! j) \<longrightarrow> available 1 (demo_workers ! j)"
    by (auto simp: less_Suc_eq)
  ultimately have "fst (rv_select 1 ?ws None None) = Some i"
    using rendezvous_minimal_disruption [OF i(1), of ?ws None None] by blast
  then show ?thesis using i by blast
qed

lemma ring_owner_single: "ring_owner h (build_ring [u]) = Some u"
proof -
  have "build_ring [u] \<noteq> []"
    by (simp add: build_ring_def add_virtual_nodes_def virtual_nodes_per_worker_def upt_rec numeral_eq_Suc)
  then show ?thesis
    using add_virtual_nodes_owner [of "[]" h u]
    by (auto simp: build_ring_def ring_owner_def bt_sorted_def split: option.splits)
qed

theorem ring_owner_is_successor_witness:
  "\<exists>p. (p, ''http://a'') \<in> set (build_ring [''http://a''])"
  using ring_owner_is_successor [of "[''http://a'']" "''k''" "''http://a''"]
  by (auto simp: find_worker_by_hash_owner ring_owner_single)

end
