(* ===== verification/Retry.thy ===== *)
theory Retry
  imports Complex_Main Router_Prelude
begin

text \<open>
  The retry executor of \<^verbatim>\<open>core/retry.rs\<close> and its configuration in
  \<^verbatim>\<open>config/types.rs\<close>.

  The closures of \<^verbatim>\<open>execute_response_with_retry\<close> share and change the caller's
  state; they are functions on a state type \<open>'s\<close>.  Sleeping does not change that
  state.  The jitter scale drawn from the random number generator at attempt
  \<open>i\<close> is the argument \<open>draw i\<close>.  The \<^verbatim>\<open>f32\<close> arithmetic of the backoff is exact real
  arithmetic, with the casts to \<^verbatim>\<open>u64\<close> truncating and saturating.
\<close>

section \<open>Configuration and backoff\<close>

record retry_config =
  max_retries :: nat
  initial_backoff_ms :: nat
  max_backoff_ms :: nat
  backoff_multiplier :: real
  jitter_factor :: real

definition default_retry_config :: retry_config where
  "default_retry_config =
     \<lparr>max_retries = 5, initial_backoff_ms = 50, max_backoff_ms = 30000,
      backoff_multiplier = 3 / 2, jitter_factor = 2 / 10\<rparr>"

definition is_retryable_status :: "nat \<Rightarrow> bool" where
  "is_retryable_status status \<longleftrightarrow> status \<in> {408, 429, 500, 502, 503, 504}"

definition real_to_u64 :: "real \<Rightarrow> nat" where
  "real_to_u64 x = (if x < 0 then 0 else min (nat \<lfloor>x\<rfloor>) (2 ^ 64 - 1))"

definition round_half_away :: "real \<Rightarrow> int" where
  "round_half_away x = (if x < 0 then - \<lfloor>- x + 1 / 2\<rfloor> else \<lfloor>x + 1 / 2\<rfloor>)"

definition clamp :: "real \<Rightarrow> real \<Rightarrow> real \<Rightarrow> real" where
  "clamp lo hi x = (if x < lo then lo else if hi < x then hi else x)"

definition base_delay_ms :: "retry_config \<Rightarrow> nat \<Rightarrow> nat" where
  "base_delay_ms config attempt =
     (let pow = backoff_multiplier config ^ attempt;
          delay_ms = real_to_u64 (real (initial_backoff_ms config) * pow)
      in if max_backoff_ms config < delay_ms then max_backoff_ms config else delay_ms)"

definition calculate_delay :: "real \<Rightarrow> retry_config \<Rightarrow> nat \<Rightarrow> nat" where
  "calculate_delay jitter_scale config attempt =
     (let delay_ms = base_delay_ms config attempt;
          jitter = clamp 0 1 (jitter_factor config)
      in if 0 < jitter then
           let jitter_ms = max (round_half_away (real delay_ms * jitter_scale)) (- int delay_ms)
           in nat (max (int delay_ms + jitter_ms) 0)
         else delay_ms)"

section \<open>The executors\<close>

datatype retry_error = NoAvailableWorkers | MaxRetriesExceeded

function retry_loop ::
  "nat \<Rightarrow> (nat \<Rightarrow> 's \<Rightarrow> 'a option \<times> 's) \<Rightarrow> nat \<Rightarrow> 's \<Rightarrow> (retry_error + 'a) \<times> 's" where
  "retry_loop mx operation attempt s =
     (case operation attempt s of
        (Some val, s') \<Rightarrow> (Inr val, s')
      | (None, s') \<Rightarrow>
          if mx \<le> attempt + 1 then (Inl MaxRetriesExceeded, s')
          else retry_loop mx operation (attempt + 1) s')"
  by pat_completeness auto
termination by (relation "measure (\<lambda>(mx, operation, attempt, s). mx - attempt)") auto

definition execute_with_retry ::
  "retry_config \<Rightarrow> (nat \<Rightarrow> 's \<Rightarrow> 'a option \<times> 's) \<Rightarrow> 's \<Rightarrow> (retry_error + 'a) \<times> 's" where
  "execute_with_retry config operation s = retry_loop (max (max_retries config) 1) operation 0 s"

function response_loop ::
  "retry_config \<Rightarrow> (nat \<Rightarrow> real) \<Rightarrow> nat \<Rightarrow> (nat \<Rightarrow> 's \<Rightarrow> 'r \<times> 's) \<Rightarrow> ('r \<Rightarrow> nat \<Rightarrow> bool)
   \<Rightarrow> (nat \<Rightarrow> nat \<Rightarrow> 's \<Rightarrow> 's) \<Rightarrow> ('s \<Rightarrow> 's) \<Rightarrow> nat \<Rightarrow> 's \<Rightarrow> 'r \<times> 's" where
  "response_loop config draw mx operation should_retry on_backoff on_exhausted attempt s =
     (let (response, s1) = operation attempt s;
          is_last = (mx \<le> attempt + 1)
      in if \<not> should_retry response attempt then (response, s1)
         else if is_last then (response, on_exhausted s1)
         else
           let next_attempt = attempt + 1;
               delay = calculate_delay (draw attempt) config attempt;
               s2 = on_backoff delay next_attempt s1
           in response_loop config draw mx operation should_retry on_backoff on_exhausted
                next_attempt s2)"
  by pat_completeness auto
termination
  by (relation "measure (\<lambda>(config, draw, mx, op, sr, ob, oe, attempt, s). mx - attempt)") auto

declare retry_loop.simps [simp del] response_loop.simps [simp del]

definition execute_response_with_retry ::
  "retry_config \<Rightarrow> (nat \<Rightarrow> real) \<Rightarrow> (nat \<Rightarrow> 's \<Rightarrow> 'r \<times> 's) \<Rightarrow> ('r \<Rightarrow> nat \<Rightarrow> bool)
   \<Rightarrow> (nat \<Rightarrow> nat \<Rightarrow> 's \<Rightarrow> 's) \<Rightarrow> ('s \<Rightarrow> 's) \<Rightarrow> 's \<Rightarrow> 'r \<times> 's" where
  "execute_response_with_retry config draw operation should_retry on_backoff on_exhausted s =
     response_loop config draw (max (max_retries config) 1) operation should_retry on_backoff
       on_exhausted 0 s"

section \<open>Backoff delays\<close>

lemma base_delay_le: "base_delay_ms config attempt \<le> max_backoff_ms config"
  by (simp add: base_delay_ms_def Let_def)

lemma real_to_u64_mono: "x \<le> y \<Longrightarrow> real_to_u64 x \<le> real_to_u64 y"
  unfolding real_to_u64_def by (auto simp: min_le_iff_disj intro: nat_mono floor_mono)

lemma base_delay_min:
  "base_delay_ms config attempt =
     min (max_backoff_ms config)
       (real_to_u64 (real (initial_backoff_ms config) * backoff_multiplier config ^ attempt))"
  by (simp add: base_delay_ms_def Let_def)

lemma round_half_away_abs: "\<bar>real_of_int (round_half_away x)\<bar> \<le> \<bar>x\<bar> + 1 / 2"
  unfolding round_half_away_def by (auto simp: abs_if; linarith)

lemma clamp_range: "0 \<le> clamp 0 1 j \<and> clamp 0 1 j \<le> 1"
  by (simp add: clamp_def)

text \<open>
  Backoff delays.  The base delay never exceeds the configured maximum and
  does not decrease from one attempt to the next when the multiplier is at
  least one; the jitter moves it by at most the configured fraction, up to
  rounding, and never below zero.
\<close>
theorem backoff_bounds:
  assumes "\<bar>jitter_scale\<bar> \<le> clamp 0 1 (jitter_factor config)"
  shows "base_delay_ms config attempt \<le> max_backoff_ms config
       \<and> (1 \<le> backoff_multiplier config \<longrightarrow>
            base_delay_ms config attempt \<le> base_delay_ms config (Suc attempt))
       \<and> \<bar>real (calculate_delay jitter_scale config attempt) - real (base_delay_ms config attempt)\<bar>
           \<le> real (base_delay_ms config attempt) * clamp 0 1 (jitter_factor config) + 1 / 2"
proof (intro conjI impI)
  let ?d = "base_delay_ms config attempt" and ?j = "clamp 0 1 (jitter_factor config)"
  show "?d \<le> max_backoff_ms config" by (rule base_delay_le)
  show "?d \<le> base_delay_ms config (Suc attempt)" if m: "1 \<le> backoff_multiplier config"
  proof -
    have "real (initial_backoff_ms config) * backoff_multiplier config ^ attempt
        \<le> real (initial_backoff_ms config) * backoff_multiplier config ^ Suc attempt"
      using m by (intro mult_left_mono power_increasing) auto
    then show ?thesis
      unfolding base_delay_min by (intro min.mono order_refl real_to_u64_mono)
  qed
  define rj where "rj = round_half_away (real ?d * jitter_scale)"
  have "\<bar>real ?d * jitter_scale\<bar> \<le> real ?d * ?j"
    unfolding abs_mult using assms by (simp add: mult_left_mono)
  then have rj: "\<bar>real_of_int rj\<bar> \<le> real ?d * ?j + 1 / 2"
    using round_half_away_abs [of "real ?d * jitter_scale"] by (simp add: rj_def)
  have "\<bar>real (nat (max (int ?d + max rj (- int ?d)) 0)) - real ?d\<bar> \<le> \<bar>real_of_int rj\<bar>"
    by (simp add: max_def of_nat_nat)
  with rj show "\<bar>real (calculate_delay jitter_scale config attempt) - real ?d\<bar> \<le> real ?d * ?j + 1 / 2"
    using clamp_range [of "jitter_factor config"]
    by (auto simp: calculate_delay_def Let_def rj_def [symmetric] intro!: add_nonneg_nonneg)
qed

theorem backoff_bounds_witness:
  "calculate_delay (1 / 10) default_retry_config 0 \<le> 60"
proof -
  have "base_delay_ms default_retry_config 0 = 50" "clamp 0 1 (jitter_factor default_retry_config) = 1 / 5"
    by (simp_all add: default_retry_config_def clamp_def base_delay_ms_def real_to_u64_def)
  with backoff_bounds [of "1 / 10" default_retry_config 0]
  have "\<bar>real (calculate_delay (1 / 10) default_retry_config 0) - 50\<bar> \<le> 21 / 2" by simp
  then have "real (calculate_delay (1 / 10) default_retry_config 0) < 61" by linarith
  then show ?thesis by simp
qed

section \<open>Attempts\<close>

primrec attempt_state ::
  "retry_config \<Rightarrow> (nat \<Rightarrow> real) \<Rightarrow> (nat \<Rightarrow> 's \<Rightarrow> 'r \<times> 's) \<Rightarrow> (nat \<Rightarrow> nat \<Rightarrow> 's \<Rightarrow> 's)
   \<Rightarrow> 's \<Rightarrow> nat \<Rightarrow> 's" where
  "attempt_state config draw operation on_backoff s 0 = s"
| "attempt_state config draw operation on_backoff s (Suc i) =
     on_backoff (calculate_delay (draw i) config i) (Suc i)
       (snd (operation i (attempt_state config draw operation on_backoff s i)))"

lemma response_loop_attempts:
  assumes "a < mx"
  shows "\<exists>k. a \<le> k \<and> k < mx \<and>
     (let S = attempt_state config draw operation on_backoff s; R = \<lambda>i. fst (operation i (S i)) in
      (\<forall>i. a \<le> i \<and> i < k \<longrightarrow> should_retry (R i) i) \<and>
      (should_retry (R k) k \<longrightarrow> k = mx - 1) \<and>
      response_loop config draw mx operation should_retry on_backoff on_exhausted a (S a) =
        (R k, (if should_retry (R k) k then on_exhausted else id) (snd (operation k (S k)))))"
  using assms
proof (induction "mx - a" arbitrary: a rule: less_induct)
  case less
  let ?S = "attempt_state config draw operation on_backoff s"
  obtain r s1 where op: "operation a (?S a) = (r, s1)" by force
  have unfold: "response_loop config draw mx operation should_retry on_backoff on_exhausted a (?S a) =
      (if \<not> should_retry r a then (r, s1)
       else if mx \<le> a + 1 then (r, on_exhausted s1)
       else response_loop config draw mx operation should_retry on_backoff on_exhausted (Suc a) (?S (Suc a)))"
    by (subst response_loop.simps) (simp add: op)
  show ?case
  proof (cases "should_retry r a \<and> \<not> mx \<le> a + 1")
    case False
    then show ?thesis using less.prems unfold op by (intro exI [of _ a]) (auto simp: Let_def)
  next
    case True
    then have "mx - Suc a < mx - a" "Suc a < mx" using less.prems by auto
    from less.hyps [OF this] obtain k where k: "Suc a \<le> k" "k < mx"
      "\<forall>i. Suc a \<le> i \<and> i < k \<longrightarrow> should_retry (fst (operation i (?S i))) i"
      "should_retry (fst (operation k (?S k))) k \<longrightarrow> k = mx - 1"
      "response_loop config draw mx operation should_retry on_backoff on_exhausted (Suc a) (?S (Suc a)) =
        (fst (operation k (?S k)), (if should_retry (fst (operation k (?S k))) k then on_exhausted else id)
          (snd (operation k (?S k))))"
      unfolding Let_def by blast
    have "should_retry (fst (operation i (?S i))) i" if "a \<le> i" "i < k" for i
      using that k(3) True op by (cases "i = a") auto
    moreover have "response_loop config draw mx operation should_retry on_backoff on_exhausted a (?S a) =
        (fst (operation k (?S k)), (if should_retry (fst (operation k (?S k))) k then on_exhausted else id)
          (snd (operation k (?S k))))"
      unfolding k(5) [symmetric] unfold using True by (simp only: simp_thms if_True if_False)
    ultimately show ?thesis
      using k(1,2,4) unfolding Let_def by (intro exI [of _ k] conjI) (auto simp del: attempt_state.simps)
  qed
qed

text \<open>
  C34: Retrying always ends.  Some attempt \<open>k\<close> within the configured maximum is
  the last one; every attempt before it was retryable, the response returned
  is that attempt's, and the exhaustion hook runs, once, exactly when this
  response is still retryable, which happens only at the last permitted
  attempt.
\<close>
theorem retry_returns_first_final_response:
  "\<exists>k < max (max_retries config) 1.
     (let S = attempt_state config draw operation on_backoff s; R = (\<lambda>i. fst (operation i (S i))) in
      (\<forall>i < k. should_retry (R i) i) \<and>
      (should_retry (R k) k \<longrightarrow> k = max (max_retries config) 1 - 1) \<and>
      execute_response_with_retry config draw operation should_retry on_backoff on_exhausted s =
        (R k, (if should_retry (R k) k then on_exhausted else id) (snd (operation k (S k)))))"
  using response_loop_attempts [of 0 "max (max_retries config) 1" config draw operation on_backoff s
      should_retry on_exhausted]
  unfolding execute_response_with_retry_def Let_def by auto

theorem retry_returns_first_final_response_witness:
  "execute_response_with_retry (default_retry_config\<lparr>max_retries := 2\<rparr>) (\<lambda>_. 0)
     (\<lambda>i n. (503::nat, n + 1)) (\<lambda>r _. is_retryable_status r) (\<lambda>_ _ n. n) (\<lambda>n. n + 100) 0 = (503, 102::nat)"
proof -
  let ?S = "attempt_state (default_retry_config\<lparr>max_retries := 2\<rparr>) (\<lambda>_. 0)
      (\<lambda>i n. (503::nat, n + 1)) (\<lambda>_ _ n. n) (0::nat)"
  have "is_retryable_status 503" by (simp add: is_retryable_status_def)
  moreover have "?S (Suc 0) = 1" by simp
  ultimately show ?thesis
    using retry_returns_first_final_response [of "default_retry_config\<lparr>max_retries := 2\<rparr>" "\<lambda>_. 0"
        "\<lambda>i n. (503::nat, n + 1)" "\<lambda>_ _ n. n" "0::nat" "\<lambda>r _. is_retryable_status r" "\<lambda>n. n + 100"]
    by (auto simp: Let_def)
qed

end
