(* ===== verification/Token_Bucket.thy ===== *)
theory Token_Bucket
  imports Complex_Main Router_Prelude
begin

text \<open>
  The rate limiter of \<^verbatim>\<open>core/token_bucket.rs\<close>.  The \<^verbatim>\<open>f64\<close> arithmetic is exact real
  arithmetic, and every operation, which holds the bucket's mutex, is one step
  at the instant it reads from the clock.  The waiting of \<^verbatim>\<open>acquire\<close> is given by
  the instants at which its loop wakes up, which the runtime chooses.
\<close>

section \<open>State and operations\<close>

record token_bucket =
  tokens :: real
  last_refill :: instant
  capacity :: real
  refill_rate :: real

definition tb_new :: "instant \<Rightarrow> nat \<Rightarrow> nat \<Rightarrow> token_bucket" where
  "tb_new now cap rate =
     (let refill = (if 0 < rate then real rate else 1) in
      \<lparr>tokens = real cap, last_refill = now, capacity = real cap, refill_rate = refill\<rparr>)"

definition as_secs :: "duration \<Rightarrow> real" where
  "as_secs d = real d / 10 ^ 9"

definition refill :: "instant \<Rightarrow> token_bucket \<Rightarrow> token_bucket" where
  "refill now b =
     (let elapsed = as_secs (now - last_refill b);
          refill_amount = elapsed * refill_rate b
      in b\<lparr>tokens := min (tokens b + refill_amount) (capacity b), last_refill := now\<rparr>)"

definition try_acquire :: "instant \<Rightarrow> real \<Rightarrow> token_bucket \<Rightarrow> bool \<times> token_bucket" where
  "try_acquire now n b =
     (let b1 = refill now b in
      if n \<le> tokens b1 then (True, b1\<lparr>tokens := tokens b1 - n\<rparr>) else (False, b1))"

fun acquire_loop ::
  "instant \<Rightarrow> instant list \<Rightarrow> real \<Rightarrow> token_bucket \<Rightarrow> bool \<times> token_bucket" where
  "acquire_loop deadline [] n b = (False, b)"
| "acquire_loop deadline (t # ts) n b =
     (if deadline < t then (False, b)
      else let (ok, b') = try_acquire t n b in
           if ok then (True, b') else acquire_loop deadline ts n b')"

definition acquire ::
  "instant \<Rightarrow> instant list \<Rightarrow> real \<Rightarrow> token_bucket \<Rightarrow> bool \<times> token_bucket" where
  "acquire now wakeups n b =
     (let (ok, b1) = try_acquire now n b in
      if ok then (True, b1)
      else
        let tokens_needed = max (n - tokens b1) 0;
            wait_secs = max (tokens_needed / refill_rate b1) 0;
            deadline = now + nat \<lfloor>wait_secs * 10 ^ 9\<rfloor>
        in acquire_loop deadline wakeups n b1)"

definition return_tokens :: "real \<Rightarrow> token_bucket \<Rightarrow> token_bucket" where
  "return_tokens n b = b\<lparr>tokens := min (tokens b + n) (capacity b)\<rparr>"

definition available_tokens :: "instant \<Rightarrow> token_bucket \<Rightarrow> real \<times> token_bucket" where
  "available_tokens now b = (let b1 = refill now b in (tokens b1, b1))"

definition seconds_until_available :: "instant \<Rightarrow> real \<Rightarrow> token_bucket \<Rightarrow> real \<times> token_bucket" where
  "seconds_until_available now n b =
     (let (av, b1) = available_tokens now b;
          deficit = max (n - av) 0
      in (deficit / refill_rate b1, b1))"

datatype tb_event = TryAcquire real | Return real | Query

text \<open>
  One step of the bucket at an instant: the amount granted, the amount handed
  back and the new state.
\<close>
fun tb_step :: "instant \<Rightarrow> tb_event \<Rightarrow> token_bucket \<Rightarrow> real \<times> real \<times> token_bucket" where
  "tb_step now (TryAcquire n) b = (let (ok, b') = try_acquire now n b in (if ok then n else 0, 0, b'))"
| "tb_step now (Return n) b = (0, n, return_tokens n b)"
| "tb_step now Query b = (0, 0, snd (available_tokens now b))"

fun tb_run :: "(instant \<times> tb_event) list \<Rightarrow> token_bucket \<Rightarrow> real \<times> real \<times> token_bucket" where
  "tb_run [] b = (0, 0, b)"
| "tb_run ((now, e) # es) b =
     (let (g, h, b') = tb_step now e b; (g', h', b'') = tb_run es b' in (g + g', h + h', b''))"

fun ev_ok :: "tb_event \<Rightarrow> bool" where
  "ev_ok (TryAcquire n) = (0 \<le> n)"
| "ev_ok (Return n) = (0 \<le> n)"
| "ev_ok Query = True"

section \<open>Invariant and rate bound\<close>

definition tb_inv :: "token_bucket \<Rightarrow> bool" where
  "tb_inv b \<longleftrightarrow> 0 \<le> tokens b \<and> tokens b \<le> capacity b \<and> 0 < refill_rate b"

lemma as_secs_nonneg [simp]: "0 \<le> as_secs d"
  by (simp add: as_secs_def)

lemma tb_inv_new: "tb_inv (tb_new now cap rate)"
  by (simp add: tb_inv_def tb_new_def Let_def)

lemma refill_fields [simp]:
  "capacity (refill now b) = capacity b" "refill_rate (refill now b) = refill_rate b"
  "last_refill (refill now b) = now"
  "tokens (refill now b) = min (tokens b + as_secs (now - last_refill b) * refill_rate b) (capacity b)"
  by (simp_all add: refill_def Let_def)

lemma tb_inv_refill [inv_intros]: "tb_inv b \<Longrightarrow> tb_inv (refill now b)"
  by (auto simp: tb_inv_def intro!: add_nonneg_nonneg mult_nonneg_nonneg)

lemma tb_inv_try_acquire [inv_intros]:
  assumes "tb_inv b" "0 \<le> n"
  shows "tb_inv (snd (try_acquire now n b))"
  using tb_inv_refill [OF assms(1), of now] assms(2)
  by (auto simp: try_acquire_def Let_def tb_inv_def simp del: refill_fields(4))

lemma tb_inv_return [inv_intros]: "tb_inv b \<Longrightarrow> 0 \<le> n \<Longrightarrow> tb_inv (return_tokens n b)"
  by (auto simp: tb_inv_def return_tokens_def)

lemma tb_inv_step: "tb_inv b \<Longrightarrow> ev_ok e \<Longrightarrow> tb_inv (snd (snd (tb_step now e b)))"
  by (cases e)
    (auto simp: available_tokens_def Let_def split: prod.splits
      intro: tb_inv_refill tb_inv_return dest: tb_inv_try_acquire [of _ _ now])

lemma refill_bound:
  "tb_inv b \<Longrightarrow> last_refill b \<le> now \<Longrightarrow>
     tokens (refill now b) \<le> tokens b + refill_rate b * (as_secs now - as_secs (last_refill b))"
  by (auto simp: as_secs_def of_nat_diff min_le_iff_disj diff_divide_distrib algebra_simps)

lemma tb_step_bound:
  assumes "tb_inv b" "ev_ok e" "last_refill b \<le> now" "tb_step now e b = (g, h, b')"
  shows "g + tokens b' \<le> tokens b + h + refill_rate b * (as_secs (last_refill b') - as_secs (last_refill b))
       \<and> refill_rate b' = refill_rate b \<and> capacity b' = capacity b
       \<and> last_refill b \<le> last_refill b' \<and> last_refill b' \<le> now"
proof (cases e)
  case (TryAcquire n)
  then show ?thesis
    using assms refill_bound [OF assms(1,3)]
    by (auto simp: try_acquire_def Let_def simp del: refill_fields(4) split: if_splits)
next
  case (Return n)
  then show ?thesis using assms by (auto simp: return_tokens_def)
next
  case Query
  then show ?thesis
    using assms refill_bound [OF assms(1,3)]
    by (auto simp: available_tokens_def Let_def simp del: refill_fields(4))
qed

definition times_ok :: "instant \<Rightarrow> (instant \<times> tb_event) list \<Rightarrow> bool" where
  "times_ok t0 es \<longleftrightarrow> sorted (t0 # map fst es) \<and> list_all (\<lambda>e. ev_ok (snd e)) es"

lemma tb_run_bound:
  assumes "tb_inv b" "last_refill b \<le> t0" "times_ok t0 es" "tb_run es b = (g, h, b')"
  shows "tb_inv b' \<and> refill_rate b' = refill_rate b \<and> last_refill b \<le> last_refill b'
       \<and> last_refill b' \<le> last (t0 # map fst es)
       \<and> g + tokens b' \<le> tokens b + h + refill_rate b * (as_secs (last_refill b') - as_secs (last_refill b))"
  using assms
proof (induction es arbitrary: b t0 g h)
  case Nil
  then show ?case by simp
next
  case (Cons te es)
  obtain now e where te: "te = (now, e)" by force
  obtain g1 h1 b1 where s: "tb_step now e b = (g1, h1, b1)" by (metis prod_cases3)
  obtain g2 h2 where r: "tb_run es b1 = (g2, h2, b')" "g = g1 + g2" "h = h1 + h2"
    using Cons.prems(4) s by (auto simp: te split: prod.splits)
  have ok: "ev_ok e" "t0 \<le> now" "times_ok now es"
    using Cons.prems(3) by (auto simp: te times_ok_def)
  have inv1: "tb_inv b1" using tb_inv_step [OF Cons.prems(1) ok(1), of now] s by simp
  have "last_refill b \<le> now" using Cons.prems(2) ok(2) by simp
  note st = tb_step_bound [OF Cons.prems(1) ok(1) this s]
  have IH: "tb_inv b' \<and> refill_rate b' = refill_rate b1 \<and> last_refill b1 \<le> last_refill b'
       \<and> last_refill b' \<le> last (now # map fst es)
       \<and> g2 + tokens b' \<le> tokens b1 + h2 + refill_rate b1 * (as_secs (last_refill b') - as_secs (last_refill b1))"
    using Cons.IH [OF inv1 _ ok(3) r(1)] st by blast
  have "refill_rate b * (as_secs (last_refill b1) - as_secs (last_refill b))
      + refill_rate b * (as_secs (last_refill b') - as_secs (last_refill b1))
      = refill_rate b * (as_secs (last_refill b') - as_secs (last_refill b))"
    by (simp add: algebra_simps)
  with IH st r show ?case by (auto simp: te)
qed

text \<open>
  C35: The rate limit.  Over any sequence of acquisitions, returns and queries
  with a clock that does not go back, what the bucket grants is at most its
  capacity, plus what was handed back, plus the refill rate times the time
  elapsed; and the level stays between zero and the capacity.
\<close>
theorem token_bucket_rate_limit:
  assumes "times_ok t0 es" and "tb_run es (tb_new t0 cap rate) = (granted, returned, b)"
  shows "granted \<le> real cap + returned
           + max 1 (real rate) * (as_secs (last (t0 # map fst es)) - as_secs t0)
       \<and> 0 \<le> tokens b \<and> tokens b \<le> capacity b"
proof -
  let ?b0 = "tb_new t0 cap rate" and ?r = "max 1 (real rate)" and ?T = "last (t0 # map fst es)"
  have f: "last_refill ?b0 = t0" "tokens ?b0 = real cap" "refill_rate ?b0 = ?r"
    by (auto simp: tb_new_def Let_def max_def)
  note run = tb_run_bound [OF tb_inv_new _ assms, unfolded f]
  have "as_secs (last_refill b) \<le> as_secs ?T"
    using run by (simp add: as_secs_def divide_right_mono)
  then have "?r * (as_secs (last_refill b) - as_secs t0) \<le> ?r * (as_secs ?T - as_secs t0)"
    by (intro mult_left_mono) auto
  moreover have "0 \<le> tokens b" "tokens b \<le> capacity b" using run by (auto simp: tb_inv_def)
  moreover have "granted + tokens b \<le> real cap + returned + ?r * (as_secs (last_refill b) - as_secs t0)"
    using run by blast
  ultimately show ?thesis by linarith
qed

theorem token_bucket_rate_limit_witness:
  "(let (granted, returned, b) =
      tb_run [(0, TryAcquire 1), (0, TryAcquire 1), (10 ^ 9, TryAcquire 1)] (tb_new 0 1 1)
    in granted \<le> 1 + returned + 1) = True"
  using token_bucket_rate_limit [of 0 "[(0, TryAcquire 1), (0, TryAcquire 1), (10 ^ 9, TryAcquire 1)]" 1 1]
  by (auto simp: times_ok_def as_secs_def split: prod.split)

text \<open>
  The retry hint is exact.  If nothing else uses the bucket, an acquisition
  of an amount within the capacity succeeds at a later instant exactly when at
  least the announced number of seconds has passed.
\<close>
theorem seconds_until_available_exact:
  assumes "tb_inv b" and "n \<le> capacity b" and "now \<le> t"
  shows "fst (try_acquire t n (snd (seconds_until_available now n b)))
       = (fst (seconds_until_available now n b) \<le> as_secs t - as_secs now)"
proof -
  let ?b = "refill now b"
  have rate: "0 < refill_rate b" using assms(1) by (simp add: tb_inv_def)
  have nonneg: "0 \<le> as_secs (t - now) * refill_rate b" using rate by simp
  have e: "as_secs (t - now) = as_secs t - as_secs now"
    using assms(3) by (simp add: as_secs_def of_nat_diff diff_divide_distrib)
  have "fst (try_acquire t n ?b) \<longleftrightarrow> n - tokens ?b \<le> as_secs (t - now) * refill_rate b"
    using assms(2) by (auto simp: try_acquire_def Let_def simp del: refill_fields(4)
        simp: refill_fields(4) [of t])
  also have "\<dots> \<longleftrightarrow> max (n - tokens ?b) 0 \<le> as_secs (t - now) * refill_rate b"
    using nonneg by (simp only: max.bounded_iff simp_thms)
  also have "\<dots> \<longleftrightarrow> max (n - tokens ?b) 0 / refill_rate b \<le> as_secs (t - now)"
    using rate by (simp only: pos_divide_le_eq)
  finally show ?thesis
    by (simp add: seconds_until_available_def available_tokens_def Let_def e del: refill_fields(4))
qed

theorem seconds_until_available_exact_witness:
  "fst (try_acquire (10 ^ 9) 1 (snd (seconds_until_available 0 1 ((tb_new 0 1 1)\<lparr>tokens := 0\<rparr>))))"
  using seconds_until_available_exact [of "(tb_new 0 1 1)\<lparr>tokens := 0\<rparr>" 1 0 "10 ^ 9"]
  by (simp add: tb_inv_def tb_new_def Let_def seconds_until_available_def available_tokens_def as_secs_def)

end
