(* ===== verification/Radix_Node.thy ===== *)
theory Radix_Node
  imports Rust_Str
begin

text \<open>
  The nodes of the multi-tenant radix tree of \<^verbatim>\<open>tree.rs\<close> and the two walks through
  them: insertion and prefix matching.

  A node owns its children, so a tree of nodes is a tree of values; the parent
  pointer is the path by which a node is reached.  Text is the list of its
  characters (code points).  The children and the tenants of a node are concurrent
  hash maps; they are association lists whose order stands for the iteration order
  of the map, which no result depends on.  Each operation is one step.

  \<open>tenant_match\<close> is the walk of \<^verbatim>\<open>prefix_match_tenant_state\<close>: how many characters of
  a text the tenant shares with the texts stored for it.  The lemmas relate the
  insertion walk to it: afterwards the tenant matches as much of any text as it did
  before or as it shares with the inserted text, whichever is more, and the other
  tenants match what they did.
\<close>

section \<open>Nodes\<close>

type_synonym chars = "nat list"
type_synonym tenant_id = str

datatype node = Node
  (node_text: chars)
  (tenants: "(tenant_id \<times> u64) list")
  (last_tenant: "tenant_id option")
  (children: "(nat \<times> node) list")

definition tenant_set :: "node \<Rightarrow> tenant_id set" where
  "tenant_set nd = fst ` set (tenants nd)"

definition has_tenant :: "tenant_id \<Rightarrow> node \<Rightarrow> bool" where
  "has_tenant t nd = (map_of (tenants nd) t \<noteq> None)"

definition child :: "node \<Rightarrow> nat \<Rightarrow> node option" where
  "child nd c = map_of (children nd) c"

definition set_tenant :: "tenant_id \<Rightarrow> u64 \<Rightarrow> node \<Rightarrow> node" where
  "set_tenant t e nd = (case nd of Node x ts l cs \<Rightarrow> Node x (AList.update t e ts) l cs)"

definition set_child :: "nat \<Rightarrow> node \<Rightarrow> node \<Rightarrow> node" where
  "set_child c ch nd = (case nd of Node x ts l cs \<Rightarrow> Node x ts l (AList.update c ch cs))"

definition set_text :: "chars \<Rightarrow> node \<Rightarrow> node" where
  "set_text y nd = (case nd of Node x ts l cs \<Rightarrow> Node y ts l cs)"

definition set_last :: "tenant_id \<Rightarrow> node \<Rightarrow> node" where
  "set_last t nd = (case nd of Node x ts l cs \<Rightarrow> Node x ts (Some t) cs)"

fun shared_prefix_count_chars :: "chars \<Rightarrow> chars \<Rightarrow> nat" where
  "shared_prefix_count_chars (a # as) (b # bs) =
     (if a = b then Suc (shared_prefix_count_chars as bs) else 0)"
| "shared_prefix_count_chars _ _ = 0"

abbreviation lcp :: "chars \<Rightarrow> chars \<Rightarrow> nat" where
  "lcp \<equiv> shared_prefix_count_chars"

definition split_at_char :: "nat \<Rightarrow> chars \<Rightarrow> chars \<times> chars" where
  "split_at_char i x =
     (if i = 0 then ([], x) else if length x \<le> i then (x, []) else (take i x, drop i x))"

section \<open>Facts about common prefixes\<close>

lemma lcp_Nil [simp]: "lcp xs [] = 0" "lcp [] ys = 0"
  by (cases xs; simp)+

lemma lcp_le: "lcp xs ys \<le> length xs" "lcp xs ys \<le> length ys"
  by (induction xs ys rule: shared_prefix_count_chars.induct) auto

lemma lcp_commute: "lcp xs ys = lcp ys xs"
  by (induction xs ys rule: shared_prefix_count_chars.induct) auto

lemma lcp_take: "take (lcp xs ys) xs = take (lcp xs ys) ys"
  by (induction xs ys rule: shared_prefix_count_chars.induct) auto

lemma lcp_append [simp]: "lcp (p @ xs) (p @ ys) = length p + lcp xs ys"
  by (induction p) auto

lemma lcp_self_append [simp]: "lcp p (p @ ys) = length p" "lcp (p @ ys) p = length p"
  using lcp_append [of p "[]" ys] lcp_append [of p ys "[]"] by simp_all

lemma lcp_full_iff: "lcp xs ys = length ys \<longleftrightarrow> (\<exists>r. xs = ys @ r)"
proof
  assume "lcp xs ys = length ys"
  then have "take (length ys) xs = ys" using lcp_take [of xs ys] by simp
  then show "\<exists>r. xs = ys @ r" by (metis append_take_drop_id)
qed auto

lemma lcp_diff:
  "lcp xs ys < length xs \<Longrightarrow> lcp xs ys < length ys \<Longrightarrow> xs ! lcp xs ys \<noteq> ys ! lcp xs ys"
  by (induction xs ys rule: shared_prefix_count_chars.induct) auto

lemma lcp_pos: "xs \<noteq> [] \<Longrightarrow> ys \<noteq> [] \<Longrightarrow> hd xs = hd ys \<Longrightarrow> 0 < lcp xs ys"
  by (cases xs; cases ys) auto

lemma lcp_hd_neq: "xs \<noteq> [] \<Longrightarrow> ys \<noteq> [] \<Longrightarrow> hd xs \<noteq> hd ys \<Longrightarrow> lcp xs ys = 0"
  by (cases xs; cases ys) auto

lemma lcp_short:
  assumes "lcp x p < length p"
  shows "lcp x (p @ ys) = lcp x p"
  using assms by (induction x p rule: shared_prefix_count_chars.induct) (auto simp: lcp_commute)

section \<open>The walks\<close>

fun node_count :: "node \<Rightarrow> nat" where
  "node_count (Node x ts l cs) = Suc (sum_list (map (\<lambda>e. node_count (snd e)) cs))"

lemma node_count_child: "child nd c = Some ch \<Longrightarrow> node_count ch < node_count nd"
proof (cases nd)
  case (Node x ts l cs)
  assume "child nd c = Some ch"
  then have "(c, ch) \<in> set cs" by (auto simp: child_def Node dest: map_of_SomeD)
  then have "node_count ch \<le> sum_list (map (\<lambda>e. node_count (snd e)) cs)"
    by (intro member_le_sum_list) force+
  then show ?thesis by (simp add: Node)
qed

definition split_node :: "tenant_id \<Rightarrow> nat \<Rightarrow> node \<Rightarrow> node" where
  "split_node t shared_count matched =
     (let (matched_text, contracted_text) = split_at_char shared_count (node_text matched);
          new_node = Node matched_text (tenants matched) (last_tenant matched)
                       [(hd contracted_text, set_text contracted_text matched)]
      in if has_tenant t new_node then new_node else set_tenant t 0 new_node)"

definition enter_node :: "tenant_id \<Rightarrow> node \<Rightarrow> node" where
  "enter_node t matched = (if has_tenant t matched then matched else set_tenant t 0 matched)"

function insert_walk :: "tenant_id \<Rightarrow> u64 \<Rightarrow> chars \<Rightarrow> node \<Rightarrow> node \<times> nat" where
  "insert_walk t epoch remaining prev =
     (if remaining = [] then (set_tenant t epoch prev, 0)
      else
        let first_char = hd remaining in
        case child prev first_char of
          None \<Rightarrow>
            (set_child first_char (Node remaining [(t, epoch)] (Some t) []) prev, length remaining)
        | Some matched \<Rightarrow>
            let shared_count = lcp remaining (node_text matched) in
            if shared_count < length (node_text matched) then
              let added = (if has_tenant t matched then 0 else shared_count);
                  (next_prev, more) = insert_walk t epoch (drop shared_count remaining)
                                        (split_node t shared_count matched)
              in (set_child first_char next_prev prev, added + more)
            else
              let added = (if has_tenant t matched then 0 else length (node_text matched));
                  (next_prev, more) = insert_walk t epoch (drop shared_count remaining)
                                        (enter_node t matched)
              in (set_child first_char next_prev prev, added + more))"
  by pat_completeness auto

definition will_split :: "chars \<Rightarrow> node \<Rightarrow> nat" where
  "will_split remaining prev =
     (if remaining = [] then 0
      else case child prev (hd remaining) of
             None \<Rightarrow> 0
           | Some m \<Rightarrow> if lcp remaining (node_text m) < length (node_text m) then 1 else 0)"

lemma node_count_simps [simp]:
  "node_count (set_tenant t e nd) = node_count nd" "node_count (set_text y nd) = node_count nd"
  "node_count (enter_node t nd) = node_count nd"
  by (cases nd; simp add: set_tenant_def set_text_def enter_node_def)+

lemma node_count_split [simp]: "node_count (split_node t k m) = Suc (node_count m)"
  by (auto simp: split_node_def Let_def split: prod.split)

lemma child_set_tenant [simp]: "child (set_tenant t e nd) = child nd" "children (set_tenant t e nd) = children nd"
  by (cases nd; simp add: child_def set_tenant_def fun_eq_iff)+

lemma split_at_char_less: "k < length x \<Longrightarrow> split_at_char k x = (take k x, drop k x)"
  by (simp add: split_at_char_def)

lemma child_split_node:
  assumes "k < length (node_text m)"
  shows "child (split_node t k m) c =
     (if c = node_text m ! k then Some (set_text (drop k (node_text m)) m) else None)"
  using assms by (auto simp: split_node_def split_at_char_less Let_def child_def hd_drop_conv_nth)

lemma will_split_split_node:
  assumes "lcp remaining (node_text m) < length (node_text m)"
  shows "will_split (drop (lcp remaining (node_text m)) remaining)
           (split_node t (lcp remaining (node_text m)) m) = 0"
  using lcp_diff [OF _ assms] assms
  by (auto simp: will_split_def child_split_node hd_drop_conv_nth not_le split: option.splits)

termination insert_walk
proof (relation "measure (\<lambda>(t, epoch, remaining, prev). 2 * node_count prev + will_split remaining prev)", goal_cases)
  case 1
  show ?case by simp
next
  case (2 t epoch remaining prev c m k added)
  then have "node_count m < node_count prev" by (auto intro: node_count_child)
  moreover have "will_split remaining prev = 1" using 2 by (simp add: will_split_def)
  ultimately show ?case using 2 by (simp add: will_split_split_node)
next
  case (3 t epoch remaining prev c m k added)
  then have "node_count m < node_count prev" by (auto intro: node_count_child)
  moreover have "will_split (drop k remaining) (enter_node t m) \<le> 1"
    by (simp add: will_split_def split: option.split)
  ultimately show ?case by simp
qed

declare insert_walk.simps [simp del]

function tenant_match :: "tenant_id \<Rightarrow> chars \<Rightarrow> node \<Rightarrow> nat" where
  "tenant_match t remaining previous =
     (if remaining = [] then 0
      else case child previous (hd remaining) of
             None \<Rightarrow> 0
           | Some matched \<Rightarrow>
               if \<not> has_tenant t matched then 0
               else
                 let shared_chars = lcp remaining (node_text matched) in
                 if shared_chars \<noteq> length (node_text matched) then shared_chars
                 else shared_chars + tenant_match t (drop shared_chars remaining) matched)"
  by pat_completeness auto
termination
  by (relation "measure (\<lambda>(t, remaining, previous). node_count previous)") (auto intro: node_count_child)

declare tenant_match.simps [simp del]

section \<open>Well-formed nodes\<close>

fun wf_node :: "node \<Rightarrow> bool" where
  "wf_node (Node x ts l cs) \<longleftrightarrow>
     distinct (map fst ts) \<and> distinct (map fst cs) \<and>
     (\<forall>e\<in>set cs. node_text (snd e) \<noteq> [] \<and> hd (node_text (snd e)) = fst e \<and> tenants (snd e) \<noteq> [] \<and>
        fst ` set (tenants (snd e)) \<subseteq> fst ` set ts \<and> wf_node (snd e))"

fun used_size :: "tenant_id \<Rightarrow> node \<Rightarrow> nat" where
  "used_size t (Node x ts l cs) =
     (if t \<in> fst ` set ts then length x else 0) + sum_list (map (\<lambda>e. used_size t (snd e)) cs)"

lemma has_tenant_iff: "has_tenant t nd \<longleftrightarrow> t \<in> tenant_set nd"
  by (auto simp: has_tenant_def tenant_set_def map_of_eq_None_iff)

lemma set_update_subset: "set (AList.update k v al) \<subseteq> insert (k, v) (set al)"
  by (induction al) auto

lemma node_fields [simp]:
  "node_text (set_tenant t e nd) = node_text nd" "tenant_set (set_tenant t e nd) = insert t (tenant_set nd)"
  "last_tenant (set_tenant t e nd) = last_tenant nd"
  "node_text (set_child c ch nd) = node_text nd" "tenant_set (set_child c ch nd) = tenant_set nd"
  "tenants (set_child c ch nd) = tenants nd"
  "node_text (set_text y nd) = y" "tenant_set (set_text y nd) = tenant_set nd" "children (set_text y nd) = children nd"
  "tenants (set_text y nd) = tenants nd"
  by (cases nd; simp add: set_tenant_def set_child_def set_text_def tenant_set_def dom_update)+

lemma child_set_child [simp]: "child (set_child c ch nd) = (child nd)(c \<mapsto> ch)"
  by (cases nd) (simp add: child_def set_child_def update_conv' fun_eq_iff)

lemma child_set_text [simp]: "child (set_text y nd) = child nd"
  by (simp add: child_def fun_eq_iff)

lemma wf_node_alt:
  "wf_node nd \<longleftrightarrow> distinct (map fst (tenants nd)) \<and> distinct (map fst (children nd)) \<and>
     (\<forall>c ch. child nd c = Some ch \<longrightarrow> node_text ch \<noteq> [] \<and> hd (node_text ch) = c \<and> tenants ch \<noteq> [] \<and>
        tenant_set ch \<subseteq> tenant_set nd \<and> wf_node ch)"
proof (cases nd)
  case (Node x ts l cs)
  let ?P = "\<lambda>c ch. node_text ch \<noteq> [] \<and> hd (node_text ch) = c \<and> tenants ch \<noteq> [] \<and>
      fst ` set (tenants ch) \<subseteq> fst ` set ts \<and> wf_node ch"
  have "(\<forall>e\<in>set cs. ?P (fst e) (snd e)) \<longleftrightarrow> (\<forall>c ch. map_of cs c = Some ch \<longrightarrow> ?P c ch)"
    if "distinct (map fst cs)"
    using that by (simp add: Ball_def split_paired_All)
  then show ?thesis unfolding Node wf_node.simps by (simp only: child_def tenant_set_def node.sel) blast
qed

lemma wf_childD:
  assumes "wf_node nd" "child nd c = Some ch"
  shows "node_text ch \<noteq> []" "hd (node_text ch) = c" "tenants ch \<noteq> []" "tenant_set ch \<subseteq> tenant_set nd" "wf_node ch"
  using assms by (auto simp: wf_node_alt [of nd])

lemma wf_set_child [inv_intros]:
  assumes "wf_node nd" "wf_node ch" "node_text ch \<noteq> []" "hd (node_text ch) = c" "tenants ch \<noteq> []"
    "tenant_set ch \<subseteq> tenant_set nd"
  shows "wf_node (set_child c ch nd)"
proof -
  have "distinct (map fst (children (set_child c ch nd)))"
    using assms(1) by (cases nd) (simp add: set_child_def distinct_update)
  then show ?thesis using assms by (auto simp: wf_node_alt [of "set_child c ch nd"] wf_node_alt [of nd])
qed

lemma wf_set_tenant [inv_intros]: "wf_node nd \<Longrightarrow> wf_node (set_tenant t e nd)"
proof -
  assume "wf_node nd"
  moreover have "distinct (map fst (tenants nd)) \<Longrightarrow> distinct (map fst (tenants (set_tenant t e nd)))"
    by (cases nd) (simp add: set_tenant_def distinct_update)
  ultimately show ?thesis by (auto simp: wf_node_alt [of "set_tenant t e nd"] wf_node_alt [of nd])
qed

lemma wf_set_text [inv_intros]: "wf_node nd \<Longrightarrow> wf_node (set_text y nd)"
  by (simp add: wf_node_alt [of "set_text y nd"] wf_node_alt [of nd])

lemma tenants_Nil_iff: "tenants nd = [] \<longleftrightarrow> tenant_set nd = {}"
  by (simp add: tenant_set_def)

section \<open>Matching through a child\<close>

definition match_via :: "tenant_id \<Rightarrow> chars \<Rightarrow> node \<Rightarrow> nat" where
  "match_via t x ch =
     (if t \<notin> tenant_set ch then 0
      else let k = lcp x (node_text ch) in
           if k \<noteq> length (node_text ch) then k else k + tenant_match t (drop k x) ch)"

lemma tenant_match_via:
  "tenant_match t x nd = (if x = [] then 0 else case child nd (hd x) of None \<Rightarrow> 0 | Some ch \<Rightarrow> match_via t x ch)"
  by (subst tenant_match.simps) (simp add: match_via_def has_tenant_iff split: option.split)

lemma tenant_match_Nil [simp]: "tenant_match t [] nd = 0"
  by (simp add: tenant_match_via)

lemma tenant_match_child_eq: "child nd = child nd' \<Longrightarrow> tenant_match t x nd = tenant_match t x nd'"
  by (simp add: tenant_match_via [of t x nd] tenant_match_via [of t x nd'])

lemma tenant_match_set_tenant [simp]: "tenant_match t x (set_tenant t' e nd) = tenant_match t x nd"
  by (rule tenant_match_child_eq) simp

lemma tenant_match_set_text [simp]: "tenant_match t x (set_text y nd) = tenant_match t x nd"
  by (rule tenant_match_child_eq) simp

lemma tenant_match_set_child:
  "tenant_match t x (set_child c ch nd) =
     (if x \<noteq> [] \<and> hd x = c then match_via t x ch else tenant_match t x nd)"
  by (simp add: tenant_match_via [of _ _ nd] tenant_match_via [of _ _ "set_child c ch nd"])

lemma tenant_match_absent:
  assumes "wf_node nd" "t \<notin> tenant_set nd"
  shows "tenant_match t x nd = 0"
  using wf_childD(4) [OF assms(1)] assms(2)
  by (auto simp: tenant_match_via match_via_def split: option.split)

lemma match_via_le: "match_via t x ch \<le> length x"
proof (induction "node_count ch" arbitrary: ch x rule: less_induct)
  case less
  let ?k = "lcp x (node_text ch)"
  have "tenant_match t (drop ?k x) ch \<le> length (drop ?k x)"
  proof (cases "child ch (hd (drop ?k x))")
    case (Some ch')
    then show ?thesis using less.hyps [OF node_count_child [OF Some], of "drop ?k x"] by (simp add: tenant_match_via)
  qed (simp add: tenant_match_via)
  then show ?case using lcp_le [of x "node_text ch"] by (auto simp: match_via_def Let_def)
qed

section \<open>Splitting and entering a node\<close>

lemma enter_node_facts:
  "node_text (enter_node t m) = node_text m" "tenant_set (enter_node t m) = insert t (tenant_set m)"
  "tenant_match t' x (enter_node t m) = tenant_match t' x m" "wf_node m \<Longrightarrow> wf_node (enter_node t m)"
  by (auto simp: enter_node_def has_tenant_iff wf_set_tenant)

lemma match_via_enter:
  assumes "wf_node m"
  shows "match_via t' x (enter_node t m) =
     (if t' = t \<and> t \<notin> tenant_set m then lcp x (node_text m) else match_via t' x m)"
  using tenant_match_absent [OF assms]
  by (auto simp: match_via_def enter_node_facts Let_def)

lemma split_node_facts:
  assumes "k < length (node_text m)"
  shows "node_text (split_node t k m) = take k (node_text m)"
    and "tenant_set (split_node t k m) = insert t (tenant_set m)"
  using assms by (auto simp: split_node_def split_at_char_less Let_def tenant_set_def has_tenant_def set_tenant_def
      dom_update dest: map_of_SomeD) (force dest: map_of_SomeD)

lemma wf_split_node:
  assumes "wf_node m" "0 < k" "k < length (node_text m)" "tenants m \<noteq> []"
  shows "wf_node (split_node t k m)"
proof -
  let ?nn = "Node (take k (node_text m)) (tenants m) (last_tenant m)
      [(hd (drop k (node_text m)), set_text (drop k (node_text m)) m)]"
  have "wf_node ?nn" using assms wf_set_text [OF assms(1)] by (auto simp: wf_node_alt [of m])
  moreover have "split_node t k m = (if has_tenant t ?nn then ?nn else set_tenant t 0 ?nn)"
    using assms(3) by (simp add: split_node_def split_at_char_less)
  ultimately show ?thesis by (auto intro: wf_set_tenant)
qed

lemma match_via_split:
  assumes "wf_node m" "k < length (node_text m)"
  shows "match_via t' x (split_node t k m) =
     (if t' = t \<and> t \<notin> tenant_set m then lcp x (take k (node_text m)) else match_via t' x m)"
proof -
  let ?p = "take k (node_text m)" and ?s = "drop k (node_text m)"
  let ?nn = "split_node t k m"
  have whole: "node_text m = ?p @ ?s" and s: "?s \<noteq> []" "hd ?s = node_text m ! k"
    using assms(2) by (simp_all add: hd_drop_conv_nth)
  have len: "length ?p = k" using assms(2) by simp
  have inner: "tenant_match t' r ?nn = (if t' \<notin> tenant_set m then 0 else
      let j = lcp r ?s in if j \<noteq> length ?s then j else j + tenant_match t' (drop j r) m)" for r
  proof (cases "r = []")
    case True
    then show ?thesis using s by (simp add: Let_def)
  next
    case False
    show ?thesis
    proof (cases "hd r = hd ?s")
      case True
      then show ?thesis using False s assms(2)
        by (simp add: tenant_match_via [of _ _ ?nn] child_split_node match_via_def Let_def)
    next
      case neq: False
      then have "lcp r ?s = 0" using False s(1) by (simp add: lcp_hd_neq)
      then show ?thesis using False neq s assms(2)
        by (simp add: tenant_match_via [of _ _ ?nn] child_split_node Let_def)
    qed
  qed
  show ?thesis
  proof (cases "lcp x ?p = length ?p")
    case False
    then have l: "lcp x ?p < length ?p" using lcp_le [of x ?p] by linarith
    then have "lcp x (node_text m) = lcp x ?p" using lcp_short [of x ?p ?s] whole by simp
    moreover have "lcp x ?p < length (node_text m)" using l len assms(2) by linarith
    ultimately show ?thesis
      using False by (auto simp: match_via_def split_node_facts [OF assms(2)] Let_def)
  next
    case True
    then obtain r where r: "x = ?p @ r" using lcp_full_iff by blast
    have lx: "lcp x (node_text m) = k + lcp r ?s" using r whole len by (metis lcp_append)
    have "match_via t' x ?nn = (if t' \<notin> insert t (tenant_set m) then 0 else k + tenant_match t' r ?nn)"
      using r len by (auto simp: match_via_def split_node_facts [OF assms(2)] Let_def)
    moreover have "match_via t' x m = (if t' \<notin> tenant_set m then 0 else
        k + (let j = lcp r ?s in if j \<noteq> length ?s then j else j + tenant_match t' (drop j r) m))"
      using r len lx assms(2) by (auto simp: match_via_def Let_def add.commute)
    ultimately show ?thesis using inner [of r] r len by auto
  qed
qed

lemma used_size_set_tenant: 
  "used_size t' (set_tenant t e nd) =
     used_size t' nd + (if t' = t \<and> t \<notin> tenant_set nd then length (node_text nd) else 0)"
  by (cases nd) (auto simp: set_tenant_def tenant_set_def dom_update)

lemma used_size_split:
  assumes "k < length (node_text m)"
  shows "used_size t' (split_node t k m) =
     used_size t' m + (if t' = t \<and> t \<notin> tenant_set m then k else 0)"
proof -
  let ?nn = "Node (take k (node_text m)) (tenants m) (last_tenant m)
      [(hd (drop k (node_text m)), set_text (drop k (node_text m)) m)]"
  have "used_size t' ?nn = used_size t' m"
    using assms by (cases m) (auto simp: set_text_def)
  moreover have "split_node t k m = (if t \<in> tenant_set m then ?nn else set_tenant t 0 ?nn)"
    using assms by (simp add: split_node_def split_at_char_less has_tenant_iff tenant_set_def)
  ultimately show ?thesis
    using assms by (auto simp: used_size_set_tenant tenant_set_def)
qed

lemma used_size_enter:
  "used_size t' (enter_node t m) =
     used_size t' m + (if t' = t \<and> t \<notin> tenant_set m then length (node_text m) else 0)"
  by (auto simp: enter_node_def has_tenant_iff used_size_set_tenant)

lemma sum_list_update:
  fixes f :: "'b \<Rightarrow> nat"
  assumes "distinct (map fst al)"
  shows "sum_list (map (\<lambda>e. f (snd e)) (AList.update k v al)) + (case map_of al k of None \<Rightarrow> 0 | Some w \<Rightarrow> f w) =
         sum_list (map (\<lambda>e. f (snd e)) al) + f v"
  using assms by (induction al) (auto simp: map_of_eq_None_iff split: option.splits)

lemma used_size_set_child:
  assumes "wf_node nd"
  shows "used_size t (set_child c ch nd) + (case child nd c of None \<Rightarrow> 0 | Some m \<Rightarrow> used_size t m) =
         used_size t nd + used_size t ch"
proof (cases nd)
  case (Node x ts l cs)
  then show ?thesis
    using assms sum_list_update [of cs "used_size t" c ch] by (simp add: set_child_def child_def)
qed

section \<open>The effect of an insertion\<close>

definition inserted :: "tenant_id \<Rightarrow> chars \<Rightarrow> node \<Rightarrow> node \<times> nat \<Rightarrow> bool" where
  "inserted t y nd r \<longleftrightarrow>
     wf_node (fst r) \<and> node_text (fst r) = node_text nd \<and> tenant_set (fst r) = tenant_set nd \<and>
     (\<forall>x. tenant_match t x (fst r) = max (tenant_match t x nd) (lcp y x)) \<and>
     (\<forall>t' x. t' \<noteq> t \<longrightarrow> tenant_match t' x (fst r) = tenant_match t' x nd) \<and>
     used_size t (fst r) = used_size t nd + snd r \<and>
     (\<forall>t'. t' \<noteq> t \<longrightarrow> used_size t' (fst r) = used_size t' nd)"

text \<open>The node that takes the place of a child on the way of an insertion.\<close>

definition prepared :: "tenant_id \<Rightarrow> node \<Rightarrow> node \<Rightarrow> nat \<Rightarrow> bool" where
  "prepared t m mid added \<longleftrightarrow>
     wf_node mid \<and> tenant_set mid = insert t (tenant_set m) \<and> node_text mid \<noteq> [] \<and>
     hd (node_text mid) = hd (node_text m) \<and>
     (\<forall>x. match_via t x mid = max (match_via t x m) (lcp x (node_text mid))) \<and>
     (\<forall>t' x. t' \<noteq> t \<longrightarrow> match_via t' x mid = match_via t' x m) \<and>
     used_size t mid = used_size t m + added \<and>
     (\<forall>t'. t' \<noteq> t \<longrightarrow> used_size t' mid = used_size t' m)"

lemma match_via_ge: "t \<in> tenant_set m \<Longrightarrow> lcp x (node_text m) \<le> match_via t x m"
  by (simp add: match_via_def Let_def)

lemma lcp_take_le: "lcp x (take k y) \<le> lcp x y"
  by (induction x y arbitrary: k rule: shared_prefix_count_chars.induct) (auto simp: take_Cons split: nat.split)

lemma prepared_split:
  assumes "wf_node m" "tenants m \<noteq> []" "0 < k" "k < length (node_text m)"
  shows "prepared t m (split_node t k m) (if has_tenant t m then 0 else k)"
proof -
  have "t \<in> tenant_set m \<Longrightarrow> lcp x (take k (node_text m)) \<le> match_via t x m" for x
    using match_via_ge lcp_take_le le_trans by blast
  then have "t \<in> tenant_set m \<Longrightarrow> max (match_via t x m) (lcp x (take k (node_text m))) = match_via t x m" for x
    by (simp add: max_absorb1)
  moreover have "hd (take k (node_text m)) = hd (node_text m)" "take k (node_text m) \<noteq> []"
    using assms(3,4) by (cases "node_text m"; simp add: take_Cons split: nat.split)+
  moreover have "t \<notin> tenant_set m \<Longrightarrow> match_via t x m = 0" for x by (simp add: match_via_def)
  ultimately show ?thesis
    using assms wf_split_node [OF assms(1,3,4,2)]
    by (auto simp: prepared_def split_node_facts match_via_split used_size_split has_tenant_iff)
qed

lemma prepared_enter:
  assumes "wf_node m" "node_text m \<noteq> []"
  shows "prepared t m (enter_node t m) (if has_tenant t m then 0 else length (node_text m))"
proof -
  have "t \<in> tenant_set m \<Longrightarrow> max (match_via t x m) (lcp x (node_text m)) = match_via t x m" for x
    by (simp add: match_via_ge max_absorb1)
  moreover have "t \<notin> tenant_set m \<Longrightarrow> match_via t x m = 0" for x by (simp add: match_via_def)
  ultimately show ?thesis
    using assms
    by (auto simp: prepared_def enter_node_facts match_via_enter used_size_enter has_tenant_iff)
qed

lemma match_via_inserted:
  assumes ins: "inserted t r mid res" and t: "t \<in> tenant_set mid"
  shows "match_via t x (fst res) = max (match_via t x mid) (lcp (node_text mid @ r) x)"
    and "t' \<noteq> t \<Longrightarrow> match_via t' x (fst res) = match_via t' x mid"
proof -
  let ?p = "node_text mid" and ?k = "lcp x (node_text mid)"
  show "match_via t x (fst res) = max (match_via t x mid) (lcp (?p @ r) x)"
  proof (cases "?k = length ?p")
    case True
    then obtain y where y: "x = ?p @ y" using lcp_full_iff by blast
    then show ?thesis using ins t by (simp add: inserted_def match_via_def)
  next
    case False
    then have "?k < length ?p" using lcp_le(2) [of x ?p] by linarith
    then have "lcp (?p @ r) x = ?k" using lcp_short [of x ?p r] by (simp add: lcp_commute)
    then show ?thesis using False ins t by (simp add: inserted_def match_via_def Let_def)
  qed
  show "match_via t' x (fst res) = match_via t' x mid" if "t' \<noteq> t"
    using ins that by (simp add: inserted_def match_via_def Let_def)
qed

lemma inserted_step:
  assumes wf: "wf_node nd" "t \<in> tenant_set nd" and m: "child nd (hd y) = Some m"
    and prep: "prepared t m mid added" and y: "y = node_text mid @ r"
    and ins: "inserted t r mid res"
  shows "inserted t y nd (set_child (hd y) (fst res) nd, added + snd res)"
proof -
  have ne: "y \<noteq> []" and hd: "hd y = hd (node_text mid)" using y prep by (auto simp: prepared_def)
  have t: "t \<in> tenant_set mid" using prep by (simp add: prepared_def)
  have sub: "tenant_set (fst res) \<subseteq> tenant_set nd"
    using ins prep wf wf_childD(4) [OF wf(1) m] by (auto simp: inserted_def prepared_def)
  have "wf_node (set_child (hd y) (fst res) nd)"
    using ins prep wf hd sub t
    by (intro wf_set_child) (auto simp: inserted_def prepared_def tenants_Nil_iff)
  moreover have "tenant_match t x (set_child (hd y) (fst res) nd) = max (tenant_match t x nd) (lcp y x)" for x
  proof (cases "x \<noteq> [] \<and> hd x = hd y")
    case True
    have "lcp x (node_text mid) \<le> lcp y x"
      using lcp_take_le [of x "length (node_text mid)" y] y by (simp add: lcp_commute)
    then show ?thesis
      using True m prep match_via_inserted(1) [OF ins t, of x] y
      by (simp add: tenant_match_set_child tenant_match_via [of t x nd] prepared_def)
  next
    case False
    then have "lcp y x = 0" using ne by (metis lcp_Nil(1) lcp_hd_neq)
    then show ?thesis using False by (auto simp: tenant_match_set_child)
  qed
  moreover have "tenant_match t' x (set_child (hd y) (fst res) nd) = tenant_match t' x nd" if "t' \<noteq> t" for t' x
    using m prep match_via_inserted(2) [OF ins t that, of x] that
    by (auto simp: tenant_match_set_child tenant_match_via [of t' x nd] prepared_def)
  moreover have "used_size t' (set_child (hd y) (fst res) nd) = used_size t' nd + (if t' = t then added + snd res else 0)" for t'
    using used_size_set_child [OF wf(1), of t' "hd y" "fst res"] m prep ins
    by (auto simp: prepared_def inserted_def)
  ultimately show ?thesis by (auto simp: inserted_def)
qed

lemma inserted_leaf:
  assumes wf: "wf_node nd" "t \<in> tenant_set nd" and y: "y \<noteq> []" "child nd (hd y) = None"
  shows "inserted t y nd (set_child (hd y) (Node y [(t, e)] (Some t) []) nd, length y)"
proof -
  let ?leaf = "Node y [(t, e)] (Some t) []"
  have leaf: "tenant_set ?leaf = {t}" "tenant_match t' x ?leaf = 0" for t' x
    by (simp_all add: tenant_set_def tenant_match_via [of _ _ ?leaf] child_def)
  have via: "match_via t' x ?leaf = (if t' = t then lcp y x else 0)" for t' x
    by (simp add: match_via_def leaf lcp_commute Let_def)
  have "wf_node (set_child (hd y) ?leaf nd)"
    using wf y leaf by (intro wf_set_child) auto
  moreover have "x \<noteq> [] \<Longrightarrow> hd x \<noteq> hd y \<Longrightarrow> lcp y x = 0" for x using y by (metis lcp_hd_neq)
  moreover have "used_size t' (set_child (hd y) ?leaf nd) = used_size t' nd + (if t' = t then length y else 0)" for t'
    using used_size_set_child [OF wf(1), of t' "hd y" ?leaf] y(2) by simp
  ultimately show ?thesis
    using y(2) by (auto simp: inserted_def tenant_match_set_child via tenant_match_via [of _ _ nd])
qed

lemma insert_walk_inserted:
  assumes "wf_node prev" "t \<in> tenant_set prev"
  shows "inserted t remaining prev (insert_walk t e remaining prev)"
  using assms
proof (induction t e remaining prev rule: insert_walk.induct)
  case (1 t e y nd)
  show ?case
  proof (cases "y = []")
    case True
    then show ?thesis using 1 by (auto simp: insert_walk.simps inserted_def wf_set_tenant used_size_set_tenant)
  next
    case ne: False
    show ?thesis
    proof (cases "child nd (hd y)")
      case None
      then show ?thesis using 1 ne by (simp add: insert_walk.simps [of t e y nd] inserted_leaf)
    next
      case (Some m)
      note m = wf_childD [OF 1(3) Some]
      let ?k = "lcp y (node_text m)"
      have y: "y = take ?k (node_text m) @ drop ?k y"
        using lcp_take [of y "node_text m"] by (metis append_take_drop_id)
      have k: "0 < ?k" using lcp_pos [OF ne m(1)] m(2) by simp
      show ?thesis
      proof (cases "?k < length (node_text m)")
        case True
        note prep = prepared_split [OF m(5,3) k True, of t]
        have ins: "inserted t (drop ?k y) (split_node t ?k m) (insert_walk t e (drop ?k y) (split_node t ?k m))"
          using 1(1) [OF ne refl Some refl True refl] prep by (auto simp: prepared_def)
        show ?thesis
          using inserted_step [OF 1(3,4) Some prep _ ins] y True ne Some
          by (simp add: insert_walk.simps [of t e y nd] split_node_facts split_beta Let_def)
      next
        case False
        note prep = prepared_enter [OF m(5,1), of t]
        have ins: "inserted t (drop ?k y) (enter_node t m) (insert_walk t e (drop ?k y) (enter_node t m))"
          using 1(2) [OF ne refl Some refl False refl] prep by (auto simp: prepared_def)
        show ?thesis
          using inserted_step [OF 1(3,4) Some prep _ ins] y False ne Some
          by (simp add: insert_walk.simps [of t e y nd] enter_node_facts split_beta Let_def)
      qed
    qed
  qed
qed

end
