(* ===== verification/Radix_Tree.thy ===== *)
theory Radix_Tree
  imports Radix_Node
begin

text \<open>
  The radix tree of \<^verbatim>\<open>tree.rs\<close> up to eviction: insertion, capped insertion and
  the two prefix matches.

  A reference to a node is the path of child keys that leads to it from the root;
  \<open>update_at\<close> is an update through such a reference.  Every insertion and every match
  draws one epoch from a global counter; since other trees draw from it too, the epoch
  is an argument of each operation, and the lemmas hold for every value.

  \<open>wf_tree\<close> is the invariant of the tree: the nodes are well-formed, the root has no
  text, and the count kept for each tenant is the number of characters of the nodes that
  carry it.
\<close>

unbundle bit_operations_syntax

section \<open>References into the tree\<close>

type_synonym path = "nat list"

fun node_at :: "path \<Rightarrow> node \<Rightarrow> node option" where
  "node_at [] nd = Some nd"
| "node_at (c # p) nd = (case child nd c of None \<Rightarrow> None | Some ch \<Rightarrow> node_at p ch)"

fun update_at :: "(node \<Rightarrow> node) \<Rightarrow> path \<Rightarrow> node \<Rightarrow> node" where
  "update_at f [] nd = f nd"
| "update_at f (c # p) nd =
     (case child nd c of None \<Rightarrow> nd | Some ch \<Rightarrow> set_child c (update_at f p ch) nd)"

section \<open>Operations\<close>

record tree =
  root :: node
  tenant_char_count :: "tenant_id \<rightharpoonup> nat"

definition get_epoch :: "u64 \<Rightarrow> u64 \<times> u64" where
  "get_epoch counter = (counter, counter + 1)"

definition new_tree :: tree where
  "new_tree = \<lparr>root = Node [] [] None [], tenant_char_count = Map.empty\<rparr>"

definition insert_text :: "u64 \<Rightarrow> chars \<Rightarrow> tenant_id \<Rightarrow> tree \<Rightarrow> tree" where
  "insert_text epoch y tenant tr =
     (let root1 = enter_node tenant (root tr);
          count1 = (case tenant_char_count tr tenant of
                      None \<Rightarrow> (tenant_char_count tr)(tenant \<mapsto> 0)
                    | Some _ \<Rightarrow> tenant_char_count tr);
          (root2, added) = insert_walk tenant epoch y root1
      in \<lparr>root = root2, tenant_char_count = count1(tenant \<mapsto> the (count1 tenant) + added)\<rparr>)"

definition insert_capped :: "u64 \<Rightarrow> chars \<Rightarrow> tenant_id \<Rightarrow> nat \<Rightarrow> tree \<Rightarrow> bool \<times> tree" where
  "insert_capped epoch y tenant max_chars tr =
     (if max_chars = 0 then (False, tr)
      else case tenant_char_count tr tenant of
             Some count \<Rightarrow>
               if max_chars \<le> count then (False, tr) else (True, insert_text epoch y tenant tr)
           | None \<Rightarrow> (True, insert_text epoch y tenant tr))"

record prefix_match_result =
  tenant :: tenant_id
  matched_char_count :: nat
  input_char_count :: nat

function match_walk :: "chars \<Rightarrow> node \<Rightarrow> nat \<times> path" where
  "match_walk remaining prev =
     (if remaining = [] then (0, [])
      else case child prev (hd remaining) of
             None \<Rightarrow> (0, [])
           | Some matched \<Rightarrow>
               let shared_count = lcp remaining (node_text matched) in
               if shared_count = length (node_text matched) then
                 let (more, p) = match_walk (drop shared_count remaining) matched
                 in (shared_count + more, hd remaining # p)
               else (shared_count, [hd remaining]))"
  by pat_completeness auto

termination match_walk
  by (relation "measure (\<lambda>(remaining, prev). node_count prev)") (auto intro: node_count_child)

declare match_walk.simps [simp del]

definition first_tenant :: "node \<Rightarrow> tenant_id" where
  "first_tenant cur = (case tenants cur of [] \<Rightarrow> ''empty'' | kv # _ \<Rightarrow> fst kv)"

definition match_tenant :: "node \<Rightarrow> tenant_id \<times> node" where
  "match_tenant cur =
     (case last_tenant cur of
        Some t \<Rightarrow>
          if has_tenant t cur then (t, cur)
          else (first_tenant cur, set_last (first_tenant cur) cur)
      | None \<Rightarrow> (first_tenant cur, set_last (first_tenant cur) cur))"

definition touch_match :: "u64 \<Rightarrow> node \<Rightarrow> node" where
  "touch_match epoch cur =
     (let (t, cur') = match_tenant cur
      in if epoch AND 7 = 0 then set_tenant t epoch cur' else cur')"

definition prefix_match_with_counts :: "u64 \<Rightarrow> chars \<Rightarrow> tree \<Rightarrow> prefix_match_result \<times> tree" where
  "prefix_match_with_counts epoch x tr =
     (let (matched_chars, p) = match_walk x (root tr);
          cur = the (node_at p (root tr))
      in (\<lparr>tenant = fst (match_tenant cur), matched_char_count = matched_chars,
            input_char_count = length x\<rparr>,
          tr\<lparr>root := update_at (touch_match epoch) p (root tr)\<rparr>))"

definition take_chars :: "chars \<Rightarrow> nat \<Rightarrow> chars" where
  "take_chars s n = (if n = 0 then [] else if n < length s then take n s else s)"

definition prefix_match :: "u64 \<Rightarrow> chars \<Rightarrow> tree \<Rightarrow> (chars \<times> tenant_id) \<times> tree" where
  "prefix_match epoch x tr =
     (let (result, tr') = prefix_match_with_counts epoch x tr
      in ((take_chars x (matched_char_count result), tenant result), tr'))"

function prefix_match_tenant_state :: "tenant_id \<Rightarrow> chars \<Rightarrow> node \<Rightarrow> nat \<times> path" where
  "prefix_match_tenant_state t remaining previous =
     (if remaining = [] then (0, [])
      else case child previous (hd remaining) of
             None \<Rightarrow> (0, [])
           | Some matched \<Rightarrow>
               if \<not> has_tenant t matched then (0, [])
               else
                 let shared_chars = lcp remaining (node_text matched) in
                 if shared_chars \<noteq> length (node_text matched) then (shared_chars, [hd remaining])
                 else let (more, p) = prefix_match_tenant_state t (drop shared_chars remaining) matched
                      in (shared_chars + more, hd remaining # p))"
  by pat_completeness auto

termination prefix_match_tenant_state
  by (relation "measure (\<lambda>(t, remaining, previous). node_count previous)") (auto intro: node_count_child)

declare prefix_match_tenant_state.simps [simp del]

definition touch_tenant :: "u64 \<Rightarrow> tenant_id \<Rightarrow> node \<Rightarrow> node" where
  "touch_tenant epoch t cur = (if has_tenant t cur then set_tenant t epoch cur else cur)"

definition prefix_match_tenant :: "u64 \<Rightarrow> chars \<Rightarrow> tenant_id \<Rightarrow> tree \<Rightarrow> chars \<times> tree" where
  "prefix_match_tenant epoch x t tr =
     (let (matched_chars, p) = prefix_match_tenant_state t x (root tr)
      in (take_chars x matched_chars, tr\<lparr>root := update_at (touch_tenant epoch t) p (root tr)\<rparr>))"

definition prefix_match_tenant_char_count :: "chars \<Rightarrow> tenant_id \<Rightarrow> tree \<Rightarrow> nat" where
  "prefix_match_tenant_char_count x t tr = fst (prefix_match_tenant_state t x (root tr))"

section \<open>The invariant\<close>

definition count_of :: "tree \<Rightarrow> tenant_id \<Rightarrow> nat" where
  "count_of tr t = (case tenant_char_count tr t of None \<Rightarrow> 0 | Some n \<Rightarrow> n)"

definition wf_tree :: "tree \<Rightarrow> bool" where
  "wf_tree tr \<longleftrightarrow> wf_node (root tr) \<and> node_text (root tr) = [] \<and>
     (\<forall>t. count_of tr t = used_size t (root tr))"

lemma wf_treeD:
  assumes "wf_tree tr"
  shows "wf_node (root tr)" "node_text (root tr) = []" "count_of tr t = used_size t (root tr)"
  using assms by (auto simp: wf_tree_def)

lemma wf_new_tree [inv_intros]: "wf_tree new_tree"
  by (simp add: wf_tree_def new_tree_def count_of_def)

section \<open>Insertion\<close>

lemma insert_text_facts:
  assumes "wf_tree tr"
  shows "wf_tree (insert_text e y t tr)"
    and "tenant_match t' x (root (insert_text e y t tr)) =
           (if t' = t then max (tenant_match t x (root tr)) (lcp y x) else tenant_match t' x (root tr))"
    and "tenant_set (root (insert_text e y t tr)) = insert t (tenant_set (root tr))"
    and "tenant_char_count (insert_text e y t tr) t \<noteq> None"
    and "t' \<noteq> t \<Longrightarrow> tenant_char_count (insert_text e y t tr) t' = tenant_char_count tr t'"
proof -
  note wf = wf_treeD [OF assms]
  let ?r1 = "enter_node t (root tr)" and ?res = "insert_walk t e y (enter_node t (root tr))"
  have ins: "inserted t y ?r1 ?res"
    using wf(1) by (intro insert_walk_inserted) (auto simp: enter_node_facts)
  have r: "root (insert_text e y t tr) = fst ?res"
    by (simp add: insert_text_def Let_def split_beta)
  have "count_of (insert_text e y t tr) t' = count_of tr t' + (if t' = t then snd ?res else 0)" for t'
    by (auto simp: insert_text_def count_of_def Let_def split_beta split: option.split)
  moreover have "used_size t' ?r1 = used_size t' (root tr)" for t'
    using wf(2) by (simp add: used_size_enter)
  ultimately show "wf_tree (insert_text e y t tr)"
    using ins wf by (auto simp: wf_tree_def r inserted_def enter_node_facts)
  show "tenant_match t' x (root (insert_text e y t tr)) =
           (if t' = t then max (tenant_match t x (root tr)) (lcp y x) else tenant_match t' x (root tr))"
    using ins by (simp add: r inserted_def enter_node_facts)
  show "tenant_set (root (insert_text e y t tr)) = insert t (tenant_set (root tr))"
    using ins by (simp add: r inserted_def enter_node_facts)
  show "tenant_char_count (insert_text e y t tr) t \<noteq> None"
    by (simp add: insert_text_def Let_def split_beta)
  show "t' \<noteq> t \<Longrightarrow> tenant_char_count (insert_text e y t tr) t' = tenant_char_count tr t'"
    by (simp add: insert_text_def Let_def split_beta split: option.split)
qed

lemma insert_walk_added: "snd (insert_walk t e remaining prev) \<le> length remaining"
proof (induction t e remaining prev rule: insert_walk.induct)
  case (1 t e y nd)
  show ?case
  proof (cases "y = [] \<or> child nd (hd y) = None")
    case True
    then show ?thesis by (auto simp: insert_walk.simps [of t e y nd])
  next
    case False
    then obtain m where ne: "y \<noteq> []" and m: "child nd (hd y) = Some m" by auto
    note le = lcp_le [of y "node_text m"]
    show ?thesis
    proof (cases "lcp y (node_text m) < length (node_text m)")
      case True
      then show ?thesis using 1(1) [OF ne refl m refl True refl] ne m le
        by (cases "has_tenant t m") (simp_all add: insert_walk.simps [of t e y nd] Let_def split_beta)
    next
      case False
      then show ?thesis using 1(2) [OF ne refl m refl False refl] ne m le
        by (cases "has_tenant t m") (simp_all add: insert_walk.simps [of t e y nd] Let_def split_beta)
    qed
  qed
qed

lemma insert_text_count:
  "count_of (insert_text e y t tr) t \<le> count_of tr t + length y"
  "t' \<noteq> t \<Longrightarrow> count_of (insert_text e y t tr) t' = count_of tr t'"
  using insert_walk_added [of t e y "enter_node t (root tr)"]
  by (auto simp: insert_text_def count_of_def Let_def split_beta split: option.split)

section \<open>Nodes reached by a reference\<close>

lemma node_at_facts:
  assumes "wf_node nd" "node_at p nd = Some cur"
  shows "wf_node cur" "tenant_set cur \<subseteq> tenant_set nd" "p \<noteq> [] \<Longrightarrow> tenant_set cur \<noteq> {}"
    "p \<noteq> [] \<Longrightarrow> node_text cur \<noteq> [] \<and> hd (node_text cur) = last p"
  using assms
proof (induction p arbitrary: nd)
  case (Cons c p)
  {
    case 1
    then show ?case using Cons(1) wf_childD(5) by (auto split: option.splits)
  next
    case 2
    then obtain ch where ch: "child nd c = Some ch" "node_at p ch = Some cur" by (auto split: option.splits)
    then show ?case using Cons(2) wf_childD(4,5) [OF 2(1) ch(1)] by auto
  next
    case 3
    then obtain ch where ch: "child nd c = Some ch" "node_at p ch = Some cur" by (auto split: option.splits)
    then show ?case using Cons(3) wf_childD(3,5) [OF 3(2) ch(1)] by (cases "p = []") (auto simp: tenants_Nil_iff)
  next
    case 4
    then obtain ch where ch: "child nd c = Some ch" "node_at p ch = Some cur" by (auto split: option.splits)
    then show ?case using Cons(4) wf_childD(1,2,5) [OF 4(2) ch(1)] by (cases "p = []") auto
  }
qed auto

text \<open>An update that leaves text, children and, unless there were none, the tenants.\<close>

definition touched :: "node \<Rightarrow> node \<Rightarrow> bool" where
  "touched nd nd' \<longleftrightarrow> wf_node nd' \<and> node_text nd' = node_text nd \<and> children nd' = children nd \<and>
     tenant_set nd \<subseteq> tenant_set nd' \<and> (tenant_set nd \<noteq> {} \<longrightarrow> tenant_set nd' = tenant_set nd)"

lemma used_size_alt:
  "used_size t nd = (if t \<in> tenant_set nd then length (node_text nd) else 0) +
     sum_list (map (\<lambda>e. used_size t (snd e)) (children nd))"
  by (cases nd) (simp add: tenant_set_def)

definition similar :: "node \<Rightarrow> node \<Rightarrow> bool" where
  "similar nd nd' \<longleftrightarrow> wf_node nd' \<and> node_text nd' = node_text nd \<and>
     tenant_set nd \<subseteq> tenant_set nd' \<and> (tenant_set nd \<noteq> {} \<longrightarrow> tenant_set nd' = tenant_set nd) \<and>
     (\<forall>t x. tenant_match t x nd' = tenant_match t x nd) \<and>
     (tenant_set nd \<noteq> {} \<or> node_text nd = [] \<longrightarrow> (\<forall>t. used_size t nd' = used_size t nd))"

lemma touched_similar: "touched nd nd' \<Longrightarrow> similar nd nd'"
proof -
  assume t: "touched nd nd'"
  then have "child nd' = child nd" by (simp add: touched_def child_def fun_eq_iff)
  then have "tenant_match t x nd' = tenant_match t x nd" for t x by (rule tenant_match_child_eq)
  then show ?thesis
    using t by (auto simp: touched_def similar_def used_size_alt [of _ nd'] used_size_alt [of _ nd])
qed

lemma similar_child:
  assumes wf: "wf_node nd" and ch: "child nd c = Some ch" and sim: "similar ch ch'"
  shows "similar nd (set_child c ch' nd)"
proof -
  note w = wf_childD [OF wf ch]
  have s: "wf_node ch'" "node_text ch' = node_text ch" "tenant_set ch' = tenant_set ch"
    "tenant_match t x ch' = tenant_match t x ch" "used_size t ch' = used_size t ch" for t x
    using sim w(3) by (auto simp: similar_def tenants_Nil_iff)
  have "wf_node (set_child c ch' nd)"
    using w s wf by (intro wf_set_child) (auto simp: tenants_Nil_iff)
  moreover have "match_via t x ch' = match_via t x ch" for t x by (simp add: match_via_def s Let_def)
  moreover have "used_size t (set_child c ch' nd) = used_size t nd" for t
    using used_size_set_child [OF wf, of t c ch'] ch s by simp
  ultimately show ?thesis
    using ch by (auto simp: similar_def tenant_match_set_child tenant_match_via [of _ _ nd])
qed

lemma update_at_similar:
  assumes "wf_node nd" "node_at p nd = Some cur" "touched cur (f cur)"
  shows "similar nd (update_at f p nd)"
  using assms(1,2)
proof (induction p arbitrary: nd)
  case Nil
  then show ?case using assms(3) by (simp add: touched_similar)
next
  case (Cons c p)
  then obtain ch where ch: "child nd c = Some ch" "node_at p ch = Some cur" by (auto split: option.splits)
  then show ?case using similar_child [OF Cons(2) ch(1)] Cons(1) [OF wf_childD(5) [OF Cons(2) ch(1)] ch(2)] by simp
qed

lemma wf_tree_similar:
  assumes "wf_tree tr" "similar (root tr) r"
  shows "wf_tree (tr\<lparr>root := r\<rparr>)"
  using assms by (simp add: wf_tree_def similar_def count_of_def)

section \<open>Prefix matching\<close>

definition match_ok :: "chars \<Rightarrow> node \<Rightarrow> nat \<times> path \<Rightarrow> bool" where
  "match_ok x nd r \<longleftrightarrow>
     (\<exists>cur. node_at (snd r) nd = Some cur \<and> (\<forall>t\<in>tenant_set cur. tenant_match t x nd = fst r)) \<and>
     (\<forall>t. tenant_match t x nd \<le> fst r) \<and> (snd r = [] \<longrightarrow> fst r = 0)"

lemma match_walk_ok: "wf_node nd \<Longrightarrow> match_ok x nd (match_walk x nd)"
proof (induction x nd rule: match_walk.induct)
  case (1 x nd)
  consider "x = [] \<or> child nd (hd x) = None" | m where "x \<noteq> []" "child nd (hd x) = Some m" by auto
  then show ?case
  proof cases
    case 1
    then show ?thesis by (auto simp: match_ok_def match_walk.simps [of x nd] tenant_match_via [of _ x nd])
  next
    case (2 m)
    note w = wf_childD [OF 1(2) 2(2)]
    let ?k = "lcp x (node_text m)"
    have tm: "tenant_match t x nd = match_via t x m" for t using 2 by (simp add: tenant_match_via)
    show ?thesis
    proof (cases "?k = length (node_text m)")
      case True
      have IH: "match_ok (drop ?k x) m (match_walk (drop ?k x) m)"
        using 1(1) [OF 2 refl True w(5)] .
      then obtain cur where cur: "node_at (snd (match_walk (drop ?k x) m)) m = Some cur"
        by (auto simp: match_ok_def)
      show ?thesis using 2 True IH cur node_at_facts(2) [OF w(5) cur]
        by (auto simp: match_ok_def match_walk.simps [of x nd] tm match_via_def split_beta Let_def)
    next
      case False
      then show ?thesis using 2
        by (auto simp: match_ok_def match_walk.simps [of x nd] tm match_via_def split_beta Let_def)
    qed
  qed
qed

lemma tenant_set_set_last [simp]:
  "tenant_set (set_last t nd) = tenant_set nd" "node_text (set_last t nd) = node_text nd"
  "children (set_last t nd) = children nd" "tenants (set_last t nd) = tenants nd" "child (set_last t nd) = child nd"
  by (cases nd; simp add: set_last_def tenant_set_def child_def fun_eq_iff)+

lemma wf_set_last [inv_intros]: "wf_node nd \<Longrightarrow> wf_node (set_last t nd)"
  by (simp add: wf_node_alt [of "set_last t nd"] wf_node_alt [of nd])

lemma match_tenant_facts:
  "snd (match_tenant cur) = cur \<or> (\<exists>t. snd (match_tenant cur) = set_last t cur)"
  "tenant_set cur \<noteq> {} \<Longrightarrow> fst (match_tenant cur) \<in> tenant_set cur"
  by (auto simp: match_tenant_def first_tenant_def has_tenant_iff tenant_set_def split: option.split list.split)

lemma touched_match: "wf_node cur \<Longrightarrow> touched cur (touch_match e cur)"
  using match_tenant_facts [of cur]
  by (auto simp: touched_def touch_match_def split_beta wf_set_last wf_set_tenant)

lemma touched_tenant: "wf_node cur \<Longrightarrow> touched cur (touch_tenant e t cur)"
  by (auto simp: touched_def touch_tenant_def has_tenant_iff wf_set_tenant)

lemma prefix_match_with_counts_facts:
  fixes e x
  assumes "wf_tree tr"
  defines "res \<equiv> prefix_match_with_counts e x tr"
  shows "wf_tree (snd res)" "similar (root tr) (root (snd res))"
    "tenant_match (tenant (fst res)) x (root tr) = matched_char_count (fst res)"
    "tenant_match t x (root tr) \<le> matched_char_count (fst res)"
    "input_char_count (fst res) = length x" "tenant_char_count (snd res) = tenant_char_count tr"
proof -
  note wf = wf_treeD [OF assms(1)]
  let ?w = "match_walk x (root tr)"
  have ok: "match_ok x (root tr) ?w" by (rule match_walk_ok [OF wf(1)])
  then obtain cur where cur: "node_at (snd ?w) (root tr) = Some cur"
    "\<forall>t\<in>tenant_set cur. tenant_match t x (root tr) = fst ?w" by (auto simp: match_ok_def)
  have res: "res = (\<lparr>tenant = fst (match_tenant cur), matched_char_count = fst ?w, input_char_count = length x\<rparr>,
      tr\<lparr>root := update_at (touch_match e) (snd ?w) (root tr)\<rparr>)"
    using cur by (simp add: res_def prefix_match_with_counts_def split_beta)
  have sim: "similar (root tr) (update_at (touch_match e) (snd ?w) (root tr))"
    by (intro update_at_similar [OF wf(1) cur(1)] touched_match node_at_facts(1) [OF wf(1) cur(1)])
  then show "wf_tree (snd res)" "similar (root tr) (root (snd res))"
    using wf_tree_similar [OF assms(1) sim] by (simp_all add: res)
  show "tenant_match t x (root tr) \<le> matched_char_count (fst res)"
    using ok by (simp add: res match_ok_def)
  have "tenant_match t x (root tr) = fst ?w" if "snd ?w = []" for t
    using ok that by (auto simp: match_ok_def)
  then show "tenant_match (tenant (fst res)) x (root tr) = matched_char_count (fst res)"
    using cur match_tenant_facts(2) [of cur] node_at_facts(3) [OF wf(1) cur(1)]
    by (cases "snd ?w = []") (auto simp: res)
qed (simp_all add: assms(2) prefix_match_with_counts_def split_beta)

lemma prefix_match_tenant_state_facts:
  shows "fst (prefix_match_tenant_state t x nd) = tenant_match t x nd"
    and "\<exists>cur. node_at (snd (prefix_match_tenant_state t x nd)) nd = Some cur"
proof (induction t x nd rule: prefix_match_tenant_state.induct)
  case (1 t x nd)
  {
    case 1
    show ?case using "1.IH"(1)
      by (auto simp: prefix_match_tenant_state.simps [of t x nd] tenant_match.simps [of t x nd] split_beta Let_def
          split: option.split)
  next
    case 2
    show ?case using "1.IH"(2)
      by (auto simp: prefix_match_tenant_state.simps [of t x nd] split_beta Let_def split: option.split)
  }
qed

lemma take_chars_eq: "take_chars s n = take n s"
  by (simp add: take_chars_def)

lemma prefix_match_tenant_facts:
  assumes "wf_tree tr"
  shows "wf_tree (snd (prefix_match_tenant e x t tr))"
    and "similar (root tr) (root (snd (prefix_match_tenant e x t tr)))"
    and "fst (prefix_match_tenant e x t tr) = take (tenant_match t x (root tr)) x"
proof -
  note wf = wf_treeD [OF assms(1)]
  let ?w = "prefix_match_tenant_state t x (root tr)"
  obtain cur where cur: "node_at (snd ?w) (root tr) = Some cur"
    using prefix_match_tenant_state_facts(2) by blast
  have "similar (root tr) (update_at (touch_tenant e t) (snd ?w) (root tr))"
    by (intro update_at_similar [OF wf(1) cur] touched_tenant node_at_facts(1) [OF wf(1) cur])
  then show "wf_tree (snd (prefix_match_tenant e x t tr))"
    "similar (root tr) (root (snd (prefix_match_tenant e x t tr)))"
    using wf_tree_similar [OF assms(1)] by (simp_all add: prefix_match_tenant_def split_beta)
  show "fst (prefix_match_tenant e x t tr) = take (tenant_match t x (root tr)) x"
    by (simp add: prefix_match_tenant_def split_beta take_chars_eq prefix_match_tenant_state_facts)
qed

end
