(* ===== verification/Radix_Evict.thy ===== *)
theory Radix_Evict
  imports Radix_Tree "HOL-Library.Multiset"
begin

text \<open>
  Eviction from the radix tree and the removal of a tenant, the second half of
  \<^verbatim>\<open>tree.rs\<close>.

  Both collect the leaves of the tenants by a depth-first search with an explicit
  stack and then take tenants off leaves, from the bottom up.  The priority queue of
  the eviction pops an entry with the least timestamp; which of several equal ones it
  pops depends on the heap, so the eviction loop is the step relation \<open>evict_step\<close>.
  Within one eviction or removal no node is split or added, so that a path keeps
  denoting the same node; a node that was detached has no tenants left.

  \<open>holdings\<close> is the abstract view: the pairs of a path and a tenant on its node.
  Taking a tenant off a leaf removes exactly one pair.  From this follow the results:
  eviction ends with every tenant within the budget and does not touch the tenants that
  were, and removal takes away exactly the one tenant.
\<close>

section \<open>Operations\<close>

definition del_tenant :: "tenant_id \<Rightarrow> node \<Rightarrow> node" where
  "del_tenant t nd = (case nd of Node x ts l cs \<Rightarrow> Node x (AList.delete t ts) l cs)"

definition del_child :: "nat \<Rightarrow> node \<Rightarrow> node" where
  "del_child c nd = (case nd of Node x ts l cs \<Rightarrow> Node x ts l (AList.delete c cs))"

definition has_child_with_tenant :: "tenant_id \<Rightarrow> node \<Rightarrow> bool" where
  "has_child_with_tenant t nd = list_ex (\<lambda>e. has_tenant t (snd e)) (children nd)"

definition leaf_of :: "node \<Rightarrow> tenant_id list" where
  "leaf_of nd =
     (let candidates = map (\<lambda>kv. (fst kv, True)) (tenants nd);
          marked = fold (\<lambda>ch. fold (\<lambda>kv. AList.update (fst kv) False) (tenants (snd ch)))
                     (children nd) candidates
      in map fst (filter snd marked))"

function dfs :: "(path \<times> node) list \<Rightarrow> (path \<times> node) list" where
  "dfs [] = []"
| "dfs ((p, cur) # stack) =
     (p, cur) # dfs (rev (map (\<lambda>e. (p @ [fst e], snd e)) (children cur)) @ stack)"
  by pat_completeness auto

lemma sum_node_count_children: "sum_list (map (\<lambda>e. node_count (snd e)) (children nd)) < node_count nd"
  by (cases nd) simp

termination dfs
  by (relation "measure (\<lambda>stack. sum_list (map (\<lambda>e. node_count (snd e)) stack))")
    (auto simp: rev_map [symmetric] comp_def sum_node_count_children)

definition all_nodes :: "node \<Rightarrow> (path \<times> node) list" where
  "all_nodes r = dfs [([], r)]"

record eviction_entry =
  timestamp :: u64
  entry_tenant :: tenant_id
  entry_node :: path

definition eviction_queue :: "node \<Rightarrow> eviction_entry list" where
  "eviction_queue r =
     concat (map (\<lambda>(p, cur).
       concat (map (\<lambda>t. case map_of (tenants cur) t of
                          None \<Rightarrow> []
                        | Some ts \<Rightarrow> [\<lparr>timestamp = ts, entry_tenant = t, entry_node = p\<rparr>])
                   (leaf_of cur)))
       (all_nodes r))"

definition remove_from_node :: "tenant_id \<Rightarrow> path \<Rightarrow> node \<Rightarrow> node" where
  "remove_from_node t p r =
     (let r1 = update_at (del_tenant t) p r in
      case node_at p r1 of
        None \<Rightarrow> r1
      | Some nd \<Rightarrow>
          if children nd = [] \<and> tenants nd = [] \<and> p \<noteq> [] then
            (case node_text nd of [] \<Rightarrow> r1 | fc # _ \<Rightarrow> update_at (del_child fc) (butlast p) r1)
          else r1)"

definition new_leaf :: "tenant_id \<Rightarrow> path \<Rightarrow> node \<Rightarrow> (path \<times> node) option" where
  "new_leaf t p r =
     (if p = [] then None
      else case node_at (butlast p) r of
             None \<Rightarrow> None
           | Some parent \<Rightarrow>
               if has_tenant t parent \<and> \<not> has_child_with_tenant t parent
               then Some (butlast p, parent) else None)"

definition is_still_leaf :: "tenant_id \<Rightarrow> path \<Rightarrow> node \<Rightarrow> bool" where
  "is_still_leaf t p r =
     (case node_at p r of
        None \<Rightarrow> False
      | Some nd \<Rightarrow> has_tenant t nd \<and> \<not> has_child_with_tenant t nd)"

definition within_budget :: "nat \<Rightarrow> tenant_id \<Rightarrow> tree \<Rightarrow> bool" where
  "within_budget max_size t tr =
     (case tenant_char_count tr t of None \<Rightarrow> False | Some n \<Rightarrow> n \<le> max_size)"

definition evict_entry :: "nat \<Rightarrow> eviction_entry \<Rightarrow> tree \<Rightarrow> tree \<times> eviction_entry list" where
  "evict_entry max_size e tr =
     (let t = entry_tenant e; p = entry_node e in
      if within_budget max_size t tr then (tr, [])
      else if \<not> is_still_leaf t p (root tr) then (tr, [])
      else
        let node_len = length (node_text (the (node_at p (root tr))));
            count = (case tenant_char_count tr t of
                       None \<Rightarrow> tenant_char_count tr
                     | Some n \<Rightarrow> (tenant_char_count tr)(t \<mapsto> n - node_len));
            r = remove_from_node t p (root tr)
        in (\<lparr>root = r, tenant_char_count = count\<rparr>,
            case new_leaf t p r of
              None \<Rightarrow> []
            | Some (q, parent) \<Rightarrow>
                (case map_of (tenants parent) t of
                   None \<Rightarrow> []
                 | Some ts \<Rightarrow> [\<lparr>timestamp = ts, entry_tenant = t, entry_node = q\<rparr>])))"

inductive evict_step :: "nat \<Rightarrow> tree \<times> eviction_entry list \<Rightarrow> tree \<times> eviction_entry list \<Rightarrow> bool"
  for max_size where
  pop: "\<forall>e'\<in>set (pq1 @ pq2). timestamp e \<le> timestamp e' \<Longrightarrow>
    evict_step max_size (tr, pq1 @ e # pq2)
      (fst (evict_entry max_size e tr), pq1 @ pq2 @ snd (evict_entry max_size e tr))"

definition evict_tenant_by_size :: "nat \<Rightarrow> tree \<Rightarrow> tree \<Rightarrow> bool" where
  "evict_tenant_by_size max_size tr tr' =
     (evict_step max_size)\<^sup>*\<^sup>* (tr, eviction_queue (root tr)) (tr', [])"

function remove_loop :: "tenant_id \<Rightarrow> path list \<Rightarrow> node \<Rightarrow> node" where
  "remove_loop t [] r = r"
| "remove_loop t (p # queue) r =
     (let r' = remove_from_node t p r in
      remove_loop t (case new_leaf t p r' of None \<Rightarrow> queue | Some (q, _) \<Rightarrow> queue @ [q]) r')"
  by pat_completeness auto

lemma new_leaf_shorter: "new_leaf t p r = Some (q, nd) \<Longrightarrow> length q < length p"
  by (auto simp: new_leaf_def split: if_splits option.splits)

termination remove_loop
  by (relation "measure (\<lambda>(t, queue, r). sum_list (map (\<lambda>p. Suc (length p)) queue))")
    (auto split: option.split dest: new_leaf_shorter)

definition remove_tenant :: "tenant_id \<Rightarrow> tree \<Rightarrow> tree" where
  "remove_tenant t tr =
     (let queue = map fst (filter (\<lambda>(p, cur). has_tenant t cur \<and> \<not> has_child_with_tenant t cur)
                                  (all_nodes (root tr)))
      in \<lparr>root = remove_loop t queue (root tr), tenant_char_count = (tenant_char_count tr)(t := None)\<rparr>)"

definition add_tenant_sizes :: "node \<Rightarrow> (tenant_id \<rightharpoonup> nat) \<Rightarrow> (tenant_id \<rightharpoonup> nat)" where
  "add_tenant_sizes cur =
     fold (\<lambda>kv m. m(fst kv \<mapsto> (case m (fst kv) of None \<Rightarrow> 0 | Some sz \<Rightarrow> sz) + length (node_text cur)))
       (tenants cur)"

definition get_used_size_per_tenant :: "tree \<Rightarrow> tenant_id \<rightharpoonup> nat" where
  "get_used_size_per_tenant tr = fold (\<lambda>(p, cur). add_tenant_sizes cur) (all_nodes (root tr)) Map.empty"

section \<open>The search\<close>

fun below :: "path \<Rightarrow> node \<Rightarrow> (path \<times> node) list" where
  "below p (Node x ts l cs) =
     (p, Node x ts l cs) # concat (map (\<lambda>e. below (p @ [fst e]) (snd e)) cs)"

lemma below_unfold: "below p nd = (p, nd) # concat (map (\<lambda>e. below (p @ [fst e]) (snd e)) (children nd))"
  by (cases nd) simp

lemma mset_concat_rev: "mset (concat (rev xs)) = mset (concat xs)"
  by (induction xs) auto

lemma mset_dfs: "mset (dfs stack) = mset (concat (map (\<lambda>(p, nd). below p nd) stack))"
proof (induction stack rule: dfs.induct)
  case (2 p cur stack)
  have "map (\<lambda>(p, nd). below p nd) (rev (map (\<lambda>e. (p @ [fst e], snd e)) (children cur))) =
      rev (map (\<lambda>e. below (p @ [fst e]) (snd e)) (children cur))"
    by (simp add: rev_map comp_def)
  then show ?case using 2 by (simp add: below_unfold [of p cur] mset_concat_rev)
qed simp

lemma all_nodes_mset: "mset (all_nodes r) = mset (below [] r)"
  unfolding all_nodes_def mset_dfs by simp

lemma set_all_nodes_below: "set (all_nodes r) = set (below [] r)"
  using all_nodes_mset by (metis set_mset_mset)

lemma wf_children_map_of:
  "wf_node nd \<Longrightarrow> e \<in> set (children nd) \<longleftrightarrow> child nd (fst e) = Some (snd e)"
  by (cases e) (simp add: wf_node_alt [of nd] child_def)

lemma ex_path: "(\<exists>q. P q) \<longleftrightarrow> P [] \<or> (\<exists>c q. P (c # q))" for P :: "path \<Rightarrow> bool"
  by (metis list.exhaust)

lemma in_below:
  assumes "wf_node nd"
  shows "(x, n) \<in> set (below p nd) \<longleftrightarrow> (\<exists>q. x = p @ q \<and> node_at q nd = Some n)"
  using assms
proof (induction "node_count nd" arbitrary: nd p rule: less_induct)
  case less
  have IH: "(x, n) \<in> set (below (p @ [c]) ch) \<longleftrightarrow> (\<exists>q. x = p @ c # q \<and> node_at q ch = Some n)"
    if "child nd c = Some ch" for c ch
    using less(1) [OF node_count_child [OF that] wf_childD(5) [OF less(2) that], of "p @ [c]"] by simp
  have "(x, n) \<in> set (below p nd) \<longleftrightarrow> x = p \<and> n = nd \<or>
      (\<exists>e. e \<in> set (children nd) \<and> (x, n) \<in> set (below (p @ [fst e]) (snd e)))"
    by (subst below_unfold) (simp add: Bex_def)
  also have "\<dots> \<longleftrightarrow> x = p \<and> n = nd \<or>
      (\<exists>c ch. child nd c = Some ch \<and> (x, n) \<in> set (below (p @ [c]) ch))"
    by (simp add: wf_children_map_of [OF less(2)] split_paired_Ex)
  also have "\<dots> \<longleftrightarrow> x = p \<and> n = nd \<or>
      (\<exists>c ch. child nd c = Some ch \<and> (\<exists>q. x = p @ c # q \<and> node_at q ch = Some n))"
    using IH by blast
  also have "\<dots> \<longleftrightarrow> (\<exists>q. x = p @ q \<and> node_at q nd = Some n)"
    by (subst ex_path) (auto split: option.splits)
  finally show ?case .
qed

lemma in_all_nodes: "wf_node r \<Longrightarrow> (p, n) \<in> set (all_nodes r) \<longleftrightarrow> node_at p r = Some n"
  by (simp add: set_all_nodes_below in_below)

lemma distinct_below: "wf_node nd \<Longrightarrow> distinct (map fst (below p nd))"
proof (induction "node_count nd" arbitrary: nd p rule: less_induct)
  case less
  note ch = wf_children_map_of [OF less(2)]
  let ?f = "\<lambda>e. map fst (below (p @ [fst e]) (snd e))"
  have wf: "wf_node (snd e)" and IH: "distinct (?f e)" if "e \<in> set (children nd)" for e
    using that less(1) wf_childD(5) [OF less(2)] node_count_child by (auto simp: ch)
  have pre: "\<exists>q. x = p @ fst e # q" if e: "e \<in> set (children nd)" "x \<in> set (?f e)" for e x
  proof -
    obtain n where "(x, n) \<in> set (below (p @ [fst e]) (snd e))" using e(2) by auto
    then show ?thesis using in_below [OF wf [OF e(1)]] by auto
  qed
  have "distinct (concat (map ?f cs))" if "set cs \<subseteq> set (children nd)" "distinct (map fst cs)" for cs
    using that
  proof (induction cs)
    case (Cons e cs)
    have "set (?f e) \<inter> set (?f e') = {}" if "e' \<in> set cs" for e'
    proof -
      have "fst e \<noteq> fst e'" using Cons.prems(2) that by auto
      moreover have "e' \<in> set (children nd)" "e \<in> set (children nd)" using Cons.prems(1) that by auto
      ultimately show ?thesis using pre [of e'] pre [of e] by (blast dest: same_append_eq [THEN iffD1])
    qed
    then have "set (?f e) \<inter> set (concat (map ?f cs)) = {}" by (simp add: Int_UN_distrib)
    then show ?case using Cons IH [of e] by simp
  qed simp
  moreover have "distinct (map fst (children nd))" using less(2) by (simp add: wf_node_alt [of nd])
  moreover have "p \<notin> set (concat (map ?f (children nd)))" using pre [of _ p] by auto
  ultimately show ?case
    by (subst below_unfold) (simp add: map_concat comp_def)
qed

lemma distinct_all_nodes: "wf_node r \<Longrightarrow> distinct (map fst (all_nodes r))"
proof -
  assume "wf_node r"
  moreover have "mset (map fst (all_nodes r)) = mset (map fst (below [] r))" using all_nodes_mset by (metis mset_map)
  ultimately show ?thesis using distinct_below mset_eq_imp_distinct_iff by blast
qed

section \<open>Holdings and leaves\<close>

definition holdings :: "node \<Rightarrow> (path \<times> tenant_id) set" where
  "holdings r = {(p, t). \<exists>n. node_at p r = Some n \<and> t \<in> tenant_set n}"

definition leaf_at :: "tenant_id \<Rightarrow> path \<Rightarrow> node \<Rightarrow> bool" where
  "leaf_at t p r \<longleftrightarrow> (p, t) \<in> holdings r \<and> (\<forall>c. (p @ [c], t) \<notin> holdings r)"

lemma node_at_append: "node_at (p @ q) r = (case node_at p r of None \<Rightarrow> None | Some n \<Rightarrow> node_at q n)"
  by (induction p arbitrary: r) (auto split: option.splits)

lemma holdings_Nil [simp]: "([], t) \<in> holdings r \<longleftrightarrow> t \<in> tenant_set r"
  by (simp add: holdings_def)

lemma holdings_Cons [simp]:
  "(c # p, t) \<in> holdings r \<longleftrightarrow> (\<exists>ch. child r c = Some ch \<and> (p, t) \<in> holdings ch)"
  by (auto simp: holdings_def split: option.splits)

lemma holdings_subset_root: "wf_node r \<Longrightarrow> (p, t) \<in> holdings r \<Longrightarrow> t \<in> tenant_set r"
  using node_at_facts(2) by (auto simp: holdings_def)

lemma holdings_prefix: "wf_node r \<Longrightarrow> (p @ q, t) \<in> holdings r \<Longrightarrow> (p, t) \<in> holdings r"
  using node_at_facts(1,2) by (fastforce simp: holdings_def node_at_append split: option.splits)

lemma has_child_with_tenant_iff:
  assumes "wf_node nd"
  shows "has_child_with_tenant t nd \<longleftrightarrow> (\<exists>c ch. child nd c = Some ch \<and> t \<in> tenant_set ch)"
proof -
  have "has_child_with_tenant t nd \<longleftrightarrow> (\<exists>e. e \<in> set (children nd) \<and> t \<in> tenant_set (snd e))"
    by (simp add: has_child_with_tenant_def list_ex_iff has_tenant_iff Bex_def)
  then show ?thesis by (simp add: wf_children_map_of [OF assms] split_paired_Ex)
qed

lemma leaf_at_node:
  assumes "wf_node r" "node_at p r = Some nd"
  shows "leaf_at t p r \<longleftrightarrow> has_tenant t nd \<and> \<not> has_child_with_tenant t nd"
  using assms node_at_facts(1) [OF assms]
  by (auto simp: leaf_at_def holdings_def node_at_append has_tenant_iff has_child_with_tenant_iff
      split: option.splits)

lemma leaf_at_is_still_leaf: "wf_node r \<Longrightarrow> is_still_leaf t p r \<longleftrightarrow> leaf_at t p r"
  using leaf_at_node by (cases "node_at p r") (auto simp: is_still_leaf_def leaf_at_def holdings_def)

lemma leaf_exists:
  assumes "wf_node nd" "t \<in> tenant_set nd"
  shows "\<exists>p. leaf_at t p nd"
  using assms
proof (induction "node_count nd" arbitrary: nd rule: less_induct)
  case less
  show ?case
  proof (cases "\<exists>c ch. child nd c = Some ch \<and> t \<in> tenant_set ch")
    case True
    then obtain c ch where ch: "child nd c = Some ch" "t \<in> tenant_set ch" by blast
    obtain p where "leaf_at t p ch"
      using less(1) [OF node_count_child [OF ch(1)] wf_childD(5) [OF less(2) ch(1)] ch(2)] by blast
    then have "leaf_at t (c # p) nd" using ch(1) by (simp add: leaf_at_def)
    then show ?thesis by blast
  next
    case False
    then have "leaf_at t [] nd" using less(3) by (auto simp: leaf_at_def)
    then show ?thesis by blast
  qed
qed

lemma leaf_of_fold_update:
  "map_of (fold (\<lambda>kv. AList.update (fst kv) False) ts m) t =
     (if t \<in> fst ` set ts then Some False else map_of m t)"
  by (induction ts arbitrary: m) (auto simp: update_conv')

lemma leaf_of_fold_children:
  "map_of (fold (\<lambda>ch. fold (\<lambda>kv. AList.update (fst kv) False) (tenants (snd ch))) cs m) t =
     (if \<exists>e\<in>set cs. t \<in> tenant_set (snd e) then Some False else map_of m t)"
  by (induction cs arbitrary: m) (auto simp: leaf_of_fold_update tenant_set_def)

lemma distinct_fold_update:
  "distinct (map fst m) \<Longrightarrow> distinct (map fst (fold (\<lambda>kv. AList.update (fst kv) False) ts m))"
  by (induction ts arbitrary: m) (auto simp: distinct_update)

lemma distinct_fold_children:
  "distinct (map fst m) \<Longrightarrow>
   distinct (map fst (fold (\<lambda>ch. fold (\<lambda>kv. AList.update (fst kv) False) (tenants (snd ch))) cs m))"
  by (induction cs arbitrary: m) (auto simp: distinct_fold_update)

lemma map_of_marked:
  "map_of (map (\<lambda>kv. (fst kv, True)) ts) t = (if t \<in> fst ` set ts then Some True else None)"
  by (induction ts) auto

lemma set_leaf_of:
  assumes "wf_node nd"
  shows "t \<in> set (leaf_of nd) \<longleftrightarrow> has_tenant t nd \<and> \<not> has_child_with_tenant t nd"
proof -
  let ?c = "map (\<lambda>kv. (fst kv, True)) (tenants nd)"
  let ?m = "fold (\<lambda>ch. fold (\<lambda>kv. AList.update (fst kv) False) (tenants (snd ch))) (children nd) ?c"
  have "distinct (map fst ?c)" using assms by (simp add: wf_node_alt [of nd] comp_def)
  then have "distinct (map fst ?m)" by (rule distinct_fold_children)
  then have "t \<in> set (leaf_of nd) \<longleftrightarrow> map_of ?m t = Some True"
    by (force simp: leaf_of_def Let_def)
  moreover have "map_of ?c t = (if t \<in> tenant_set nd then Some True else None)"
    by (simp add: tenant_set_def map_of_marked)
  ultimately show ?thesis
    by (auto simp: leaf_of_fold_children has_tenant_iff has_child_with_tenant_def list_ex_iff)
qed

section \<open>Taking a tenant off a leaf\<close>

definition shrunk :: "tenant_id \<Rightarrow> nat \<Rightarrow> path \<Rightarrow> node \<Rightarrow> node \<Rightarrow> bool" where
  "shrunk t d q nd nd' \<longleftrightarrow> wf_node nd' \<and> node_text nd' = node_text nd \<and>
     holdings nd' = holdings nd - {(q, t)} \<and>
     (\<forall>t' x. t' \<noteq> t \<longrightarrow> tenant_match t' x nd' = tenant_match t' x nd) \<and>
     (\<forall>x. tenant_match t x nd' \<le> tenant_match t x nd) \<and>
     (\<forall>t'. used_size t' nd' + (if t' = t then d else 0) = used_size t' nd)"

lemma shrunk_tenant_set: "shrunk t d q nd nd' \<Longrightarrow> tenant_set nd' = tenant_set nd - (if q = [] then {t} else {})"
  by (auto simp: shrunk_def set_eq_iff holdings_Nil [symmetric] simp del: holdings_Nil)

lemma shrunk_match_via:
  assumes "shrunk t d q ch ch'"
  shows "t' \<noteq> t \<Longrightarrow> match_via t' x ch' = match_via t' x ch" "match_via t x ch' \<le> match_via t x ch"
  using assms shrunk_tenant_set [OF assms] by (auto simp: shrunk_def match_via_def Let_def)

lemma holdings_eqI:
  assumes "tenant_set a = T" "\<And>c p t. (c # p, t) \<in> holdings a \<longleftrightarrow> (c # p, t) \<in> H"
    "\<And>t. ([], t) \<in> H \<longleftrightarrow> t \<in> T"
  shows "holdings a = H"
proof (rule set_eqI)
  fix y :: "path \<times> tenant_id"
  show "y \<in> holdings a \<longleftrightarrow> y \<in> H" using assms by (cases y; cases "fst y") auto
qed

lemma shrunk_child:
  assumes wf: "wf_node nd" and ch: "child nd c = Some ch" and shr: "shrunk t d q ch ch'"
    and ne: "tenant_set ch' \<noteq> {}"
  shows "shrunk t d (c # q) nd (set_child c ch' nd)"
proof -
  note w = wf_childD [OF wf ch]
  have "wf_node (set_child c ch' nd)"
    using w wf shr ne shrunk_tenant_set [OF shr]
    by (intro wf_set_child) (auto simp: shrunk_def tenants_Nil_iff)
  moreover have "holdings (set_child c ch' nd) = holdings nd - {(c # q, t)}"
    using ch shr by (intro holdings_eqI [OF refl]) (auto simp: shrunk_def)
  moreover have "tenant_match t' x (set_child c ch' nd) = tenant_match t' x nd" if "t' \<noteq> t" for t' x
    using ch shrunk_match_via(1) [OF shr that] by (auto simp: tenant_match_set_child tenant_match_via [of _ _ nd])
  moreover have "tenant_match t x (set_child c ch' nd) \<le> tenant_match t x nd" for x
    using ch shrunk_match_via(2) [OF shr] by (auto simp: tenant_match_set_child tenant_match_via [of _ _ nd])
  moreover have "used_size t' (set_child c ch' nd) + (if t' = t then d else 0) = used_size t' nd" for t'
  proof -
    have "used_size t' (set_child c ch' nd) + used_size t' ch = used_size t' nd + used_size t' ch'"
      using used_size_set_child [OF wf, of t' c ch'] ch by simp
    moreover have "used_size t' ch' + (if t' = t then d else 0) = used_size t' ch" using shr by (simp add: shrunk_def)
    ultimately show ?thesis by linarith
  qed
  ultimately show ?thesis by (simp add: shrunk_def)
qed

lemma del_child_fields [simp]:
  "node_text (del_child c nd) = node_text nd" "tenant_set (del_child c nd) = tenant_set nd"
  "tenants (del_child c nd) = tenants nd" "child (del_child c nd) = (child nd)(c := None)"
  by (cases nd; simp add: del_child_def tenant_set_def child_def delete_conv' fun_eq_iff)+

lemma wf_del_child [inv_intros]: "wf_node nd \<Longrightarrow> wf_node (del_child c nd)"
proof -
  assume "wf_node nd"
  moreover have "distinct (map fst (children nd)) \<Longrightarrow> distinct (map fst (children (del_child c nd)))"
    by (cases nd) (simp add: del_child_def distinct_delete)
  ultimately show ?thesis by (auto simp: wf_node_alt [of "del_child c nd"] wf_node_alt [of nd] split: if_splits)
qed

lemma sum_list_delete:
  fixes f :: "'b \<Rightarrow> nat"
  assumes "distinct (map fst al)"
  shows "sum_list (map (\<lambda>e. f (snd e)) (AList.delete k al)) + (case map_of al k of None \<Rightarrow> 0 | Some w \<Rightarrow> f w) =
         sum_list (map (\<lambda>e. f (snd e)) al)"
  using assms by (induction al) (auto simp: map_of_eq_None_iff delete_id split: option.splits)

lemma used_size_del_child:
  assumes "wf_node nd"
  shows "used_size t (del_child c nd) + (case child nd c of None \<Rightarrow> 0 | Some m \<Rightarrow> used_size t m) = used_size t nd"
proof (cases nd)
  case (Node x ts l cs)
  then show ?thesis
    using assms sum_list_delete [of cs "used_size t" c] by (simp add: del_child_def child_def)
qed

lemma tenant_match_del_child:
  "tenant_match t x (del_child c nd) = (if x \<noteq> [] \<and> hd x = c then 0 else tenant_match t x nd)"
  by (simp add: tenant_match_via [of t x nd] tenant_match_via [of t x "del_child c nd"])

lemma shrunk_drop_child:
  assumes wf: "wf_node nd" and ch: "child nd c = Some ch" and leaf: "tenant_set ch = {t}" "children ch = []"
  shows "shrunk t (length (node_text ch)) [c] nd (del_child c nd)"
proof -
  have hold: "(p, t') \<in> holdings ch \<longleftrightarrow> p = [] \<and> t' = t" for p t'
    using leaf by (cases p) (auto simp: child_def)
  have "holdings (del_child c nd) = holdings nd - {([c], t)}"
    using ch hold by (intro holdings_eqI [OF refl]) auto
  moreover have "match_via t' x ch = 0" if "t' \<noteq> t" for t' x using that leaf by (simp add: match_via_def)
  then have "tenant_match t' x (del_child c nd) = tenant_match t' x nd" if "t' \<noteq> t" for t' x
    using that ch by (auto simp: tenant_match_del_child tenant_match_via [of _ _ nd])
  moreover have "used_size t' ch = (if t' = t then length (node_text ch) else 0)" for t'
    using leaf by (simp add: used_size_alt [of _ ch])
  then have "used_size t' (del_child c nd) + (if t' = t then length (node_text ch) else 0) = used_size t' nd" for t'
    using used_size_del_child [OF wf, of t' c] ch by simp
  ultimately show ?thesis using wf_del_child [OF wf] by (simp add: shrunk_def tenant_match_del_child)
qed

lemma del_tenant_fields [simp]:
  "node_text (del_tenant t nd) = node_text nd" "tenant_set (del_tenant t nd) = tenant_set nd - {t}"
  "children (del_tenant t nd) = children nd" "child (del_tenant t nd) = child nd"
  by (cases nd; auto simp: del_tenant_def tenant_set_def child_def fun_eq_iff AList.delete_eq image_iff)+

lemma shrunk_del_tenant:
  assumes wf: "wf_node nd" and leaf: "t \<in> tenant_set nd" "\<And>c ch. child nd c = Some ch \<Longrightarrow> t \<notin> tenant_set ch"
  shows "shrunk t (length (node_text nd)) [] nd (del_tenant t nd)"
proof -
  have "distinct (map fst (tenants nd)) \<Longrightarrow> distinct (map fst (tenants (del_tenant t nd)))"
    by (cases nd) (simp add: del_tenant_def distinct_delete)
  then have "wf_node (del_tenant t nd)"
    using wf leaf(2) by (fastforce simp: wf_node_alt [of "del_tenant t nd"] wf_node_alt [of nd])
  moreover have "holdings (del_tenant t nd) = holdings nd - {([], t)}"
    by (intro holdings_eqI [OF refl]) auto
  moreover have "tenant_match t' x (del_tenant t nd) = tenant_match t' x nd" for t' x
    by (rule tenant_match_child_eq) simp
  moreover have "used_size t' (del_tenant t nd) + (if t' = t then length (node_text nd) else 0) = used_size t' nd" for t'
    using leaf(1) by (simp add: used_size_alt [of _ "del_tenant t nd"] used_size_alt [of _ nd])
  ultimately show ?thesis by (simp add: shrunk_def)
qed

lemma set_child_twice [simp]: "set_child c a (set_child c b nd) = set_child c a nd"
proof -
  have "AList.update c a (AList.update c b al) = AList.update c a al" for al by (induction al) auto
  then show ?thesis by (cases nd) (simp add: set_child_def)
qed

lemma del_child_set_child [simp]: "del_child c (set_child c a nd) = del_child c nd"
  by (cases nd) (simp add: set_child_def del_child_def delete_update_same)

lemma update_at_append:
  "node_at p r = Some n \<Longrightarrow> update_at f (p @ q) r = update_at (update_at f q) p r"
  by (induction p arbitrary: r) (auto split: option.splits)

lemma update_at_twice:
  "node_at p r = Some n \<Longrightarrow> update_at f p (update_at g p r) = update_at (\<lambda>m. f (g m)) p r"
  by (induction p arbitrary: r) (auto split: option.splits)

lemma node_at_update_at: "node_at p r = Some n \<Longrightarrow> node_at p (update_at f p r) = Some (f n)"
  by (induction p arbitrary: r) (auto split: option.splits)

lemma shrunk_update_at:
  assumes "wf_node r" "node_at q r = Some n" "p \<noteq> []" "shrunk t d p n (f n)"
  shows "shrunk t d (q @ p) r (update_at f q r)"
  using assms(1,2)
proof (induction q arbitrary: r)
  case Nil
  then show ?case using assms(4) by simp
next
  case (Cons c q)
  then obtain ch where ch: "child r c = Some ch" "node_at q ch = Some n" by (auto split: option.splits)
  note w = wf_childD [OF Cons(2) ch(1)]
  have shr: "shrunk t d (q @ p) ch (update_at f q ch)" by (rule Cons(1) [OF w(5) ch(2)])
  have "tenant_set (update_at f q ch) \<noteq> {}"
    using shrunk_tenant_set [OF shr] assms(3) w(3) by (simp add: tenants_Nil_iff)
  then show ?case using shrunk_child [OF Cons(2) ch(1) shr] ch(1) by simp
qed

lemma shrunk_prune:
  assumes wf: "wf_node nd" and ch: "child nd c = Some ch" and leaf: "leaf_at t [c] nd"
  shows "shrunk t (length (node_text ch)) [c] nd
     (if children ch = [] \<and> tenants (del_tenant t ch) = [] then del_child c nd
      else set_child c (del_tenant t ch) nd)"
proof -
  note w = wf_childD [OF wf ch]
  have t: "t \<in> tenant_set ch" and no: "\<And>d n. child ch d = Some n \<Longrightarrow> t \<notin> tenant_set n"
    using leaf ch by (auto simp: leaf_at_def)
  show ?thesis
  proof (cases "children ch = [] \<and> tenants (del_tenant t ch) = []")
    case True
    then have "tenant_set ch = {t}" using t by (auto simp: tenants_Nil_iff)
    then show ?thesis using True shrunk_drop_child [OF wf ch] by simp
  next
    case False
    have "tenant_set (del_tenant t ch) \<noteq> {}"
    proof (cases "children ch = []")
      case True
      then show ?thesis using False by (simp add: tenants_Nil_iff del: del_tenant_fields)
    next
      case False
      then obtain e where "e \<in> set (children ch)" by (cases "children ch") auto
      then have e: "child ch (fst e) = Some (snd e)" by (simp add: wf_children_map_of [OF w(5)])
      then show ?thesis
        using wf_childD(3,4) [OF w(5) e] no [OF e] by (auto simp: tenants_Nil_iff)
    qed
    then show ?thesis using False shrunk_child [OF wf ch shrunk_del_tenant [OF w(5) t no]] by auto
  qed
qed

lemma remove_from_node_shrunk:
  assumes wf: "wf_node r" and nd: "node_at p r = Some nd" and leaf: "leaf_at t p r"
  shows "shrunk t (length (node_text nd)) p r (remove_from_node t p r)"
proof (cases p rule: rev_cases)
  case Nil
  then have "shrunk t (length (node_text r)) [] r (del_tenant t r)"
    using leaf by (intro shrunk_del_tenant [OF wf]) (auto simp: leaf_at_def)
  then show ?thesis using Nil nd by (simp add: remove_from_node_def)
next
  case (snoc q c)
  then obtain n where n: "node_at q r = Some n" and ch: "child n c = Some nd"
    using nd by (auto simp: node_at_append split: option.splits)
  have wn: "wf_node n" by (rule node_at_facts(1) [OF wf n])
  note w = wf_childD [OF wn ch]
  obtain xs where tx: "node_text nd = c # xs" using w(1,2) by (cases "node_text nd") auto
  have pb: "butlast p = q" "p \<noteq> []" using snoc by auto
  define g where "g = update_at (del_tenant t) [c]"
  have g: "g n = set_child c (del_tenant t nd) n" by (simp add: g_def ch)
  have r1: "update_at (del_tenant t) p r = update_at g q r"
    unfolding snoc g_def by (rule update_at_append [OF n])
  have nd1: "node_at p (update_at (del_tenant t) p r) = Some (del_tenant t nd)"
    by (rule node_at_update_at [OF nd])
  let ?f = "if children nd = [] \<and> tenants (del_tenant t nd) = [] then (\<lambda>m. del_child c (g m)) else g"
  have "remove_from_node t p r = update_at ?f q r"
    using nd1 tx pb by (auto simp: remove_from_node_def r1 update_at_twice [OF n] Let_def)
  moreover have "leaf_at t [c] n" using leaf n snoc by (auto simp: leaf_at_def holdings_def node_at_append)
  then have "shrunk t (length (node_text nd)) [c] n (?f n)"
    using shrunk_prune [OF wn ch, of t] g by (auto split: if_splits)
  ultimately show ?thesis using shrunk_update_at [OF wf n] snoc by simp
qed

lemma leaf_at_shrunk:
  assumes wf: "wf_node r" and leaf: "leaf_at t p r" and shr: "shrunk t d p r r'"
  shows "t' \<noteq> t \<Longrightarrow> leaf_at t' q r' \<longleftrightarrow> leaf_at t' q r"
    and "leaf_at t q r' \<longleftrightarrow> leaf_at t q r \<and> q \<noteq> p \<or> (p \<noteq> [] \<and> q = butlast p \<and> leaf_at t q r')"
proof -
  have h: "holdings r' = holdings r - {(p, t)}" using shr by (simp add: shrunk_def)
  show "t' \<noteq> t \<Longrightarrow> leaf_at t' q r' \<longleftrightarrow> leaf_at t' q r" by (auto simp: leaf_at_def h)
  show "leaf_at t q r' \<longleftrightarrow> leaf_at t q r \<and> q \<noteq> p \<or> (p \<noteq> [] \<and> q = butlast p \<and> leaf_at t q r')"
  proof
    assume "leaf_at t q r'"
    then show "leaf_at t q r \<and> q \<noteq> p \<or> (p \<noteq> [] \<and> q = butlast p \<and> leaf_at t q r')"
      by (auto simp: leaf_at_def h)
  qed (auto simp: leaf_at_def h)
qed

lemma new_leaf_iff:
  assumes "wf_node r"
  shows "new_leaf t p r = (if p \<noteq> [] \<and> leaf_at t (butlast p) r then Some (butlast p, the (node_at (butlast p) r)) else None)"
proof (cases "node_at (butlast p) r")
  case None
  then show ?thesis by (simp add: new_leaf_def leaf_at_def holdings_def)
next
  case (Some n)
  then show ?thesis using leaf_at_node [OF assms Some] by (simp add: new_leaf_def)
qed

lemma parent_not_leaf: "leaf_at t p r \<Longrightarrow> p \<noteq> [] \<Longrightarrow> \<not> leaf_at t (butlast p) r"
  by (auto simp: leaf_at_def) (metis append_butlast_last_id)

section \<open>Removing a tenant\<close>

lemma leaf_at_node_at: "leaf_at t p r \<Longrightarrow> \<exists>nd. node_at p r = Some nd"
  by (auto simp: leaf_at_def holdings_def)

definition purged :: "tenant_id \<Rightarrow> node \<Rightarrow> node \<Rightarrow> bool" where
  "purged t r r' \<longleftrightarrow> wf_node r' \<and> node_text r' = node_text r \<and>
     holdings r' = {h \<in> holdings r. snd h \<noteq> t} \<and>
     (\<forall>t' x. t' \<noteq> t \<longrightarrow> tenant_match t' x r' = tenant_match t' x r) \<and>
     (\<forall>t'. t' \<noteq> t \<longrightarrow> used_size t' r' = used_size t' r)"

lemma purged_shrunk:
  assumes shr: "shrunk t d p r r'" and "purged t r' r''"
  shows "purged t r r''"
proof -
  have "used_size t' r' = used_size t' r" if "t' \<noteq> t" for t'
    using shr that by (auto simp: shrunk_def dest: spec [of _ t'])
  moreover have "{h \<in> holdings r'. snd h \<noteq> t} = {h \<in> holdings r. snd h \<noteq> t}"
    using shr by (auto simp: shrunk_def)
  ultimately show ?thesis using assms by (simp add: shrunk_def purged_def)
qed

lemma remove_loop_purged:
  assumes "wf_node r" "set queue = {p. leaf_at t p r}" "distinct queue"
  shows "purged t r (remove_loop t queue r)"
  using assms
proof (induction t queue r rule: remove_loop.induct)
  case (1 t r)
  have "t \<notin> tenant_set r" using leaf_exists [OF 1(1), of t] 1(2) by auto
  then have "{h \<in> holdings r. snd h \<noteq> t} = holdings r" using holdings_subset_root [OF 1(1)] by auto
  then show ?case using 1 by (simp add: purged_def)
next
  case (2 t p queue r)
  have leaf: "leaf_at t p r" using 2(3) by auto
  then obtain nd where nd: "node_at p r = Some nd" using leaf_at_node_at by blast
  let ?r = "remove_from_node t p r"
  have shr: "shrunk t (length (node_text nd)) p r ?r" by (rule remove_from_node_shrunk [OF 2(2) nd leaf])
  have wf: "wf_node ?r" using shr by (simp add: shrunk_def)
  let ?q = "case new_leaf t p ?r of None \<Rightarrow> queue | Some (q, _) \<Rightarrow> queue @ [q]"
  have q: "?q = (if p \<noteq> [] \<and> leaf_at t (butlast p) ?r then queue @ [butlast p] else queue)"
    by (simp add: new_leaf_iff [OF wf])
  have queue: "set queue = {q. leaf_at t q r \<and> q \<noteq> p}" using 2(3,4) by auto
  have "leaf_at t q ?r \<longleftrightarrow> q \<in> set ?q" for q
    using leaf_at_shrunk(2) [OF 2(2) leaf shr, of q] unfolding q by (auto simp: queue)
  moreover have "distinct ?q" using parent_not_leaf [OF leaf] 2(4) unfolding q by (auto simp: queue)
  ultimately have "purged t ?r (remove_loop t ?q ?r)" by (intro 2(1) [OF refl wf]) auto
  then show ?case using purged_shrunk [OF shr] by (simp add: Let_def)
qed

lemma used_size_absent:
  assumes "wf_node nd" "t \<notin> tenant_set nd"
  shows "used_size t nd = 0"
  using assms
proof (induction "node_count nd" arbitrary: nd rule: less_induct)
  case less
  have "used_size t (snd e) = 0" if "e \<in> set (children nd)" for e
  proof -
    have e: "child nd (fst e) = Some (snd e)" using that by (simp add: wf_children_map_of [OF less(2)])
    show ?thesis
      using less(1) [OF node_count_child [OF e] wf_childD(5) [OF less(2) e]] wf_childD(4) [OF less(2) e] less(3) by auto
  qed
  then show ?case using less(3) by (simp add: used_size_alt [of t nd])
qed

lemma remove_tenant_facts:
  assumes "wf_tree tr"
  shows "wf_tree (remove_tenant t tr)" "t \<notin> tenant_set (root (remove_tenant t tr))"
    and "tenant_char_count (remove_tenant t tr) = (tenant_char_count tr)(t := None)"
    and "holdings (root (remove_tenant t tr)) = {h \<in> holdings (root tr). snd h \<noteq> t}"
    and "tenant_match t' x (root (remove_tenant t tr)) = (if t' = t then 0 else tenant_match t' x (root tr))"
proof -
  note wf = wf_treeD [OF assms]
  let ?q = "map fst (filter (\<lambda>(p, cur). has_tenant t cur \<and> \<not> has_child_with_tenant t cur) (all_nodes (root tr)))"
  let ?r = "remove_loop t ?q (root tr)"
  have r: "root (remove_tenant t tr) = ?r" by (simp add: remove_tenant_def)
  show cnt: "tenant_char_count (remove_tenant t tr) = (tenant_char_count tr)(t := None)"
    by (simp add: remove_tenant_def)
  have "set ?q = {p. leaf_at t p (root tr)}"
  proof -
    have "p \<in> set ?q \<longleftrightarrow> leaf_at t p (root tr)" for p
    proof -
      have "p \<in> set ?q \<longleftrightarrow> (\<exists>n. node_at p (root tr) = Some n \<and> has_tenant t n \<and> \<not> has_child_with_tenant t n)"
        by (auto simp: in_all_nodes [OF wf(1)] image_iff)
      also have "\<dots> \<longleftrightarrow> leaf_at t p (root tr)"
        using leaf_at_node [OF wf(1)] leaf_at_node_at by blast
      finally show ?thesis .
    qed
    then show ?thesis by blast
  qed
  moreover have "distinct ?q"
    using distinct_all_nodes [OF wf(1)] by (simp add: distinct_map inj_on_def)
  ultimately have *: "wf_node ?r" "node_text ?r = node_text (root tr)" "holdings ?r = {h \<in> holdings (root tr). snd h \<noteq> t}"
    "\<And>t' x. t' \<noteq> t \<Longrightarrow> tenant_match t' x ?r = tenant_match t' x (root tr)"
    "\<And>t'. t' \<noteq> t \<Longrightarrow> used_size t' ?r = used_size t' (root tr)"
    using remove_loop_purged [OF wf(1)] unfolding purged_def by blast+
  show "holdings (root (remove_tenant t tr)) = {h \<in> holdings (root tr). snd h \<noteq> t}" by (simp add: r *(3))
  have no: "t \<notin> tenant_set ?r" unfolding holdings_Nil [symmetric] *(3) by simp
  then show "t \<notin> tenant_set (root (remove_tenant t tr))" by (simp add: r)
  show "tenant_match t' x (root (remove_tenant t tr)) = (if t' = t then 0 else tenant_match t' x (root tr))"
    using *(4) tenant_match_absent [OF *(1) no] by (simp add: r)
  have "count_of (remove_tenant t tr) t' = used_size t' ?r" for t'
    using *(5) wf(3) [of t'] used_size_absent [OF *(1) no]
    by (cases "t' = t") (auto simp: count_of_def cnt)
  then show "wf_tree (remove_tenant t tr)" using * wf by (simp add: wf_tree_def r)
qed

section \<open>Eviction\<close>

lemma tenant_match_unused:
  assumes "wf_node nd" "used_size t nd = 0"
  shows "tenant_match t x nd = 0"
proof -
  have "t \<notin> tenant_set ch" if ch: "child nd c = Some ch" for c ch
  proof
    assume "t \<in> tenant_set ch"
    then have "0 < used_size t ch" using wf_childD(1) [OF assms(1) ch] by (simp add: used_size_alt [of t ch])
    then show False using assms used_size_del_child [OF assms(1), of t c] ch by simp
  qed
  then show ?thesis by (auto simp: tenant_match_via match_via_def split: option.split)
qed

abbreviation entry_leaf :: "eviction_entry \<Rightarrow> tenant_id \<times> path" where
  "entry_leaf e \<equiv> (entry_tenant e, entry_node e)"

lemma evict_entry_cases [consumes 1, case_names skip evict]:
  assumes wf: "wf_tree tr"
  obtains
    "evict_entry max_size e tr = (tr, [])"
    "count_of tr (entry_tenant e) \<le> max_size \<or> \<not> leaf_at (entry_tenant e) (entry_node e) (root tr)"
  | nd tr' push where "evict_entry max_size e tr = (tr', push)"
    "leaf_at (entry_tenant e) (entry_node e) (root tr)"
    "shrunk (entry_tenant e) (length (node_text nd)) (entry_node e) (root tr) (root tr')"
    "wf_tree tr'" "max_size < count_of tr (entry_tenant e) \<or> used_size (entry_tenant e) (root tr) = 0"
    "map entry_leaf push =
       (if entry_node e \<noteq> [] \<and> leaf_at (entry_tenant e) (butlast (entry_node e)) (root tr')
        then [(entry_tenant e, butlast (entry_node e))] else [])"
proof -
  note w = wf_treeD [OF wf]
  let ?t = "entry_tenant e" and ?p = "entry_node e"
  show thesis
  proof (cases "within_budget max_size ?t tr \<or> \<not> is_still_leaf ?t ?p (root tr)")
    case True
    then have "evict_entry max_size e tr = (tr, [])" by (auto simp: evict_entry_def Let_def)
    moreover have "within_budget max_size ?t tr \<Longrightarrow> count_of tr ?t \<le> max_size"
      by (simp add: within_budget_def count_of_def split: option.splits)
    ultimately show thesis using that(1) True leaf_at_is_still_leaf [OF w(1)] by blast
  next
    case False
    then have leaf: "leaf_at ?t ?p (root tr)" by (simp add: leaf_at_is_still_leaf [OF w(1)])
    then obtain nd where nd: "node_at ?p (root tr) = Some nd" using leaf_at_node_at by blast
    obtain tr' push where ev: "evict_entry max_size e tr = (tr', push)" by fastforce
    have root: "root tr' = remove_from_node ?t ?p (root tr)"
      using ev False by (auto simp: evict_entry_def Let_def)
    have shr: "shrunk ?t (length (node_text nd)) ?p (root tr) (root tr')"
      unfolding root by (rule remove_from_node_shrunk [OF w(1) nd leaf])
    have "count_of tr' t = count_of tr t - (if t = ?t then length (node_text nd) else 0)" for t
      using ev False nd by (auto simp: evict_entry_def Let_def count_of_def split: option.splits)
    moreover have "used_size t (root tr') + (if t = ?t then length (node_text nd) else 0) = used_size t (root tr)" for t
      using shr by (simp add: shrunk_def)
    then have "used_size t (root tr') = used_size t (root tr) - (if t = ?t then length (node_text nd) else 0)" for t
      by (metis add_diff_cancel_right')
    ultimately have "wf_tree tr'" using w shr by (simp add: wf_tree_def shrunk_def)
    moreover have "max_size < count_of tr ?t \<or> used_size ?t (root tr) = 0"
      using False w(3) [of ?t] by (simp add: within_budget_def count_of_def split: option.splits)
    moreover have "map entry_leaf push = (if ?p \<noteq> [] \<and> leaf_at ?t (butlast ?p) (root tr')
        then [(?t, butlast ?p)] else [])"
    proof -
      have push: "push = (case new_leaf ?t ?p (root tr') of None \<Rightarrow> []
        | Some (q, parent) \<Rightarrow> (case map_of (tenants parent) ?t of None \<Rightarrow> []
            | Some ts \<Rightarrow> [\<lparr>timestamp = ts, entry_tenant = ?t, entry_node = q\<rparr>]))"
        using ev False by (auto simp: evict_entry_def Let_def root)
      have "has_tenant ?t (the (node_at (butlast ?p) (root tr')))" if "leaf_at ?t (butlast ?p) (root tr')"
        using that by (auto simp: leaf_at_def holdings_def has_tenant_iff)
      then show ?thesis using new_leaf_iff [OF wf_treeD(1) [OF \<open>wf_tree tr'\<close>]]
        by (auto simp: push has_tenant_def)
    qed
    ultimately show thesis using that(2) [OF ev leaf shr] by blast
  qed
qed

definition evict_inv :: "nat \<Rightarrow> tree \<Rightarrow> tree \<times> eviction_entry list \<Rightarrow> bool" where
  "evict_inv max_size tr0 s \<longleftrightarrow> wf_tree (fst s) \<and>
     (\<forall>t p. leaf_at t p (root (fst s)) \<and> max_size < count_of (fst s) t \<longrightarrow> (t, p) \<in> entry_leaf ` set (snd s)) \<and>
     (\<forall>t. count_of (fst s) t \<le> count_of tr0 t \<and> (\<forall>x. tenant_match t x (root (fst s)) \<le> tenant_match t x (root tr0))) \<and>
     (\<forall>t. count_of tr0 t \<le> max_size \<longrightarrow>
        count_of (fst s) t = count_of tr0 t \<and> (\<forall>x. tenant_match t x (root (fst s)) = tenant_match t x (root tr0)))"

lemma evict_entry_frame:
  assumes wf: "wf_tree tr" and shr: "shrunk t0 d p (root tr) (root tr')" and wf': "wf_tree tr'"
    and why: "max_size < count_of tr t0 \<or> used_size t0 (root tr) = 0"
  shows "count_of tr' t \<le> count_of tr t" "tenant_match t x (root tr') \<le> tenant_match t x (root tr)"
    and "count_of tr t \<le> max_size \<Longrightarrow> count_of tr' t = count_of tr t"
    and "count_of tr t \<le> max_size \<Longrightarrow> tenant_match t x (root tr') = tenant_match t x (root tr)"
proof -
  note w = wf_treeD [OF wf] and w' = wf_treeD [OF wf']
  have u: "used_size t (root tr') + (if t = t0 then d else 0) = used_size t (root tr)"
    using shr by (simp add: shrunk_def)
  then show le: "count_of tr' t \<le> count_of tr t" using w(3) [of t] w'(3) [of t] by linarith
  show lem: "tenant_match t x (root tr') \<le> tenant_match t x (root tr)"
    using shr by (cases "t = t0") (auto simp: shrunk_def)
  show "count_of tr' t = count_of tr t" if "count_of tr t \<le> max_size"
    using u why that w(3) [of t] w'(3) [of t] by (auto split: if_splits)
  show "tenant_match t x (root tr') = tenant_match t x (root tr)" if "count_of tr t \<le> max_size"
  proof (cases "t = t0")
    case True
    then have "used_size t (root tr) = 0" using why that by auto
    then show ?thesis using tenant_match_unused [OF w(1)] lem by simp
  next
    case False
    then show ?thesis using shr by (simp add: shrunk_def)
  qed
qed

lemma evict_invD:
  assumes "evict_inv max_size tr0 (tr, pq)"
  shows "wf_tree tr"
    and "leaf_at t p (root tr) \<Longrightarrow> max_size < count_of tr t \<Longrightarrow> (t, p) \<in> entry_leaf ` set pq"
    and "count_of tr t \<le> count_of tr0 t" "tenant_match t x (root tr) \<le> tenant_match t x (root tr0)"
    and "count_of tr0 t \<le> max_size \<Longrightarrow> count_of tr t = count_of tr0 t"
    and "count_of tr0 t \<le> max_size \<Longrightarrow> tenant_match t x (root tr) = tenant_match t x (root tr0)"
  using assms by (simp_all add: evict_inv_def)

lemma evict_invI:
  assumes "wf_tree tr"
    and "\<And>t p. leaf_at t p (root tr) \<Longrightarrow> max_size < count_of tr t \<Longrightarrow> (t, p) \<in> entry_leaf ` set pq"
    and "\<And>t. count_of tr t \<le> count_of tr0 t" "\<And>t x. tenant_match t x (root tr) \<le> tenant_match t x (root tr0)"
    and "\<And>t. count_of tr0 t \<le> max_size \<Longrightarrow> count_of tr t = count_of tr0 t"
    and "\<And>t x. count_of tr0 t \<le> max_size \<Longrightarrow> tenant_match t x (root tr) = tenant_match t x (root tr0)"
  shows "evict_inv max_size tr0 (tr, pq)"
  using assms by (simp add: evict_inv_def)

lemma evict_inv_entry:
  assumes inv: "evict_inv max_size tr0 (tr, pq)" and pq: "set pq = insert e (set rest)"
  shows "evict_inv max_size tr0 (fst (evict_entry max_size e tr), rest @ snd (evict_entry max_size e tr))"
proof -
  note I = evict_invD [OF inv]
  let ?t = "entry_tenant e" and ?p = "entry_node e"
  have inq: "(t, p) \<in> entry_leaf ` set rest"
    if "leaf_at t p (root tr)" "max_size < count_of tr t" "(t, p) \<noteq> (?t, ?p)" for t p
    using I(2) [OF that(1,2)] that(3) pq by auto
  from I(1) show ?thesis
  proof (cases rule: evict_entry_cases [where e = e and max_size = max_size])
    case skip
    have "(t, p) \<in> entry_leaf ` set rest" if "leaf_at t p (root tr)" "max_size < count_of tr t" for t p
      using inq [OF that] that skip(2) by (cases "(t, p) = (?t, ?p)") auto
    then show ?thesis using I by (simp add: skip(1) evict_invI)
  next
    case (evict nd tr' push)
    note frame = evict_entry_frame [OF I(1) evict(3,4,5)]
    have "(t, p) \<in> entry_leaf ` set (rest @ push)" if l: "leaf_at t p (root tr')" "max_size < count_of tr' t" for t p
    proof (cases "leaf_at t p (root tr) \<and> (t, p) \<noteq> (?t, ?p)")
      case True
      have "max_size < count_of tr t" using l(2) frame(1) [of t] by linarith
      then show ?thesis using inq True by auto
    next
      case False
      have t: "t = ?t" using leaf_at_shrunk(1) [OF wf_treeD(1) [OF I(1)] evict(2,3), of t p] l(1) False by auto
      then have "?p \<noteq> []" "p = butlast ?p"
        using leaf_at_shrunk(2) [OF wf_treeD(1) [OF I(1)] evict(2,3), of p] l(1) False by auto
      then have "(t, p) \<in> set (map entry_leaf push)" using evict(6) l(1) t by simp
      then show ?thesis by auto
    qed
    then have "evict_inv max_size tr0 (tr', rest @ push)"
    proof (rule evict_invI [OF evict(4)])
      show "count_of tr' t \<le> count_of tr0 t" for t using I(3) [of t] frame(1) [of t] by linarith
      show "tenant_match t x (root tr') \<le> tenant_match t x (root tr0)" for t x
        using I(4) [of t x] frame(2) [of t x] by linarith
      fix t x assume small: "count_of tr0 t \<le> max_size"
      then have "count_of tr t \<le> max_size" using I(3) [of t] by linarith
      then show "count_of tr' t = count_of tr0 t" "tenant_match t x (root tr') = tenant_match t x (root tr0)"
        using I(5,6) [OF small] frame(3,4) by simp_all
    qed
    then show ?thesis by (simp add: evict(1))
  qed
qed

lemma evict_inv_step:
  "evict_step max_size s s' \<Longrightarrow> evict_inv max_size tr0 s \<Longrightarrow> evict_inv max_size tr0 s'"
proof (induction rule: evict_step.induct)
  case (pop pq1 pq2 e tr)
  then show ?case using evict_inv_entry [of max_size tr0 tr "pq1 @ e # pq2" e "pq1 @ pq2"] by simp
qed

lemma evict_inv_init:
  assumes "wf_tree tr"
  shows "evict_inv max_size tr (tr, eviction_queue (root tr))"
proof -
  note w = wf_treeD [OF assms]
  have "(t, p) \<in> entry_leaf ` set (eviction_queue (root tr))" if leaf: "leaf_at t p (root tr)" for t p
  proof -
    obtain nd where nd: "node_at p (root tr) = Some nd" using leaf_at_node_at [OF leaf] by blast
    have t: "t \<in> set (leaf_of nd)" and h: "has_tenant t nd"
      using leaf leaf_at_node [OF w(1) nd] set_leaf_of [OF node_at_facts(1) [OF w(1) nd]] by auto
    then obtain ts where ts: "map_of (tenants nd) t = Some ts" by (auto simp: has_tenant_def)
    have "(p, nd) \<in> set (all_nodes (root tr))" using in_all_nodes [OF w(1)] nd by simp
    then have "\<lparr>timestamp = ts, entry_tenant = t, entry_node = p\<rparr> \<in> set (eviction_queue (root tr))"
      using t ts by (force simp: eviction_queue_def)
    then show ?thesis by force
  qed
  then show ?thesis using assms by (simp add: evict_inv_def)
qed

lemma evict_inv_steps:
  "(evict_step max_size)\<^sup>*\<^sup>* s s' \<Longrightarrow> evict_inv max_size tr0 s \<Longrightarrow> evict_inv max_size tr0 s'"
  by (induction rule: rtranclp_induct) (auto intro: evict_inv_step)

lemma evict_inv_done:
  assumes "evict_inv max_size tr0 (tr, [])"
  shows "count_of tr t \<le> max_size"
proof (rule ccontr)
  assume "\<not> count_of tr t \<le> max_size"
  moreover have wf: "wf_tree tr" using assms by (simp add: evict_inv_def)
  ultimately have big: "max_size < used_size t (root tr)" using wf_treeD(3) [OF wf, of t] by simp
  then have "t \<in> tenant_set (root tr)" using used_size_absent [OF wf_treeD(1) [OF wf], of t] by fastforce
  then obtain p where "leaf_at t p (root tr)" using leaf_exists [OF wf_treeD(1) [OF wf]] by blast
  then show False using assms big wf_treeD(3) [OF wf, of t] by (auto simp: evict_inv_def)
qed

definition pending :: "tree \<times> eviction_entry list \<Rightarrow> nat" where
  "pending s = sum_list (map (\<lambda>e. Suc (length (entry_node e))) (snd s))"

lemma evict_push_shorter:
  "sum_list (map (\<lambda>e'. Suc (length (entry_node e'))) (snd (evict_entry max_size e tr))) < Suc (length (entry_node e))"
  by (auto simp: evict_entry_def Let_def split: option.splits dest: new_leaf_shorter)

lemma evict_step_pending: "evict_step max_size s s' \<Longrightarrow> pending s' < pending s"
  using evict_push_shorter by (auto simp: pending_def elim!: evict_step.cases)

lemma evict_step_possible:
  assumes "pq \<noteq> []"
  shows "\<exists>s'. evict_step max_size (tr, pq) s'"
proof -
  let ?e = "arg_min_list timestamp pq"
  obtain a b where pq: "pq = a @ ?e # b" using arg_min_list_in [OF assms] by (metis split_list)
  have "timestamp ?e \<le> timestamp e'" if "e' \<in> set (a @ b)" for e'
  proof -
    have "e' \<in> set pq" using that by (subst pq) auto
    then show ?thesis using f_arg_min_list_f [OF assms, of timestamp] by (simp add: Min_le)
  qed
  then show ?thesis using evict_step.pop [of a b ?e max_size tr] pq by auto
qed

lemma evict_terminates: "\<exists>tr'. (evict_step max_size)\<^sup>*\<^sup>* s (tr', [])"
proof (induction "pending s" arbitrary: s rule: less_induct)
  case less
  obtain tr pq where s: "s = (tr, pq)" by fastforce
  show ?case
  proof (cases "pq = []")
    case True
    then show ?thesis using s by blast
  next
    case False
    then obtain s' where s': "evict_step max_size s s'" using evict_step_possible s by blast
    then show ?thesis using less evict_step_pending by (meson converse_rtranclp_into_rtranclp)
  qed
qed

end
