(* ===== verification/Radix_Spec.thy ===== *)
theory Radix_Spec
  imports Radix_Evict
begin

text \<open>
  The contract of the radix tree.

  \<open>tree_step\<close> is one operation of the tree; its label records what happened.  The
  invariant holds in every reachable tree.  The abstract state is the history of the
  insertions that were not undone by a removal: the tree matches for a tenant as much of
  a text as the longest common prefix with a text inserted for it.  Eviction forgets
  texts, but only of tenants over the budget.
\<close>

section \<open>Operations as steps\<close>

datatype tree_event =
    Inserted chars tenant_id
  | Rejected chars tenant_id
  | Matched chars
  | Matched_Tenant chars tenant_id
  | Evicted nat
  | Removed tenant_id

inductive tree_step :: "tree \<Rightarrow> tree_event \<Rightarrow> tree \<Rightarrow> bool" where
  ins: "tree_step tr (Inserted y t) (insert_text e y t tr)"
| cap: "insert_capped e y t m tr = (True, tr') \<Longrightarrow> tree_step tr (Inserted y t) tr'"
| rej: "insert_capped e y t m tr = (False, tr') \<Longrightarrow> tree_step tr (Rejected y t) tr'"
| mat: "tree_step tr (Matched x) (snd (prefix_match_with_counts e x tr))"
| mat_t: "tree_step tr (Matched_Tenant x t) (snd (prefix_match_tenant e x t tr))"
| evi: "evict_tenant_by_size m tr tr' \<Longrightarrow> tree_step tr (Evicted m) tr'"
| rem: "tree_step tr (Removed t) (remove_tenant t tr)"

inductive tree_run :: "tree_event list \<Rightarrow> tree \<Rightarrow> bool" where
  start: "tree_run [] new_tree"
| more: "tree_run evs tr \<Longrightarrow> tree_step tr ev tr' \<Longrightarrow> tree_run (ev # evs) tr'"

section \<open>The abstract store\<close>

fun store_of :: "tree_event list \<Rightarrow> (tenant_id \<times> chars) list" where
  "store_of [] = []"
| "store_of (Inserted y t # evs) = (t, y) # store_of evs"
| "store_of (Removed t # evs) = filter (\<lambda>e. fst e \<noteq> t) (store_of evs)"
| "store_of (_ # evs) = store_of evs"

fun longest_match :: "(tenant_id \<times> chars) list \<Rightarrow> tenant_id \<Rightarrow> chars \<Rightarrow> nat" where
  "longest_match [] t x = 0"
| "longest_match (e # st) t x = max (longest_match st t x) (if fst e = t then lcp (snd e) x else 0)"

fun evicts :: "tree_event \<Rightarrow> bool" where
  "evicts (Evicted m) = True"
| "evicts _ = False"

lemma longest_match_filter:
  "longest_match (filter (\<lambda>e. fst e \<noteq> t) st) t' x = (if t' = t then 0 else longest_match st t' x)"
  by (induction st) auto

lemma insert_capped_cases:
  "insert_capped e y t m tr = (True, tr') \<Longrightarrow> tr' = insert_text e y t tr \<and> count_of tr t < m"
  "insert_capped e y t m tr = (False, tr') \<Longrightarrow> tr' = tr \<and> m \<le> count_of tr t"
  by (auto simp: insert_capped_def count_of_def split: if_splits option.splits)

lemma evict_facts:
  assumes "wf_tree tr" "evict_tenant_by_size m tr tr'"
  shows "evict_inv m tr (tr', [])"
  using assms evict_inv_steps evict_inv_init by (auto simp: evict_tenant_by_size_def)

lemma tree_step_wf: "tree_step tr ev tr' \<Longrightarrow> wf_tree tr \<Longrightarrow> wf_tree tr'"
  by (induction rule: tree_step.induct)
    (auto simp: insert_text_facts(1) prefix_match_with_counts_facts(1) prefix_match_tenant_facts(1)
      remove_tenant_facts(1) dest!: insert_capped_cases dest: evict_facts evict_invD(1))

lemma tree_run_wf: "tree_run evs tr \<Longrightarrow> wf_tree tr"
  by (induction rule: tree_run.induct) (auto intro: wf_new_tree tree_step_wf)

lemma similar_match: "similar nd nd' \<Longrightarrow> tenant_match t x nd' = tenant_match t x nd"
  by (simp add: similar_def)

lemma tree_step_match:
  assumes "tree_step tr ev tr'" "wf_tree tr" "\<not> evicts ev"
    "\<And>t x. tenant_match t x (root tr) = longest_match (store_of evs) t x"
  shows "tenant_match t x (root tr') = longest_match (store_of (ev # evs)) t x"
  using assms
proof (induction rule: tree_step.induct)
  case (cap e y t' m tr tr')
  then show ?case using insert_text_facts(2) by (auto dest!: insert_capped_cases(1))
next
  case (rej e y t' m tr tr')
  then show ?case by (auto dest!: insert_capped_cases(2))
qed (simp_all add: insert_text_facts(2) longest_match_filter remove_tenant_facts(5)
    similar_match [OF prefix_match_with_counts_facts(2)] similar_match [OF prefix_match_tenant_facts(2)])

lemma tree_run_match:
  "tree_run evs tr \<Longrightarrow> \<not> list_ex evicts evs \<Longrightarrow> tenant_match t x (root tr) = longest_match (store_of evs) t x"
proof (induction arbitrary: t x rule: tree_run.induct)
  case start
  then show ?case by (simp add: new_tree_def tenant_match_via child_def)
next
  case (more evs tr ev tr')
  then show ?case using tree_step_match [OF more(2) tree_run_wf [OF more(1)]] by simp
qed

lemma longest_match_ge: "(t, y) \<in> set st \<Longrightarrow> lcp y x \<le> longest_match st t x"
  by (induction st) auto

lemma longest_match_attained:
  "0 < longest_match st t x \<Longrightarrow> \<exists>y. (t, y) \<in> set st \<and> longest_match st t x = lcp y x"
  by (induction st) (auto simp: max_def split: if_splits)

section \<open>Accounting\<close>

abbreviation default0 :: "nat option \<Rightarrow> nat" where
  "default0 v \<equiv> (case v of None \<Rightarrow> 0 | Some n \<Rightarrow> n)"

lemma sum_list_concat: "sum_list (concat xss) = (\<Sum>xs\<leftarrow>xss. sum_list xs)" for xss :: "nat list list"
  by (induction xss) auto

lemma used_size_below:
  "used_size t nd = sum_list (map (\<lambda>(p, n). if t \<in> tenant_set n then length (node_text n) else 0) (below p nd))"
proof (induction "node_count nd" arbitrary: nd p rule: less_induct)
  case less
  have IH: "used_size t (snd e) = sum_list (map (\<lambda>(p, n). if t \<in> tenant_set n then length (node_text n) else 0)
      (below (p @ [fst e]) (snd e)))" if "e \<in> set (children nd)" for e
  proof (rule less)
    have "node_count (snd e) \<le> sum_list (map (\<lambda>e. node_count (snd e)) (children nd))"
      using that by (intro member_le_sum_list) auto
    then show "node_count (snd e) < node_count nd" using sum_node_count_children [of nd] by linarith
  qed
  have "sum_list (map (\<lambda>e. used_size t (snd e)) (children nd)) =
      sum_list (map (\<lambda>e. sum_list (map (\<lambda>(p, n). if t \<in> tenant_set n then length (node_text n) else 0)
        (below (p @ [fst e]) (snd e)))) (children nd))"
    by (intro arg_cong [where f = sum_list] map_cong refl IH)
  then show ?case
    by (subst below_unfold) (simp add: used_size_alt [of t nd] map_concat sum_list_concat comp_def)
qed

lemma fold_tenants:
  "distinct (map fst ts) \<Longrightarrow>
   default0 (fold (\<lambda>kv m. m(fst kv \<mapsto> default0 (m (fst kv)) + n)) ts m t) =
     default0 (m t) + (if t \<in> fst ` set ts then n else 0)"
  by (induction ts arbitrary: m) auto

lemma fold_nodes:
  "\<forall>e\<in>set ns. distinct (map fst (tenants (snd e))) \<Longrightarrow>
   default0 (fold (\<lambda>(p, cur). add_tenant_sizes cur) ns m t) =
     default0 (m t) + sum_list (map (\<lambda>(p, n). if t \<in> tenant_set n then length (node_text n) else 0) ns)"
proof (induction ns arbitrary: m)
  case (Cons e ns)
  have "default0 (add_tenant_sizes (snd e) m t) =
      default0 (m t) + (if t \<in> tenant_set (snd e) then length (node_text (snd e)) else 0)"
    unfolding add_tenant_sizes_def tenant_set_def using Cons(2) by (intro fold_tenants) simp
  then show ?case using Cons by (cases e) (simp add: tenant_set_def)
qed simp

lemma get_used_size:
  assumes "wf_tree tr"
  shows "default0 (get_used_size_per_tenant tr t) = used_size t (root tr)"
proof -
  note w = wf_treeD [OF assms]
  let ?g = "\<lambda>(p, n). if t \<in> tenant_set n then length (node_text n) else 0"
  have "distinct (map fst (tenants (snd e)))" if "e \<in> set (all_nodes (root tr))" for e
  proof -
    have "node_at (fst e) (root tr) = Some (snd e)" using in_all_nodes [OF w(1), of "fst e" "snd e"] that by simp
    then have "wf_node (snd e)" by (rule node_at_facts(1) [OF w(1)])
    then show ?thesis by (simp add: wf_node_alt [of "snd e"])
  qed
  then have "default0 (get_used_size_per_tenant tr t) = sum_list (map ?g (all_nodes (root tr)))"
    unfolding get_used_size_per_tenant_def by (subst fold_nodes) simp_all
  also have "\<dots> = sum_mset (mset (map ?g (all_nodes (root tr))))" by (rule sum_mset_sum_list [symmetric])
  also have "\<dots> = sum_mset (mset (map ?g (below [] (root tr))))" by (simp only: mset_map all_nodes_mset)
  also have "\<dots> = sum_list (map ?g (below [] (root tr)))" by (rule sum_mset_sum_list)
  also have "\<dots> = used_size t (root tr)" by (rule used_size_below [symmetric])
  finally show ?thesis .
qed

section \<open>Properties\<close>

lemma char_count_match: "prefix_match_tenant_char_count x t tr = tenant_match t x (root tr)"
  by (simp add: prefix_match_tenant_char_count_def prefix_match_tenant_state_facts)

definition demo_tree :: tree where
  "demo_tree = insert_text 2 [1, 2, 9] ''b'' (insert_text 1 [1, 2, 3] ''a'' new_tree)"

definition demo_events :: "tree_event list" where
  "demo_events = [Inserted [1, 2, 9] ''b'', Inserted [1, 2, 3] ''a'']"

lemma demo_run: "tree_run demo_events demo_tree"
  unfolding demo_events_def demo_tree_def by (rule more [OF more [OF start ins] ins])

text \<open>
  C1: The tree refines its insertion history.  After any sequence of insertions, capped
  insertions, matches and removals of tenants, the number of characters of a text that
  the tree matches for a tenant is the longest common prefix of the text with any of the
  texts inserted for that tenant since it was last removed (0 if there is none).  In
  particular the splitting of nodes never loses or invents a match.
\<close>

theorem tree_refines_history:
  assumes "tree_run evs tr" "\<not> list_ex evicts evs"
  shows "prefix_match_tenant_char_count x t tr = longest_match (store_of evs) t x"
  using tree_run_match [OF assms] by (simp add: char_count_match)

theorem tree_refines_history_witness:
  "prefix_match_tenant_char_count [1, 2, 3, 4] ''a'' demo_tree = 3 \<and>
   prefix_match_tenant_char_count [1, 2, 3, 4] ''b'' demo_tree = 2"
proof -
  have "\<not> list_ex evicts demo_events" by (simp add: demo_events_def)
  note * = tree_refines_history [OF demo_run this, of "[1, 2, 3, 4]"]
  show ?thesis unfolding * by (simp add: demo_events_def)
qed

text \<open>
  C9: The prefix match returns the best tenant.  In every reachable tree, the tenant that
  \<^verbatim>\<open>prefix_match_with_counts\<close> picks matches exactly the reported number of characters, no
  tenant matches more, the input length is reported as it is, and the match changes what
  no tenant matches for no text.
\<close>

theorem prefix_match_picks_best:
  assumes "tree_run evs tr" "prefix_match_with_counts e x tr = (r, tr')"
  shows "prefix_match_tenant_char_count x (tenant r) tr = matched_char_count r \<and>
     (\<forall>t. prefix_match_tenant_char_count x t tr \<le> matched_char_count r) \<and>
     input_char_count r = length x \<and>
     (\<forall>t y. prefix_match_tenant_char_count y t tr' = prefix_match_tenant_char_count y t tr)"
proof -
  note wf = tree_run_wf [OF assms(1)]
  have tr': "similar (root tr) (root tr')" using prefix_match_with_counts_facts(2) [OF wf, where e = e and x = x] assms(2) by simp
  show ?thesis
    using prefix_match_with_counts_facts(3-5) [OF wf, where e = e and x = x] assms(2) similar_match [OF tr']
    by (simp add: char_count_match)
qed

theorem prefix_match_picks_best_witness:
  "\<exists>r tr'. prefix_match_with_counts 0 [1, 2, 3, 4] demo_tree = (r, tr') \<and>
     prefix_match_tenant_char_count [1, 2, 3, 4] (tenant r) demo_tree = matched_char_count r \<and>
     input_char_count r = 4"
proof -
  obtain r tr' where r: "prefix_match_with_counts 0 [1, 2, 3, 4] demo_tree = (r, tr')" by fastforce
  show ?thesis using prefix_match_picks_best [OF demo_run r] r by auto
qed

text \<open>
  C10: The accounting is exact.  In every reachable tree, the character count kept for a
  tenant is what \<^verbatim>\<open>get_used_size_per_tenant\<close> finds by walking all nodes, whatever insertions,
  splits, matches, evictions and removals came before.
\<close>

theorem tenant_char_count_exact:
  assumes "tree_run evs tr"
  shows "default0 (tenant_char_count tr t) = default0 (get_used_size_per_tenant tr t)"
  using get_used_size [OF tree_run_wf [OF assms]] wf_treeD(3) [OF tree_run_wf [OF assms]]
  by (simp add: count_of_def)

theorem tenant_char_count_exact_witness:
  "default0 (tenant_char_count demo_tree ''a'') = default0 (get_used_size_per_tenant demo_tree ''a'')"
  by (rule tenant_char_count_exact [OF demo_run])

text \<open>
  C3: Eviction terminates and enforces the budget.  From every reachable tree and in
  whatever order equal timestamps are popped, the eviction loop ends; it ends with every
  tenant within the budget, and a tenant that was within the budget keeps its count and
  all its matches.
\<close>

theorem eviction_enforces_budget:
  assumes "tree_run evs tr"
  shows "wfP (\<lambda>s' s. evict_step m s s') \<and> (\<exists>tr'. evict_tenant_by_size m tr tr') \<and>
     (\<forall>tr'. evict_tenant_by_size m tr tr' \<longrightarrow>
        (\<forall>t. count_of tr' t \<le> m) \<and>
        (\<forall>t. count_of tr t \<le> m \<longrightarrow> count_of tr' t = count_of tr t \<and>
          (\<forall>x. prefix_match_tenant_char_count x t tr' = prefix_match_tenant_char_count x t tr)))"
proof (intro conjI allI impI)
  note wf = tree_run_wf [OF assms]
  show "wfP (\<lambda>s' s. evict_step m s s')"
    by (rule wfp_if_convertible_to_nat [of _ pending]) (rule evict_step_pending)
  show "\<exists>tr'. evict_tenant_by_size m tr tr'" using evict_terminates by (simp add: evict_tenant_by_size_def)
  fix tr' t assume ev: "evict_tenant_by_size m tr tr'"
  note inv = evict_facts [OF wf ev]
  show "count_of tr' t \<le> m" by (rule evict_inv_done [OF inv])
  assume "count_of tr t \<le> m"
  then show "count_of tr' t = count_of tr t"
    "prefix_match_tenant_char_count x t tr' = prefix_match_tenant_char_count x t tr" for x
    using evict_invD(5,6) [OF inv] by (simp_all add: char_count_match)
qed

theorem eviction_enforces_budget_witness:
  "\<exists>tr'. evict_tenant_by_size 2 demo_tree tr' \<and> count_of tr' ''a'' \<le> 2 \<and> count_of tr' ''b'' \<le> 2"
  using eviction_enforces_budget [OF demo_run, of 2] by blast

text \<open>
  Removing a tenant takes away the tenant and nothing else.  Afterwards no node of the
  tree carries it, it matches nothing and has no count; every other tenant keeps its
  nodes, its matches and its count.
\<close>

theorem remove_tenant_exact:
  assumes "tree_run evs tr"
  shows "holdings (root (remove_tenant t tr)) = {h \<in> holdings (root tr). snd h \<noteq> t} \<and>
     tenant_char_count (remove_tenant t tr) = (tenant_char_count tr)(t := None) \<and>
     prefix_match_tenant_char_count x t' (remove_tenant t tr) =
       (if t' = t then 0 else prefix_match_tenant_char_count x t' tr)"
  using remove_tenant_facts(3-5) [OF tree_run_wf [OF assms]] by (simp add: char_count_match)

theorem remove_tenant_exact_witness:
  "prefix_match_tenant_char_count [1, 2, 9] ''a'' (remove_tenant ''a'' demo_tree) = 0 \<and>
   prefix_match_tenant_char_count [1, 2, 9] ''b'' (remove_tenant ''a'' demo_tree) =
     prefix_match_tenant_char_count [1, 2, 9] ''b'' demo_tree"
  using remove_tenant_exact [OF demo_run, of "''a''" "[1, 2, 9]" "''a''"]
    remove_tenant_exact [OF demo_run, of "''a''" "[1, 2, 9]" "''b''"] by simp

text \<open>
  A capped insertion overshoots by at most one text.  It is refused exactly when the
  tenant has reached the cap, and then changes nothing; when it happens, the tenant's
  count stays below the cap plus the length of the inserted text, and the other counts do
  not change.
\<close>

theorem insert_capped_overshoot:
  assumes "insert_capped e y t m tr = (ok, tr')"
  shows "(ok \<longleftrightarrow> count_of tr t < m) \<and> (\<not> ok \<longrightarrow> tr' = tr) \<and>
     (ok \<longrightarrow> count_of tr t \<le> count_of tr' t \<and> count_of tr' t < m + length y) \<and>
     (\<forall>t'. t' \<noteq> t \<longrightarrow> count_of tr' t' = count_of tr t')"
proof (cases ok)
  case True
  then have "tr' = insert_text e y t tr" "count_of tr t < m" using assms insert_capped_cases(1) by auto
  moreover have "count_of tr t \<le> count_of (insert_text e y t tr) t"
    by (auto simp: insert_text_def count_of_def Let_def split_beta split: option.split)
  ultimately show ?thesis using True insert_text_count [where e = e and y = y and t = t and tr = tr] by fastforce
next
  case False
  then show ?thesis using assms insert_capped_cases(2) [of e y t m tr tr'] by simp
qed

theorem insert_capped_overshoot_witness:
  "\<exists>ok tr'. insert_capped 5 [1, 2, 3] ''a'' 2 new_tree = (ok, tr') \<and> ok \<and> count_of tr' ''a'' < 5"
proof -
  obtain ok tr' where r: "insert_capped 5 [1, 2, 3] ''a'' 2 new_tree = (ok, tr')" by fastforce
  have "count_of new_tree ''a'' = 0" by (simp add: count_of_def new_tree_def)
  then show ?thesis using insert_capped_overshoot [OF r] r by auto
qed

end
