(* ===== verification/Utf8_Text.thy ===== *)
theory Utf8_Text
  imports Radix_Tree
begin

text \<open>
  The byte-level text operations of \<^verbatim>\<open>tree.rs\<close>.  The tree is modelled on lists of
  characters; the program works on UTF-8 byte strings, with a fast path that counts and
  slices bytes as long as they are ASCII.  The lemmas show that on UTF-8 text each
  operation is the operation on characters that the tree model uses.

  A byte is a natural number below 256.  \<open>char_indices\<close> is the standard library's
  iterator over the byte offsets and the characters of a string; the decoding is the one
  of the UTF-8 encoding scheme.
\<close>

type_synonym bytes = "nat list"

section \<open>UTF-8\<close>

definition utf8_char :: "nat \<Rightarrow> bytes" where
  "utf8_char c =
     (if c < 128 then [c]
      else if c < 2048 then [192 + c div 64, 128 + c mod 64]
      else if c < 65536 then [224 + c div 4096, 128 + c div 64 mod 64, 128 + c mod 64]
      else [240 + c div 262144, 128 + c div 4096 mod 64, 128 + c div 64 mod 64, 128 + c mod 64])"

definition utf8 :: "chars \<Rightarrow> bytes" where
  "utf8 x = concat (map utf8_char x)"

definition utf8_width :: "nat \<Rightarrow> nat" where
  "utf8_width b = (if b < 128 then 1 else if b < 224 then 2 else if b < 240 then 3 else 4)"

fun utf8_decode :: "bytes \<Rightarrow> nat" where
  "utf8_decode [b0] = b0"
| "utf8_decode [b0, b1] = b0 mod 32 * 64 + b1 mod 64"
| "utf8_decode [b0, b1, b2] = b0 mod 16 * 4096 + b1 mod 64 * 64 + b2 mod 64"
| "utf8_decode [b0, b1, b2, b3] = b0 mod 8 * 262144 + b1 mod 64 * 4096 + b2 mod 64 * 64 + b3 mod 64"
| "utf8_decode _ = 0"

function char_indices :: "nat \<Rightarrow> bytes \<Rightarrow> (nat \<times> nat) list" where
  "char_indices i [] = []"
| "char_indices i (b # bs) =
     (i, utf8_decode (take (utf8_width b) (b # bs))) # char_indices (i + utf8_width b) (drop (utf8_width b) (b # bs))"
  by pat_completeness auto

termination char_indices
  by (relation "measure (\<lambda>(i, bs). length bs)") (auto simp: utf8_width_def)

definition str_chars :: "bytes \<Rightarrow> chars" where
  "str_chars s = map snd (char_indices 0 s)"

definition is_ascii :: "bytes \<Rightarrow> bool" where
  "is_ascii s = list_all (\<lambda>b. b < 128) s"

definition nth_char_offset :: "bytes \<Rightarrow> nat \<Rightarrow> nat option" where
  "nth_char_offset s n = (let ci = char_indices 0 s in if n < length ci then Some (fst (ci ! n)) else None)"

section \<open>Operations\<close>

definition shared_prefix_count :: "bytes \<Rightarrow> bytes \<Rightarrow> nat" where
  "shared_prefix_count a b =
     (let common_byte_len = (case position (\<lambda>(x, y). x \<noteq> y) (zip a b) of
                               Some i \<Rightarrow> i
                             | None \<Rightarrow> min (length a) (length b))
      in if is_ascii (take common_byte_len a) then common_byte_len
         else shared_prefix_count_chars (str_chars a) (str_chars b))"

definition advance_by_chars :: "bytes \<Rightarrow> nat \<Rightarrow> bytes" where
  "advance_by_chars s n =
     (if n = 0 then s
      else if length s \<le> n then []
      else if is_ascii (take n s) then drop n s
      else case nth_char_offset s n of Some idx \<Rightarrow> drop idx s | None \<Rightarrow> [])"

definition take_chars_bytes :: "bytes \<Rightarrow> nat \<Rightarrow> bytes" where
  "take_chars_bytes s n =
     (if n = 0 then []
      else case nth_char_offset s n of Some idx \<Rightarrow> take idx s | None \<Rightarrow> s)"

record node_text_bytes =
  nt_text :: bytes
  nt_char_count :: nat

definition nt_new :: "bytes \<Rightarrow> node_text_bytes" where
  "nt_new s = \<lparr>nt_text = s, nt_char_count = length (str_chars s)\<rparr>"

definition nt_empty :: node_text_bytes where
  "nt_empty = \<lparr>nt_text = [], nt_char_count = 0\<rparr>"

definition nt_first_char :: "node_text_bytes \<Rightarrow> nat option" where
  "nt_first_char nt = (case str_chars (nt_text nt) of [] \<Rightarrow> None | c # _ \<Rightarrow> Some c)"

definition nt_split_at_char :: "node_text_bytes \<Rightarrow> nat \<Rightarrow> node_text_bytes \<times> node_text_bytes" where
  "nt_split_at_char nt char_idx =
     (if char_idx = 0 then (nt_empty, nt)
      else if nt_char_count nt \<le> char_idx then (nt, nt_empty)
      else
        let byte_idx = (case nth_char_offset (nt_text nt) char_idx of
                          Some i \<Rightarrow> i | None \<Rightarrow> length (nt_text nt))
        in (\<lparr>nt_text = take byte_idx (nt_text nt), nt_char_count = char_idx\<rparr>,
            \<lparr>nt_text = drop byte_idx (nt_text nt), nt_char_count = nt_char_count nt - char_idx\<rparr>))"

section \<open>Decoding inverts encoding\<close>

definition scalar :: "nat \<Rightarrow> bool" where
  "scalar c \<longleftrightarrow> c < 1114112"

lemma utf8_Nil [simp]: "utf8 [] = []" and utf8_Cons [simp]: "utf8 (c # x) = utf8_char c @ utf8 x"
  and utf8_append: "utf8 (x @ y) = utf8 x @ utf8 y"
  by (simp_all add: utf8_def)

lemma utf8_bits:
  "d < 32 \<Longrightarrow> (192 + d) mod 32 = d" "d < 16 \<Longrightarrow> (224 + d) mod 16 = d" "d < 8 \<Longrightarrow> (240 + d) mod 8 = d"
  "d < 64 \<Longrightarrow> (128 + d) mod 64 = d" for d :: nat
  using mod_add_left_eq [of 192 32 d] mod_add_left_eq [of 224 16 d] mod_add_left_eq [of 240 8 d]
    mod_add_left_eq [of 128 64 d] by simp_all

lemma utf8_decode_widths:
  "q < 32 \<Longrightarrow> k < 64 \<Longrightarrow> utf8_decode [192 + q, 128 + k] = q * 64 + k"
  "q < 16 \<Longrightarrow> j < 64 \<Longrightarrow> k < 64 \<Longrightarrow> utf8_decode [224 + q, 128 + j, 128 + k] = q * 4096 + j * 64 + k"
  "q < 8 \<Longrightarrow> i < 64 \<Longrightarrow> j < 64 \<Longrightarrow> k < 64 \<Longrightarrow>
     utf8_decode [240 + q, 128 + i, 128 + j, 128 + k] = q * 262144 + i * 4096 + j * 64 + k"
  by (simp_all only: utf8_decode.simps utf8_bits)

lemma utf8_widths:
  "q < 32 \<Longrightarrow> utf8_width (192 + q) = 2" "q < 16 \<Longrightarrow> utf8_width (224 + q) = 3" "utf8_width (240 + q) = 4"
  by (simp_all add: utf8_width_def)

lemma utf8_digits:
  "c div 4096 * 4096 + c div 64 mod 64 * 64 + c mod 64 = c"
  "c div 262144 * 262144 + c div 4096 mod 64 * 4096 + c div 64 mod 64 * 64 + c mod 64 = c" for c :: nat
proof -
  have d: "c div 4096 = c div 64 div 64" "c div 262144 = c div 4096 div 64"
    using div_mult2_eq [of c 64 64] div_mult2_eq [of c 4096 64] by simp_all
  have "c div 64 * 64 + c mod 64 = c" "c div 64 div 64 * 64 + c div 64 mod 64 = c div 64"
    "c div 4096 div 64 * 64 + c div 4096 mod 64 = c div 4096" by simp_all
  then show "c div 4096 * 4096 + c div 64 mod 64 * 64 + c mod 64 = c"
    "c div 262144 * 262144 + c div 4096 mod 64 * 4096 + c div 64 mod 64 * 64 + c mod 64 = c"
    using d by linarith+
qed

lemma utf8_char_shape:
  assumes "scalar c"
  obtains b bs where "utf8_char c = b # bs" "utf8_width b = Suc (length bs)" "utf8_decode (b # bs) = c"
    "b < 128 \<longleftrightarrow> c < 128" "c < 128 \<Longrightarrow> b = c \<and> bs = []"
proof -
  consider "c < 128" | "128 \<le> c" "c < 2048" | "2048 \<le> c" "c < 65536" | "65536 \<le> c" "c < 1114112"
    using assms unfolding scalar_def by linarith
  then show thesis
  proof cases
    case 1
    then show thesis by (intro that [of c "[]"]) (simp_all add: utf8_char_def utf8_width_def)
  next
    case 2
    have "c div 64 < 32" using 2 by simp
    moreover have "c div 64 * 64 + c mod 64 = c" by simp
    ultimately show thesis using 2 utf8_decode_widths(1) [of "c div 64" "c mod 64"] utf8_widths(1) [of "c div 64"]
      by (intro that [of "192 + c div 64" "[128 + c mod 64]"]) 
        (simp_all del: utf8_decode.simps add: utf8_char_def)
  next
    case 3
    have "c div 4096 < 16" using 3 by simp
    then show thesis
      using 3 utf8_digits(1) [of c] utf8_decode_widths(2) [of "c div 4096" "c div 64 mod 64" "c mod 64"] utf8_widths(2) [of "c div 4096"]
      by (intro that [of "224 + c div 4096" "[128 + c div 64 mod 64, 128 + c mod 64]"])
        (simp_all del: utf8_decode.simps add: utf8_char_def)
  next
    case 4
    have "c div 262144 < 8" using 4 by simp
    then show thesis
      using 4 utf8_digits(2) [of c] utf8_decode_widths(3) [of "c div 262144" "c div 4096 mod 64" "c div 64 mod 64" "c mod 64"]
        utf8_widths(3) [of "c div 262144"]
      by (intro that [of "240 + c div 262144" "[128 + c div 4096 mod 64, 128 + c div 64 mod 64, 128 + c mod 64]"])
        (simp_all del: utf8_decode.simps add: utf8_char_def)
  qed
qed

lemma char_indices_Cons:
  assumes "scalar c"
  shows "char_indices i (utf8_char c @ s) = (i, c) # char_indices (i + length (utf8_char c)) s"
  using assms by (rule utf8_char_shape) simp

lemma char_indices_utf8:
  assumes "list_all scalar x"
  shows "map snd (char_indices i (utf8 x)) = x" "length (char_indices i (utf8 x)) = length x"
    and "n < length x \<Longrightarrow> fst (char_indices i (utf8 x) ! n) = i + length (utf8 (take n x))"
  using assms
proof (induction x arbitrary: i n)
  case (Cons c x)
  {
    case 1
    then show ?case using Cons(1) by (simp add: char_indices_Cons)
  next
    case 2
    then show ?case using Cons(2) by (simp add: char_indices_Cons)
  next
    case 3
    then show ?case using Cons(3) by (cases n) (simp_all add: char_indices_Cons)
  }
qed simp_all

lemma str_chars_utf8 [simp]: "list_all scalar x \<Longrightarrow> str_chars (utf8 x) = x"
  by (simp add: str_chars_def char_indices_utf8)

lemma nth_char_offset_utf8:
  "list_all scalar x \<Longrightarrow>
   nth_char_offset (utf8 x) n = (if n < length x then Some (length (utf8 (take n x))) else None)"
  using char_indices_utf8(2) [of x 0] char_indices_utf8(3) [of x n 0] by (simp add: nth_char_offset_def)

lemma take_utf8: "take (length (utf8 (take n x))) (utf8 x) = utf8 (take n x)"
  and drop_utf8: "drop (length (utf8 (take n x))) (utf8 x) = utf8 (drop n x)"
proof -
  have "utf8 x = utf8 (take n x) @ utf8 (drop n x)" by (metis append_take_drop_id utf8_append)
  then show "take (length (utf8 (take n x))) (utf8 x) = utf8 (take n x)"
    "drop (length (utf8 (take n x))) (utf8 x) = utf8 (drop n x)" by simp_all
qed

section \<open>The ASCII fast path\<close>

lemma length_utf8: "length x \<le> length (utf8 x)"
proof (induction x)
  case (Cons c x)
  then show ?case by (auto simp: utf8_char_def)
qed simp

lemma ascii_prefix:
  "list_all scalar x \<Longrightarrow> n \<le> length (utf8 x) \<Longrightarrow> is_ascii (take n (utf8 x)) \<Longrightarrow>
   n \<le> length x \<and> length (utf8 (take n x)) = n"
proof (induction x arbitrary: n)
  case (Cons c x)
  then have "scalar c" by simp
  then obtain b bs where b: "utf8_char c = b # bs" "b < 128 \<longleftrightarrow> c < 128" "c < 128 \<Longrightarrow> b = c \<and> bs = []"
    by (rule utf8_char_shape) blast
  show ?case
  proof (cases n)
    case (Suc m)
    have "b < 128" using Cons.prems(3) Suc b(1) by (simp add: is_ascii_def)
    then have bs: "bs = []" using b by simp
    then show ?thesis using Cons.IH [of m] Cons.prems Suc b(1) by (simp add: is_ascii_def)
  qed simp
qed simp

definition common_len :: "bytes \<Rightarrow> bytes \<Rightarrow> nat" where
  "common_len a b = (case position (\<lambda>(x, y). x \<noteq> y) (zip a b) of
     Some i \<Rightarrow> i | None \<Rightarrow> min (length a) (length b))"

lemma common_len_simps:
  "common_len [] b = 0" "common_len a [] = 0"
  "common_len (x # a) (y # b) = (if x = y then Suc (common_len a b) else 0)"
  by (auto simp: common_len_def split: option.split)

lemma shared_prefix_ascii:
  assumes "list_all scalar x" "list_all scalar y" "is_ascii (take (common_len (utf8 x) (utf8 y)) (utf8 x))"
  shows "common_len (utf8 x) (utf8 y) = lcp x y"
  using assms
proof (induction x y rule: shared_prefix_count_chars.induct)
  case (1 c x d y)
  have "scalar c" "scalar d" using 1 by simp_all
  obtain b bs where b: "utf8_char c = b # bs" "b < 128 \<longleftrightarrow> c < 128" "c < 128 \<Longrightarrow> b = c \<and> bs = []"
    using \<open>scalar c\<close> by (rule utf8_char_shape) blast
  obtain b' bs' where b': "utf8_char d = b' # bs'" "b' < 128 \<longleftrightarrow> d < 128" "d < 128 \<Longrightarrow> b' = d \<and> bs' = []"
    using \<open>scalar d\<close> by (rule utf8_char_shape) blast
  show ?case
  proof (cases "b = b'")
    case True
    then have "b < 128" using 1(4) b(1) b'(1) by (simp add: common_len_simps is_ascii_def)
    then have "c = d" "bs = []" "bs' = []" using b b' True by auto
    then show ?thesis using 1 b(1) b'(1) by (simp add: common_len_simps is_ascii_def)
  next
    case False
    then have "c \<noteq> d" using b(1) b'(1) by auto
    then show ?thesis using False b(1) b'(1) by (simp add: common_len_simps)
  qed
qed (simp_all add: common_len_simps)

lemma shared_prefix_count_utf8:
  "list_all scalar x \<Longrightarrow> list_all scalar y \<Longrightarrow> shared_prefix_count (utf8 x) (utf8 y) = lcp x y"
  using shared_prefix_ascii [of x y] by (simp add: shared_prefix_count_def common_len_def [symmetric] Let_def)

lemma advance_by_chars_utf8:
  assumes "list_all scalar x"
  shows "advance_by_chars (utf8 x) n = utf8 (drop n x)"
proof -
  consider "n = 0" | "n \<noteq> 0" "length (utf8 x) \<le> n" | "n \<noteq> 0" "n < length (utf8 x)" "is_ascii (take n (utf8 x))"
    | "n \<noteq> 0" "n < length (utf8 x)" "\<not> is_ascii (take n (utf8 x))" by linarith
  then show ?thesis
  proof cases
    case 2
    then show ?thesis using length_utf8 [of x] by (simp add: advance_by_chars_def)
  next
    case 3
    then have "length (utf8 (take n x)) = n" using ascii_prefix [OF assms] by simp
    then show ?thesis using 3 drop_utf8 [of n x] by (simp add: advance_by_chars_def)
  next
    case 4
    then show ?thesis by (simp add: advance_by_chars_def nth_char_offset_utf8 [OF assms] drop_utf8)
  qed (simp add: advance_by_chars_def)
qed

lemma take_chars_utf8: "list_all scalar x \<Longrightarrow> take_chars_bytes (utf8 x) n = utf8 (take_chars x n)"
  by (simp add: take_chars_bytes_def take_chars_def nth_char_offset_utf8 take_utf8)

lemma nt_split_utf8:
  assumes "list_all scalar x"
  shows "nt_split_at_char (nt_new (utf8 x)) i =
     (let (p, s) = split_at_char i x in (nt_new (utf8 p), nt_new (utf8 s)))"
proof -
  have "list_all scalar (take i x)" "list_all scalar (drop i x)"
    using assms by (auto simp: list_all_iff dest: in_set_takeD in_set_dropD)
  then show ?thesis using assms
    by (simp add: nt_split_at_char_def split_at_char_def nt_new_def nt_empty_def nth_char_offset_utf8 take_utf8 drop_utf8
        str_chars_def [of "[]"])
qed

text \<open>
  C38: The byte-level text operations are the character-level ones.  On UTF-8 text, the
  shared prefix count with its ASCII fast path and its slow path, advancing by characters,
  taking characters and splitting a node's text with its cached character count all give
  what the operations on lists of characters give, ASCII or not.
\<close>

theorem utf8_operations_agree:
  assumes "list_all scalar x" "list_all scalar y"
  shows "shared_prefix_count (utf8 x) (utf8 y) = shared_prefix_count_chars x y \<and>
     advance_by_chars (utf8 x) n = utf8 (drop n x) \<and>
     take_chars_bytes (utf8 x) n = utf8 (take_chars x n) \<and>
     nt_split_at_char (nt_new (utf8 x)) n = (let (p, s) = split_at_char n x in (nt_new (utf8 p), nt_new (utf8 s)))"
  using shared_prefix_count_utf8 [OF assms] advance_by_chars_utf8 [OF assms(1)] take_chars_utf8 [OF assms(1)]
    nt_split_utf8 [OF assms(1)] by simp

theorem utf8_operations_agree_witness:
  "shared_prefix_count (utf8 [104, 233, 8364]) (utf8 [104, 233, 8363]) = 2 \<and>
   advance_by_chars (utf8 [104, 233, 8364]) 2 = utf8 [8364]"
proof -
  have "list_all scalar [104, 233, 8364]" "list_all scalar [104, 233, 8363]" by (simp_all add: scalar_def)
  from utf8_operations_agree [OF this, of 2] show ?thesis by simp
qed

end
