(* ===== verification/Cache_Aware.thy ===== *)
theory Cache_Aware
  imports Complex_Main Policy Radix_Spec Utf8_Text "HOL-Library.List_Lexorder" "HOL-Library.Char_ord"
begin

text \<open>
  The cache-aware policy of \<^verbatim>\<open>policies/cache_aware.rs\<close>: one radix tree per model,
  routing by prefix affinity while the loads are balanced and to the least loaded worker
  otherwise.

  The floating-point thresholds and rates are reals.  A selection draws one random number
  and at most two epochs; they are arguments of \<open>ca_select\<close>, and its outcomes are those for
  any value of them.  The background eviction thread is the operation \<open>evict_cache\<close> at an
  arbitrary moment.  Initialisation groups the workers by model before it adds them; the
  trees are separate, so the groups only determine which epoch each addition draws, and
  each worker comes with its epoch.

  The cache-hit path checks the health flag of the worker it found and not its circuit
  breaker, so the policy interprets \<open>lb_healthy\<close> and not \<open>lb_policy\<close>.
\<close>

section \<open>State\<close>

record cache_aware_config =
  cache_threshold :: real
  balance_abs_threshold :: nat
  balance_rel_threshold :: real
  eviction_interval_secs :: nat
  max_tree_size :: nat

definition default_cache_aware_config :: cache_aware_config where
  "default_cache_aware_config = \<lparr>cache_threshold = 0.5, balance_abs_threshold = 32,
     balance_rel_threshold = 1.1, eviction_interval_secs = 30, max_tree_size = 10000\<rparr>"

record cache_aware =
  ca_config :: cache_aware_config
  trees :: "str \<rightharpoonup> tree"

definition ca_with_config :: "cache_aware_config \<Rightarrow> cache_aware" where
  "ca_with_config cfg = \<lparr>ca_config = cfg, trees = Map.empty\<rparr>"

definition chars_of :: "str \<Rightarrow> chars" where
  "chars_of s = str_chars (map of_char s)"

definition entry_tree :: "str \<Rightarrow> cache_aware \<Rightarrow> tree" where
  "entry_tree key st = (case trees st key of Some tr \<Rightarrow> tr | None \<Rightarrow> new_tree)"

definition set_tree :: "str \<Rightarrow> tree \<Rightarrow> cache_aware \<Rightarrow> cache_aware" where
  "set_tree key tr st = st\<lparr>trees := (trees st)(key \<mapsto> tr)\<rparr>"

section \<open>Maintenance of the trees\<close>

definition insert_and_record :: "u64 \<Rightarrow> str \<Rightarrow> str \<Rightarrow> nat \<Rightarrow> tree \<Rightarrow> tree" where
  "insert_and_record epoch body worker_url max_size tr =
     snd (insert_capped epoch (chars_of body) worker_url max_size tr)"

definition commit_placement :: "u64 \<Rightarrow> str \<Rightarrow> str \<Rightarrow> str \<Rightarrow> cache_aware \<Rightarrow> cache_aware" where
  "commit_placement epoch mid request_text target_id st =
     (if request_text = [] then st
      else let key = normalize_model_key mid in
           set_tree key (insert_and_record epoch request_text target_id (max_tree_size (ca_config st))
                           (entry_tree key st)) st)"

definition remove_placement_target :: "str \<Rightarrow> str \<Rightarrow> cache_aware \<Rightarrow> cache_aware" where
  "remove_placement_target mid target_id st =
     (let key = normalize_model_key mid in
      case trees st key of None \<Rightarrow> st | Some tr \<Rightarrow> set_tree key (remove_tenant target_id tr) st)"

definition ca_add_worker :: "u64 \<Rightarrow> worker \<Rightarrow> cache_aware \<Rightarrow> cache_aware" where
  "ca_add_worker epoch w st =
     (let key = normalize_model_key (model_id w) in
      set_tree key (insert_text epoch [] (url w) (entry_tree key st)) st)"

definition add_worker_by_url :: "u64 \<Rightarrow> str \<Rightarrow> str \<Rightarrow> cache_aware \<Rightarrow> cache_aware" where
  "add_worker_by_url epoch u mid st = set_tree mid (insert_text epoch [] u (entry_tree mid st)) st"

definition ca_remove_worker :: "worker \<Rightarrow> cache_aware \<Rightarrow> cache_aware" where
  "ca_remove_worker w st =
     (let key = normalize_model_key (model_id w) in
      case trees st key of None \<Rightarrow> st | Some tr \<Rightarrow> set_tree key (remove_tenant (url w) tr) st)"

definition ca_remove_worker_by_url :: "str \<Rightarrow> cache_aware \<Rightarrow> cache_aware" where
  "ca_remove_worker_by_url u st = st\<lparr>trees := (\<lambda>k. map_option (remove_tenant u) (trees st k))\<rparr>"

definition evict_cache :: "nat \<Rightarrow> cache_aware \<Rightarrow> cache_aware \<Rightarrow> bool" where
  "evict_cache max_size st st' \<longleftrightarrow>
     ca_config st' = ca_config st \<and>
     (\<forall>k. rel_option (evict_tenant_by_size max_size) (trees st k) (trees st' k))"

definition ca_init_workers :: "(u64 \<times> worker) list \<Rightarrow> cache_aware \<Rightarrow> cache_aware" where
  "ca_init_workers ws st = fold (\<lambda>(epoch, w). ca_add_worker epoch w) ws st"

definition get_tenant_char_counts :: "str \<Rightarrow> cache_aware \<Rightarrow> tenant_id \<rightharpoonup> nat" where
  "get_tenant_char_counts mid st =
     (case trees st (normalize_model_key mid) of None \<Rightarrow> Map.empty | Some tr \<Rightarrow> tenant_char_count tr)"

section \<open>Selection\<close>

definition load_range :: "usize list \<Rightarrow> usize \<times> usize" where
  "load_range loads =
     (let (mn, mx) = fold (\<lambda>l (mn, mx). (min mn l, max mx l)) loads (- 1, 0)
      in (if mn = - 1 then 0 else mn, mx))"

definition is_imbalanced :: "cache_aware_config \<Rightarrow> usize \<Rightarrow> usize \<Rightarrow> bool" where
  "is_imbalanced cfg min_load max_load \<longleftrightarrow>
     balance_abs_threshold cfg < unat (saturating_sub max_load min_load) \<and>
     real (unat min_load) * balance_rel_threshold cfg < real (unat max_load)"

definition match_rate :: "prefix_match_result \<Rightarrow> real" where
  "match_rate result =
     (if input_char_count result = 0 then 0
      else real (matched_char_count result) / real (input_char_count result))"

definition select_worker_min_load ::
  "u64 \<Rightarrow> cache_aware \<Rightarrow> worker list \<Rightarrow> str option \<Rightarrow> nat list \<Rightarrow> str \<Rightarrow> cache_aware outcome" where
  "select_worker_min_load epoch st ws body healthy_indices key =
     (case min_by_key (\<lambda>i. load (ws ! i)) healthy_indices of
        None \<Rightarrow> (None, st, ws)
      | Some min_load_idx \<Rightarrow>
          let st1 = (case body of
                       None \<Rightarrow> st
                     | Some request_text \<Rightarrow>
                         (case trees st key of
                            None \<Rightarrow> st
                          | Some tr \<Rightarrow>
                              set_tree key (insert_and_record epoch request_text (url (ws ! min_load_idx))
                                              (max_tree_size (ca_config st)) tr) st))
          in (Some min_load_idx, st1, count_processed min_load_idx ws))"

definition hit_target :: "worker list \<Rightarrow> tenant_id \<Rightarrow> nat option" where
  "hit_target ws t =
     (case position (\<lambda>w. url w = t) ws of
        Some idx \<Rightarrow> if is_healthy (ws ! idx) then Some idx else None
      | None \<Rightarrow> None)"

definition select_by_tree ::
  "u64 \<Rightarrow> u64 \<Rightarrow> cache_aware \<Rightarrow> worker list \<Rightarrow> str \<Rightarrow> nat list \<Rightarrow> str \<Rightarrow> tree \<Rightarrow> cache_aware outcome" where
  "select_by_tree epoch1 epoch2 st ws body healthy_indices key tr =
     (let (result, tr1) = prefix_match_with_counts epoch1 (chars_of body) tr;
          hit = cache_threshold (ca_config st) < match_rate result;
          selected_idx = (if hit then hit_target ws (tenant result)
                          else min_by_key (\<lambda>i. load (ws ! i)) healthy_indices)
      in case selected_idx of
           Some idx \<Rightarrow>
             (Some idx,
              set_tree key (insert_and_record epoch2 body (url (ws ! idx)) (max_tree_size (ca_config st)) tr1) st,
              count_processed idx ws)
         | None \<Rightarrow>
             let st1 = set_tree key (if hit then remove_tenant (tenant result) tr1 else tr1) st
             in case healthy_indices of
                  [] \<Rightarrow> (None, st1, ws)
                | idx # _ \<Rightarrow> (Some idx, st1, count_processed idx ws))"

definition ca_select ::
  "nat \<Rightarrow> u64 \<Rightarrow> u64 \<Rightarrow> instant \<Rightarrow> cache_aware \<Rightarrow> worker list \<Rightarrow> str option \<Rightarrow> cache_aware outcome" where
  "ca_select draw epoch1 epoch2 now st ws body =
     (let (healthy_indices, ws1) = get_healthy_worker_indices now ws in
      if healthy_indices = [] then (None, st, ws1)
      else
        let key = normalize_model_key (model_id (ws1 ! (healthy_indices ! 0)));
            (min_load, max_load) = load_range (map (\<lambda>i. load (ws1 ! i)) healthy_indices)
        in if is_imbalanced (ca_config st) min_load max_load
           then select_worker_min_load epoch1 st ws1 body healthy_indices key
           else
             let request_text = (case body of Some t \<Rightarrow> t | None \<Rightarrow> [])
             in case trees st key of
                  None \<Rightarrow>
                    let selected_idx = healthy_indices ! random_range draw (length healthy_indices)
                    in (Some selected_idx, st, count_processed selected_idx ws1)
                | Some tr \<Rightarrow> select_by_tree epoch1 epoch2 st ws1 request_text healthy_indices key tr)"


section \<open>Placement\<close>

record candidate =
  target_id :: str
  kv_pressure :: real

record placement =
  placement_target :: str
  placement_rate :: real

definition affinity_of :: "cache_aware \<Rightarrow> str \<Rightarrow> str \<Rightarrow> candidate \<Rightarrow> real" where
  "affinity_of st mid request_text c =
     (let input_chars = length (chars_of request_text);
          matched_chars = (case trees st (normalize_model_key mid) of
                             None \<Rightarrow> 0
                           | Some tr \<Rightarrow> prefix_match_tenant_char_count (chars_of request_text) (target_id c) tr)
      in if input_chars = 0 then 0 else real matched_chars / real input_chars)"

definition headroom_of :: "candidate \<Rightarrow> real" where
  "headroom_of c = 1 - max 0 (min 1 (kv_pressure c))"

definition score_of :: "cache_aware \<Rightarrow> str \<Rightarrow> str \<Rightarrow> candidate \<Rightarrow> real" where
  "score_of st mid request_text c = (1 + affinity_of st mid request_text c) * headroom_of c"

definition placement_le :: "cache_aware \<Rightarrow> str \<Rightarrow> str \<Rightarrow> candidate \<Rightarrow> candidate \<Rightarrow> bool" where
  "placement_le st mid request_text l r =
     (let sl = score_of st mid request_text l; sr = score_of st mid request_text r;
          al = affinity_of st mid request_text l; ar = affinity_of st mid request_text r in
      if sl \<noteq> sr then sl < sr
      else if headroom_of l \<noteq> headroom_of r then headroom_of l < headroom_of r
      else if al \<noteq> ar then al < ar
      else target_id r \<le> target_id l)"

fun max_by :: "('a \<Rightarrow> 'a \<Rightarrow> bool) \<Rightarrow> 'a list \<Rightarrow> 'a option" where
  "max_by le [] = None"
| "max_by le (x # xs) = Some (fold (\<lambda>y acc. if le acc y then y else acc) xs x)"

definition evaluate_initial_placement ::
  "cache_aware \<Rightarrow> str \<Rightarrow> str \<Rightarrow> candidate list \<Rightarrow> placement option" where
  "evaluate_initial_placement st mid request_text candidates =
     map_option (\<lambda>c. \<lparr>placement_target = target_id c, placement_rate = affinity_of st mid request_text c\<rparr>)
       (max_by (placement_le st mid request_text) candidates)"

section \<open>The contract of the selection\<close>

definition ca_outcomes :: "cache_aware selection" where
  "ca_outcomes now st ws body hdrs out \<longleftrightarrow> (\<exists>draw e1 e2. out = ca_select draw e1 e2 now st ws body)"

lemma hit_target_SomeD:
  "hit_target ws t = Some i \<Longrightarrow> i < length ws \<and> url (ws ! i) = t \<and> is_healthy (ws ! i)"
  by (auto simp: hit_target_def dest: position_SomeD split: option.splits if_splits)





lemma is_healthy_probed: "i < length ws \<Longrightarrow> is_healthy (probed now ws ! i) = is_healthy (ws ! i)"
  by (simp add: probed_def is_available_eq worker_op_defs)



section \<open>The trees stay consistent\<close>

text \<open>
  The steps of the policy; \<open>L\<close> bounds the length of the request texts.
\<close>

inductive ca_step :: "nat \<Rightarrow> cache_aware \<Rightarrow> cache_aware \<Rightarrow> bool" for L where
  select: "ca_select draw e1 e2 now st ws body = (r, st', ws') \<Longrightarrow>
    length (chars_of (case body of Some t \<Rightarrow> t | None \<Rightarrow> [])) \<le> L \<Longrightarrow> ca_step L st st'"
| commit: "length (chars_of body) \<le> L \<Longrightarrow> ca_step L st (commit_placement e mid body target st)"
| drop_target: "ca_step L st (remove_placement_target mid target st)"
| add: "ca_step L st (ca_add_worker e w st)"
| add_url: "ca_step L st (add_worker_by_url e u mid st)"
| remove: "ca_step L st (ca_remove_worker w st)"
| remove_url: "ca_step L st (ca_remove_worker_by_url u st)"
| init: "ca_step L st (ca_init_workers ews st)"
| evict: "evict_cache m st st' \<Longrightarrow> ca_step L st st'"

inductive ca_reachable :: "nat \<Rightarrow> cache_aware_config \<Rightarrow> cache_aware \<Rightarrow> bool" for L cfg where
  start: "ca_reachable L cfg (ca_with_config cfg)"
| more: "ca_reachable L cfg st \<Longrightarrow> ca_step L st st' \<Longrightarrow> ca_reachable L cfg st'"

definition good_tree :: "nat \<Rightarrow> tree \<Rightarrow> bool" where
  "good_tree b tr \<longleftrightarrow> (\<exists>evs. tree_run evs tr) \<and> (\<forall>t. count_of tr t \<le> b)"

definition ca_inv :: "nat \<Rightarrow> cache_aware_config \<Rightarrow> cache_aware \<Rightarrow> bool" where
  "ca_inv L cfg st \<longleftrightarrow> ca_config st = cfg \<and> (\<forall>k tr. trees st k = Some tr \<longrightarrow> good_tree (max_tree_size cfg + L) tr)"

lemma good_tree_step:
  assumes "good_tree b tr" "tree_step tr ev tr'" "\<And>t. count_of tr' t \<le> b"
  shows "good_tree b tr'"
  using assms tree_run.more by (fastforce simp: good_tree_def)

lemma good_tree_wf: "good_tree b tr \<Longrightarrow> wf_tree tr"
  using tree_run_wf by (auto simp: good_tree_def)

lemma good_new_tree: "good_tree b new_tree"
  using tree_run.start by (auto simp: good_tree_def new_tree_def count_of_def)

lemma good_add:
  assumes "good_tree b tr"
  shows "good_tree b (insert_text e [] u tr)"
proof (rule good_tree_step [OF assms tree_step.ins])
  show "count_of (insert_text e [] u tr) t \<le> b" for t
    using assms insert_text_count [where e = e and y = "[]" and t = u and tr = tr]
    by (cases "t = u") (auto simp: good_tree_def intro: le_trans)
qed

lemma good_insert:
  assumes good: "good_tree (m + L) tr" and len: "length (chars_of body) \<le> L"
  shows "good_tree (m + L) (insert_and_record e body u m tr)"
proof -
  obtain ok tr' where r: "insert_capped e (chars_of body) u m tr = (ok, tr')" by fastforce
  show ?thesis
  proof (cases ok)
    case True
    then have tr': "tr' = insert_text e (chars_of body) u tr" "count_of tr u < m"
      using r insert_capped_cases(1) by auto
    have "good_tree (m + L) tr'"
    proof (rule good_tree_step [OF good])
      show "tree_step tr (Inserted (chars_of body) u) tr'" using tree_step.cap [of e "chars_of body" u m tr tr'] r True by simp
      show "count_of tr' t \<le> m + L" for t
        using good tr' len insert_text_count [where e = e and y = "chars_of body" and t = u and tr = tr]
        by (cases "t = u") (fastforce simp: good_tree_def)+
    qed
    then show ?thesis using r by (simp add: insert_and_record_def)
  next
    case False
    then show ?thesis using r good insert_capped_cases(2) [of e "chars_of body" u m tr tr'] by (simp add: insert_and_record_def)
  qed
qed

lemma good_remove:
  assumes "good_tree b tr"
  shows "good_tree b (remove_tenant u tr)"
proof (rule good_tree_step [OF assms tree_step.rem])
  show "count_of (remove_tenant u tr) t \<le> b" for t
    using assms by (cases "t = u") (auto simp: good_tree_def count_of_def remove_tenant_def)
qed

lemma good_match:
  assumes "good_tree b tr"
  shows "good_tree b (snd (prefix_match_with_counts e x tr))"
proof (rule good_tree_step [OF assms tree_step.mat])
  show "count_of (snd (prefix_match_with_counts e x tr)) t \<le> b" for t
    using assms prefix_match_with_counts_facts(6) [OF good_tree_wf [OF assms], where e = e and x = x]
    by (simp add: good_tree_def count_of_def)
qed

lemma good_evict:
  assumes good: "good_tree b tr" and ev: "evict_tenant_by_size m tr tr'"
  shows "good_tree b tr'"
proof (rule good_tree_step [OF good tree_step.evi [OF ev]])
  show "count_of tr' t \<le> b" for t
    using evict_invD(3) [OF evict_facts [OF good_tree_wf [OF good] ev], of t] good
    by (auto simp: good_tree_def intro: le_trans)
qed

lemmas good_intros = good_new_tree good_add good_insert good_remove good_match good_evict

lemma ca_inv_set_tree:
  "ca_inv L cfg st \<Longrightarrow> good_tree (max_tree_size cfg + L) tr \<Longrightarrow> ca_inv L cfg (set_tree k tr st)"
  by (auto simp: ca_inv_def set_tree_def split: if_splits)

lemma ca_inv_entry_tree: "ca_inv L cfg st \<Longrightarrow> good_tree (max_tree_size cfg + L) (entry_tree k st)"
  using good_new_tree by (auto simp: ca_inv_def entry_tree_def split: option.split)

lemma ca_inv_config: "ca_inv L cfg st \<Longrightarrow> ca_config st = cfg"
  by (simp add: ca_inv_def)

lemma ca_inv_tree: "ca_inv L cfg st \<Longrightarrow> trees st k = Some tr \<Longrightarrow> good_tree (max_tree_size cfg + L) tr"
  by (simp add: ca_inv_def)

lemma ca_inv_add: "ca_inv L cfg st \<Longrightarrow> ca_inv L cfg (ca_add_worker e w st)"
  by (simp add: ca_add_worker_def Let_def ca_inv_set_tree good_add ca_inv_entry_tree)

lemma ca_inv_init: "ca_inv L cfg st \<Longrightarrow> ca_inv L cfg (ca_init_workers ews st)"
  unfolding ca_init_workers_def by (induction ews arbitrary: st) (auto simp: ca_inv_add)

lemma ca_inv_min_load:
  assumes inv: "ca_inv L cfg st" and len: "length (chars_of (case body of Some t \<Rightarrow> t | None \<Rightarrow> [])) \<le> L"
  shows "ca_inv L cfg (fst (snd (select_worker_min_load e st ws body hs key)))"
  using inv len ca_inv_tree [OF inv] good_insert ca_inv_config [OF inv]
  by (auto simp: select_worker_min_load_def Let_def intro!: ca_inv_set_tree split: option.split)

lemma ca_inv_by_tree:
  assumes inv: "ca_inv L cfg st" and tr: "good_tree (max_tree_size cfg + L) tr" and len: "length (chars_of body) \<le> L"
  shows "ca_inv L cfg (fst (snd (select_by_tree e1 e2 st ws body hs key tr)))"
proof -
  note g = good_match [OF tr, of e1 "chars_of body"]
  note steps = ca_inv_set_tree [OF inv] good_insert [OF g len] good_remove [OF g] g
  show ?thesis
    using steps ca_inv_config [OF inv]
    by (auto simp: select_by_tree_def Let_def split_beta split: option.split list.split)
qed

lemma ca_inv_select:
  assumes inv: "ca_inv L cfg st" and len: "length (chars_of (case body of Some t \<Rightarrow> t | None \<Rightarrow> [])) \<le> L"
  shows "ca_inv L cfg (fst (snd (ca_select draw e1 e2 now st ws body)))"
proof -
  let ?key = "normalize_model_key (model_id (probed now ws ! (healthy_of now ws ! 0)))"
  show ?thesis
  proof (cases "trees st ?key")
    case None
    then show ?thesis using inv ca_inv_min_load [OF assms]
      by (simp add: ca_select_def get_healthy_worker_indices_eq Let_def split_beta)
  next
    case (Some tr)
    then show ?thesis using inv ca_inv_min_load [OF assms] ca_inv_by_tree [OF inv ca_inv_tree [OF inv Some] len]
      by (simp add: ca_select_def get_healthy_worker_indices_eq Let_def split_beta)
  qed
qed

lemma ca_inv_step: "ca_step L st st' \<Longrightarrow> ca_inv L cfg st \<Longrightarrow> ca_inv L cfg st'"
proof (induction rule: ca_step.induct)
  case (select draw e1 e2 now st ws body r st' ws')
  then show ?case using ca_inv_select [of L cfg st body draw e1 e2 now ws] by simp
next
  case (commit body st e mid target)
  then show ?case using ca_inv_config [OF commit(2)]
    by (auto simp: commit_placement_def Let_def intro!: ca_inv_set_tree good_insert ca_inv_entry_tree)
next
  case (evict m st st')
  have "good_tree (max_tree_size cfg + L) tr'" if t: "trees st' k = Some tr'" for k tr'
  proof -
    have "rel_option (evict_tenant_by_size m) (trees st k) (trees st' k)" using evict(1) by (simp add: evict_cache_def)
    then obtain tr where "trees st k = Some tr" "evict_tenant_by_size m tr tr'" using t by (cases "trees st k") auto
    then show ?thesis using good_evict ca_inv_tree [OF evict(2)] by blast
  qed
  then show ?case using evict by (simp add: ca_inv_def evict_cache_def)
qed (auto simp: remove_placement_target_def add_worker_by_url_def ca_remove_worker_def ca_remove_worker_by_url_def Let_def
    ca_inv_add ca_inv_init ca_inv_set_tree ca_inv_entry_tree ca_inv_tree good_add good_remove split: option.split,
    auto simp: ca_inv_def good_remove)

lemma ca_reachable_inv: "ca_reachable L cfg st \<Longrightarrow> ca_inv L cfg st"
proof (induction rule: ca_reachable.induct)
  case start
  show ?case by (simp add: ca_inv_def ca_with_config_def)
next
  case (more st st')
  then show ?case by (auto intro: ca_inv_step)
qed

section \<open>The cache-hit path\<close>

lemma ca_select_hit:
  assumes "healthy_of now ws \<noteq> []" "key = normalize_model_key (model_id (probed now ws ! (healthy_of now ws ! 0)))"
    and "load_range (map (\<lambda>i. load (probed now ws ! i)) (healthy_of now ws)) = (mn, mx)"
    and "\<not> is_imbalanced (ca_config st) mn mx" "trees st key = Some tr"
    and "prefix_match_with_counts e1 (chars_of body) tr = (res, tr1)"
    and "cache_threshold (ca_config st) < match_rate res" "hit_target (probed now ws) (tenant res) = Some i"
  shows "fst (ca_select draw e1 e2 now st ws (Some body)) = Some i"
  using assms by (simp add: ca_select_def get_healthy_worker_indices_eq Let_def select_by_tree_def)

definition demo_policy :: cache_aware where
  "demo_policy = commit_placement 1 ''unknown'' ''hi'' ''http://b'' (ca_with_config default_cache_aware_config)"

definition demo_ca_tree :: tree where
  "demo_ca_tree = insert_text 1 [104, 105] ''http://b'' new_tree"

definition tripped_worker :: worker where
  "tripped_worker = set_breaker (force_open 1 (cb_new 0)) (create_regular 0 ''http://b'')"

lemma chars_of_hi: "chars_of ''hi'' = [104, 105]"
  by code_simp

lemma demo_policy_tree: "trees demo_policy ''default'' = Some demo_ca_tree"
  by (simp add: demo_policy_def commit_placement_def ca_with_config_def set_tree_def entry_tree_def insert_and_record_def
      insert_capped_def normalize_model_key_def chars_of_hi default_cache_aware_config_def new_tree_def demo_ca_tree_def)

lemma demo_policy_config: "ca_config demo_policy = default_cache_aware_config"
  by (simp add: demo_policy_def commit_placement_def ca_with_config_def set_tree_def Let_def)

lemma demo_policy_reachable: "ca_reachable 2 default_cache_aware_config demo_policy"
  unfolding demo_policy_def by (rule ca_reachable.more [OF ca_reachable.start ca_step.commit]) (simp add: chars_of_hi)

lemma demo_match:
  "fst (prefix_match_with_counts 1 (chars_of ''hi'') demo_ca_tree) =
     \<lparr>tenant = ''http://b'', matched_char_count = 2, input_char_count = 2\<rparr>"
  by code_simp

lemma demo_balanced: "\<not> is_imbalanced default_cache_aware_config 0 0"
  by (simp add: is_imbalanced_def default_cache_aware_config_def)

lemma demo_rate:
  "cache_threshold default_cache_aware_config <
     match_rate \<lparr>tenant = t, matched_char_count = 2, input_char_count = 2\<rparr>"
  by (simp add: match_rate_def default_cache_aware_config_def)

lemma demo_regular [simp]:
  "load (create_regular t u) = 0" "model_id (create_regular t u) = ''unknown''" "is_healthy (create_regular t u)"
  "url (create_regular t u) = u"
  by (simp_all add: create_regular_def bw_new_def with_connection_mode_def worker_op_defs model_id_def metadata_def)

lemma tripped_facts:
  "\<not> available 2 tripped_worker" "url tripped_worker = ''http://b''" "is_healthy tripped_worker" "load tripped_worker = 0"
  by (simp_all add: tripped_worker_def available_def is_available_eq worker_op_defs can_execute_def force_open_def
      check_and_update_state_def transition_to_def cb_new_def with_config_def default_cb_config_def Let_def
      create_regular_def bw_new_def with_connection_mode_def)

lemma probed_nth [simp]:
  assumes "i < length ws"
  shows "model_id (probed now ws ! i) = model_id (ws ! i)" "url (probed now ws ! i) = url (ws ! i)"
    "load (probed now ws ! i) = load (ws ! i)"
proof -
  have "model_id (snd (is_available now w)) = model_id w" for w
    by (simp add: is_available_eq model_id_def worker_op_defs)
  then show "model_id (probed now ws ! i) = model_id (ws ! i)" using assms by (simp add: probed_def)
  show "url (probed now ws ! i) = url (ws ! i)" "load (probed now ws ! i) = load (ws ! i)"
    using assms by (simp_all add: probed_def)
qed

lemma demo_hit:
  assumes b: "url b = ''http://b''" "is_healthy b" "load b = 0"
  shows "fst (ca_select draw 1 e2 2 demo_policy [create_regular 0 ''http://a'', b] (Some ''hi'')) = Some 1"
proof -
  let ?ws = "[create_regular 0 ''http://a'', b]"
  obtain tr1 where m: "prefix_match_with_counts 1 (chars_of ''hi'') demo_ca_tree =
      (\<lparr>tenant = ''http://b'', matched_char_count = 2, input_char_count = 2\<rparr>, tr1)"
    using demo_match by (metis prod.collapse)
  have h: "healthy_of 2 ?ws = (if available 2 b then [0, 1] else [0])" by (simp add: healthy_of_def upt_rec)
  have lr: "load_range (map (\<lambda>i. load (probed 2 ?ws ! i)) (healthy_of 2 ?ws)) = (0, 0)"
    by (simp add: h load_range_def b)
  have ht: "hit_target (probed 2 ?ws) ''http://b'' = Some 1"
    using b is_healthy_probed [of 1 ?ws 2] by (simp add: hit_target_def) (simp add: probed_def)
  show ?thesis
    by (rule ca_select_hit [OF _ _ lr _ demo_policy_tree m])
      (simp_all add: h ht demo_policy_config demo_balanced demo_rate normalize_model_key_def)
qed

section \<open>Placement\<close>

definition by_key :: "('a \<Rightarrow> 'k::linorder) \<Rightarrow> ('a \<Rightarrow> 'a \<Rightarrow> bool) \<Rightarrow> 'a \<Rightarrow> 'a \<Rightarrow> bool" where
  "by_key f le a b \<longleftrightarrow> f a < f b \<or> f a = f b \<and> le a b"

lemma by_key_total: "(\<And>a b. le a b \<or> le b a) \<Longrightarrow> by_key f le a b \<or> by_key f le b a"
  by (cases "f a" "f b" rule: linorder_cases) (simp_all add: by_key_def)

lemma by_key_trans:
  assumes trans: "\<And>a b c. le a b \<Longrightarrow> le b c \<Longrightarrow> le a c" and ab: "by_key f le a b" and bc: "by_key f le b c"
  shows "by_key f le a c"
proof (cases "f a = f b \<and> f b = f c")
  case True
  then show ?thesis using ab bc trans [of a b c] by (simp add: by_key_def)
next
  case False
  then have "f a < f c" using ab bc by (auto simp: by_key_def)
  then show ?thesis by (simp add: by_key_def)
qed

lemma by_keyD: "by_key f le a b \<Longrightarrow> f a \<le> f b" "by_key f le a b \<Longrightarrow> by_key f le b a \<Longrightarrow> f a = f b \<and> le a b \<and> le b a"
  by (auto simp: by_key_def)

lemma placement_le_by_key:
  "placement_le st mid x = by_key (score_of st mid x) (by_key headroom_of
     (by_key (affinity_of st mid x) (\<lambda>l r. target_id r \<le> target_id l)))"
  by (intro ext) (simp add: placement_le_def by_key_def Let_def)

lemma placement_le_total: "placement_le st mid x a b \<or> placement_le st mid x b a"
  unfolding placement_le_by_key by (intro by_key_total linear)

lemma placement_le_trans:
  assumes "placement_le st mid x a b" "placement_le st mid x b c"
  shows "placement_le st mid x a c"
proof -
  have r: "target_id c \<le> target_id a" if "target_id b \<le> target_id a" "target_id c \<le> target_id b" for a b c :: candidate
    using that(2,1) by (rule order_trans)
  show ?thesis using assms unfolding placement_le_by_key
    by (rule by_key_trans [rotated 1]) (erule (1) by_key_trans [rotated 1], erule (1) by_key_trans [rotated 1], erule (1) r)
qed

lemma max_by_SomeD:
  assumes total: "\<And>a b. le a b \<or> le b a" and trans: "\<And>a b c. le a b \<Longrightarrow> le b c \<Longrightarrow> le a c"
    and "max_by le xs = Some m"
  shows "m \<in> set xs \<and> (\<forall>x\<in>set xs. le x m)"
proof -
  let ?g = "\<lambda>y acc. if le acc y then y else acc"
  have "fold ?g ys a \<in> insert a (set ys) \<and> (\<forall>x\<in>insert a (set ys). le x (fold ?g ys a))" for ys a
  proof (induction ys arbitrary: a)
    case Nil
    show ?case using total [of a a] by simp
  next
    case (Cons y ys)
    define b where "b = ?g y a"
    have b: "le a b" "le y b" "b \<in> {a, y}"
      using total [of a y] total [of a a] total [of y y] unfolding b_def by auto
    have r: "fold ?g (y # ys) a = fold ?g ys b" by (simp add: b_def)
    have IH: "fold ?g ys b \<in> insert b (set ys)" "le b (fold ?g ys b)" "\<forall>x\<in>set ys. le x (fold ?g ys b)"
      using Cons [of b] by blast+
    show ?case unfolding r using IH(1,3) b(3) trans [OF b(1) IH(2)] trans [OF b(2) IH(2)] by auto
  qed
  then show ?thesis using assms(3) by (cases xs) auto
qed

lemma placement_best:
  assumes "max_by (placement_le st mid x) cs = Some m"
  shows "m \<in> set cs" "\<And>c. c \<in> set cs \<Longrightarrow> placement_le st mid x c m"
proof -
  have "m \<in> set cs \<and> (\<forall>c\<in>set cs. placement_le st mid x c m)"
    by (rule max_by_SomeD [OF _ _ assms]) (rule placement_le_total, erule (1) placement_le_trans)
  then show "m \<in> set cs" "\<And>c. c \<in> set cs \<Longrightarrow> placement_le st mid x c m" by auto
qed

lemma placement_leD:
  "placement_le st mid x c m \<Longrightarrow> score_of st mid x c \<le> score_of st mid x m"
  unfolding placement_le_by_key by (rule by_keyD(1))

lemma placement_le_antisym:
  assumes "placement_le st mid x c m" "placement_le st mid x m c"
  shows "target_id m = target_id c" "affinity_of st mid x m = affinity_of st mid x c"
proof -
  note k = by_keyD(2) [OF assms [unfolded placement_le_by_key]]
  note k1 = by_keyD(2) [OF k [THEN conjunct2, THEN conjunct1] k [THEN conjunct2, THEN conjunct2]]
  note k2 = by_keyD(2) [OF k1 [THEN conjunct2, THEN conjunct1] k1 [THEN conjunct2, THEN conjunct2]]
  show "target_id m = target_id c" "affinity_of st mid x m = affinity_of st mid x c"
    using k2 by (auto intro: order_antisym)
qed

section \<open>Properties\<close>



text \<open>
  C22: A cache hit goes to the worker with the best match.  While the loads are balanced
  and the match rate exceeds the threshold, the worker of the matched tenant is chosen if
  it is listed and healthy, and no tenant of the model's tree matches more of the request
  text than the chosen worker does.
\<close>

theorem cache_hit_routes_to_best_match:
  assumes "ca_reachable L cfg st" "healthy_of now ws \<noteq> []"
    and "key = normalize_model_key (model_id (probed now ws ! (healthy_of now ws ! 0)))" "trees st key = Some tr"
    and "load_range (map (\<lambda>i. load (probed now ws ! i)) (healthy_of now ws)) = (mn, mx)" "\<not> is_imbalanced cfg mn mx"
    and "prefix_match_with_counts e1 (chars_of body) tr = (res, tr1)" "cache_threshold cfg < match_rate res"
    and "hit_target (probed now ws) (tenant res) = Some i"
  shows "fst (ca_select draw e1 e2 now st ws (Some body)) = Some i \<and>
     (\<forall>t. prefix_match_tenant_char_count (chars_of body) t tr
          \<le> prefix_match_tenant_char_count (chars_of body) (url (ws ! i)) tr)"
proof -
  note inv = ca_reachable_inv [OF assms(1)]
  have wf: "wf_tree tr" using good_tree_wf [OF ca_inv_tree [OF inv assms(4)]] .
  have "i < length ws" "url (ws ! i) = tenant res"
    using hit_target_SomeD [OF assms(9)] by (auto simp: probed_def)
  then have "prefix_match_tenant_char_count (chars_of body) t tr
      \<le> prefix_match_tenant_char_count (chars_of body) (url (ws ! i)) tr" for t
    using prefix_match_with_counts_facts(3,4) [OF wf, where e = e1 and x = "chars_of body"] assms(7)
    by (simp add: char_count_match)
  then show ?thesis
    using ca_select_hit [OF assms(2,3,5) _ assms(4,7) _ assms(9)] assms(6,8) ca_inv_config [OF inv] by simp
qed

theorem cache_hit_routes_to_best_match_witness:
  "\<exists>i. fst (ca_select 0 1 1 2 demo_policy demo_workers (Some ''hi'')) = Some i \<and>
     prefix_match_tenant_char_count [104, 105] ''http://a'' demo_ca_tree
       \<le> prefix_match_tenant_char_count [104, 105] (url (demo_workers ! i)) demo_ca_tree"
proof -
  obtain tr1 where m: "prefix_match_with_counts 1 (chars_of ''hi'') demo_ca_tree =
      (\<lparr>tenant = ''http://b'', matched_char_count = 2, input_char_count = 2\<rparr>, tr1)"
    using demo_match by (metis prod.collapse)
  have mid: "''default'' = normalize_model_key (model_id (probed 2 demo_workers ! (healthy_of 2 demo_workers ! 0)))"
    by (simp add: healthy_of_demo normalize_model_key_def)
  have lr: "load_range (map (\<lambda>i. load (probed 2 demo_workers ! i)) (healthy_of 2 demo_workers)) = (0, 0)"
    by (simp add: healthy_of_demo load_range_def)
  have ht: "hit_target (probed 2 demo_workers) (tenant \<lparr>tenant = ''http://b'', matched_char_count = 2, input_char_count = 2\<rparr>) = Some 1"
    using is_healthy_probed [of 1 demo_workers 2] by (simp add: hit_target_def) (simp add: probed_def)
  show ?thesis
    using cache_hit_routes_to_best_match [OF demo_policy_reachable _ mid demo_policy_tree lr demo_balanced m demo_rate ht]
    by (auto simp: healthy_of_demo chars_of_hi)
qed

text \<open>
  The cache-hit path ignores circuit breakers.  There are a policy state, two workers
  and a request for which the policy chooses a worker whose circuit breaker rejects
  requests, although the other worker is available.
\<close>

theorem cache_hit_ignores_breaker:
  "\<exists>st ws body out. ca_outcomes 2 st ws (Some body) None out \<and> fst out = Some 1 \<and>
     \<not> available 2 (ws ! 1) \<and> available 2 (ws ! 0)"
proof (intro exI conjI)
  let ?ws = "[create_regular 0 ''http://a'', tripped_worker]"
  show "ca_outcomes 2 demo_policy ?ws (Some ''hi'') None (ca_select 0 1 1 2 demo_policy ?ws (Some ''hi''))"
    unfolding ca_outcomes_def by blast
  show "fst (ca_select 0 1 1 2 demo_policy ?ws (Some ''hi'')) = Some 1" by (rule demo_hit) (rule tripped_facts)+
qed (simp_all add: tripped_facts)



text \<open>
  Initial placement picks a best candidate, whatever the order of the candidates.  A
  placement is found exactly when there is a candidate; the target's score (one plus
  affinity, times headroom) is at least that of every candidate; and the placement depends
  only on the set of candidates.
\<close>

theorem initial_placement_best:
  assumes "set cs = set cs'"
  shows "evaluate_initial_placement st mid x cs = evaluate_initial_placement st mid x cs' \<and>
     (evaluate_initial_placement st mid x cs = None \<longleftrightarrow> cs = []) \<and>
     (\<forall>p. evaluate_initial_placement st mid x cs = Some p \<longrightarrow>
        (\<exists>c\<in>set cs. placement_target p = target_id c \<and> (\<forall>d\<in>set cs. score_of st mid x d \<le> score_of st mid x c)))"
proof (cases "cs = []")
  case True
  then show ?thesis using assms by (simp add: evaluate_initial_placement_def)
next
  case False
  then obtain m m' where m: "max_by (placement_le st mid x) cs = Some m" "max_by (placement_le st mid x) cs' = Some m'"
    using assms by (cases cs; cases cs') auto
  note best = placement_best [OF m(1)] and best' = placement_best [OF m(2)]
  have "placement_le st mid x m m'" "placement_le st mid x m' m" using best best' assms by auto
  then have "target_id m' = target_id m" "affinity_of st mid x m' = affinity_of st mid x m"
    using placement_le_antisym by blast+
  then show ?thesis using m best(1) placement_leD [OF best(2)] False
    by (auto simp: evaluate_initial_placement_def)
qed

theorem initial_placement_best_witness:
  "evaluate_initial_placement demo_policy ''m'' ''hi''
     [\<lparr>target_id = ''a'', kv_pressure = 0\<rparr>, \<lparr>target_id = ''b'', kv_pressure = 1\<rparr>] =
   evaluate_initial_placement demo_policy ''m'' ''hi''
     [\<lparr>target_id = ''b'', kv_pressure = 1\<rparr>, \<lparr>target_id = ''a'', kv_pressure = 0\<rparr>]"
  using initial_placement_best
    [of "[\<lparr>target_id = ''a'', kv_pressure = 0\<rparr>, \<lparr>target_id = ''b'', kv_pressure = 1\<rparr>]"
        "[\<lparr>target_id = ''b'', kv_pressure = 1\<rparr>, \<lparr>target_id = ''a'', kv_pressure = 0\<rparr>]"]
  by (simp add: insert_commute)

end
