(* ===== verification/Stop_Decoder.thy ===== *)
theory Stop_Decoder
  imports Rust_Str
begin

text \<open>
  The stop-sequence decoder of \<^verbatim>\<open>tokenizer/stop.rs\<close>: it decodes a stream of tokens
  incrementally, holds back text that may be the beginning of a stop sequence (the jail),
  and stops at a stop token or a stop sequence.

  The tokenizer is third-party code: decoding is the argument \<open>dec\<close>, which may fail, and
  nothing is assumed of it.  Text is its UTF-8 bytes.  Slicing off the boundary of a
  character panics, which is the fault \<open>Panic\<close>.

  The main lemma is that the stream is treated as the whole text would be: the decoder
  has stopped exactly when a stop sequence occurs in the concatenation of the decoded
  pieces, however it is cut into pieces, and until then emitted and held text together
  are that concatenation.
\<close>

section \<open>State\<close>

type_synonym token = u32
type_synonym 'e decode = "token list \<Rightarrow> bool \<Rightarrow> 'e + str"

datatype 'e fault = Decode_Error 'e | Panic

datatype decoder_output =
    Text str
  | Held
  | Stopped
  | Stopped_With_Text str

record stop_config =
  stop_tokens :: "token set"
  stop_sequences :: "str list"
  visible_stop_tokens :: "token set"
  visible_stop_sequences :: "str list"

definition default_stop_config :: stop_config where
  "default_stop_config = \<lparr>stop_tokens = {}, stop_sequences = [], visible_stop_tokens = {}, visible_stop_sequences = []\<rparr>"

definition with_stop_token :: "token \<Rightarrow> stop_config \<Rightarrow> stop_config" where
  "with_stop_token t c = c\<lparr>stop_tokens := insert t (stop_tokens c)\<rparr>"

definition with_stop_sequence :: "str \<Rightarrow> stop_config \<Rightarrow> stop_config" where
  "with_stop_sequence s c = c\<lparr>stop_sequences := stop_sequences c @ [s]\<rparr>"

definition with_visible_stop_token :: "token \<Rightarrow> stop_config \<Rightarrow> stop_config" where
  "with_visible_stop_token t c = c\<lparr>visible_stop_tokens := insert t (visible_stop_tokens c)\<rparr>"

definition with_visible_stop_sequence :: "str \<Rightarrow> stop_config \<Rightarrow> stop_config" where
  "with_visible_stop_sequence s c = c\<lparr>visible_stop_sequences := visible_stop_sequences c @ [s]\<rparr>"

record stop_decoder =
  sd_config :: stop_config
  jail_buffer :: str
  token_buffer :: "token list"
  prefix_offset :: nat
  read_offset :: nat
  sd_stopped :: bool
  skip_special_tokens :: bool

definition sd_new :: "stop_config \<Rightarrow> bool \<Rightarrow> stop_decoder" where
  "sd_new c skip = \<lparr>sd_config = c, jail_buffer = [], token_buffer = [], prefix_offset = 0, read_offset = 0,
     sd_stopped = False, skip_special_tokens = skip\<rparr>"

section \<open>Decoding one token\<close>

definition continuation_byte :: "char \<Rightarrow> bool" where
  "continuation_byte c = (let b = of_char c :: nat in 128 \<le> b \<and> b < 192)"

definition is_char_boundary :: "str \<Rightarrow> nat \<Rightarrow> bool" where
  "is_char_boundary s i = (i = 0 \<or> i = length s \<or> i < length s \<and> \<not> continuation_byte (s ! i))"

definition replacement_char :: str where
  "replacement_char = map char_of [239, 191, 189 :: nat]"

definition ends_with :: "str \<Rightarrow> str \<Rightarrow> bool" where
  "ends_with p s = (length p \<le> length s \<and> drop (length s - length p) s = p)"

definition next_text :: "'e decode \<Rightarrow> stop_decoder \<Rightarrow> 'e fault + str option" where
  "next_text dec d =
     (let tokens = token_buffer d; skip = skip_special_tokens d;
          prefix_text = (if prefix_offset d < read_offset d
                         then dec (take (read_offset d - prefix_offset d) (drop (prefix_offset d) tokens)) skip
                         else Inr [])
      in case prefix_text of
           Inl e \<Rightarrow> Inl (Decode_Error e)
         | Inr pt \<Rightarrow>
             (case dec (drop (prefix_offset d) tokens) skip of
                Inl e \<Rightarrow> Inl (Decode_Error e)
              | Inr new_full_text \<Rightarrow>
                  if ends_with replacement_char new_full_text then Inr None
                  else if length pt < length new_full_text then
                    if is_char_boundary new_full_text (length pt)
                    then Inr (Some (drop (length pt) new_full_text)) else Inl Panic
                  else Inr None))"

section \<open>Stop sequences\<close>

fun first_match :: "str list \<Rightarrow> str \<Rightarrow> (str \<times> nat) option" where
  "first_match [] s = None"
| "first_match (q # qs) s =
     (case str_find q s of Some pos \<Rightarrow> Some (q, pos) | None \<Rightarrow> first_match qs s)"

definition char_starts :: "str \<Rightarrow> nat list" where
  "char_starts s = filter (\<lambda>i. \<not> continuation_byte (s ! i)) [0..<length s]"

fun partial_loop :: "str \<Rightarrow> str \<Rightarrow> nat list \<Rightarrow> nat \<Rightarrow> nat" where
  "partial_loop q s [] acc = acc"
| "partial_loop q s (start # starts) acc =
     (let suf = drop start s in
      if length q \<le> length suf then acc
      else partial_loop q s starts (if starts_with suf q then max acc (length suf) else acc))"

definition partial_match_len :: "str list \<Rightarrow> str \<Rightarrow> nat" where
  "partial_match_len qs s = fold (\<lambda>q. partial_loop q s (rev (char_starts s))) qs 0"

definition check_stop :: "stop_decoder \<Rightarrow> str \<Rightarrow> decoder_output \<times> stop_decoder" where
  "check_stop d new_text =
     (let check_text = jail_buffer d @ new_text; c = sd_config d in
      case first_match (stop_sequences c) check_text of
        Some (q, pos) \<Rightarrow>
          let output = take pos check_text
          in (if output = [] then Stopped else Stopped_With_Text output, d\<lparr>sd_stopped := True, jail_buffer := []\<rparr>)
      | None \<Rightarrow>
          (case first_match (visible_stop_sequences c) check_text of
             Some (q, pos) \<Rightarrow>
               (Stopped_With_Text (take (pos + length q) check_text), d\<lparr>sd_stopped := True, jail_buffer := []\<rparr>)
           | None \<Rightarrow>
               let partial = partial_match_len (stop_sequences c @ visible_stop_sequences c) check_text;
                   d' = d\<lparr>prefix_offset := read_offset d, read_offset := length (token_buffer d)\<rparr>
               in if 0 < partial then
                    let safe_end = length check_text - partial; safe_text = take safe_end check_text
                    in (if safe_text = [] then Held else Text safe_text,
                        d'\<lparr>jail_buffer := drop safe_end check_text\<rparr>)
                  else (Text check_text, d'\<lparr>jail_buffer := []\<rparr>)))"

definition process_token :: "'e decode \<Rightarrow> stop_decoder \<Rightarrow> token \<Rightarrow> ('e fault + decoder_output) \<times> stop_decoder" where
  "process_token dec d t =
     (if sd_stopped d then (Inr Stopped, d)
      else if t \<in> stop_tokens (sd_config d) then
        let d1 = d\<lparr>sd_stopped := True\<rparr> in
        if jail_buffer d \<noteq> [] then (Inr (Stopped_With_Text (jail_buffer d)), d1\<lparr>jail_buffer := []\<rparr>)
        else (Inr Stopped, d1)
      else if t \<in> visible_stop_tokens (sd_config d) then
        let d1 = d\<lparr>sd_stopped := True\<rparr> in
        case dec [t] (skip_special_tokens d) of
          Inl e \<Rightarrow> (Inl (Decode_Error e), d1)
        | Inr stop_text \<Rightarrow> (Inr (Stopped_With_Text (jail_buffer d @ stop_text)), d1\<lparr>jail_buffer := []\<rparr>)
      else
        let d1 = d\<lparr>token_buffer := token_buffer d @ [t]\<rparr> in
        case next_text dec d1 of
          Inl e \<Rightarrow> (Inl e, d1)
        | Inr None \<Rightarrow> (Inr Held, d1)
        | Inr (Some new_text) \<Rightarrow> (let (out, d2) = check_stop d1 new_text in (Inr out, d2)))"

fun process_tokens :: "'e decode \<Rightarrow> stop_decoder \<Rightarrow> token list \<Rightarrow> ('e fault + decoder_output list) \<times> stop_decoder" where
  "process_tokens dec d [] = (Inr [], d)"
| "process_tokens dec d (t # ts) =
     (case process_token dec d t of
        (Inl e, d1) \<Rightarrow> (Inl e, d1)
      | (Inr out, d1) \<Rightarrow>
          (case process_tokens dec d1 ts of
             (Inl e, d2) \<Rightarrow> (Inl e, d2)
           | (Inr outs, d2) \<Rightarrow> (Inr (out # outs), d2)))"

definition sd_flush :: "stop_decoder \<Rightarrow> decoder_output \<times> stop_decoder" where
  "sd_flush d = (Text (jail_buffer d), d\<lparr>jail_buffer := []\<rparr>)"

definition sd_reset :: "stop_decoder \<Rightarrow> stop_decoder" where
  "sd_reset d = d\<lparr>jail_buffer := [], token_buffer := [], prefix_offset := 0, read_offset := 0, sd_stopped := False\<rparr>"

section \<open>Occurrences\<close>

definition occurs :: "str \<Rightarrow> str \<Rightarrow> bool" where
  "occurs q s \<longleftrightarrow> (\<exists>a b. s = a @ q @ b)"

lemma occurs_iff_find: "occurs q s \<longleftrightarrow> str_find q s \<noteq> None"
proof
  assume "occurs q s"
  then obtain a b where s: "s = a @ q @ b" by (auto simp: occurs_def)
  then have "starts_with q (drop (length a) s)" by simp
  then show "str_find q s \<noteq> None" using str_find_None by blast
next
  assume "str_find q s \<noteq> None"
  then obtain i where "str_find q s = Some i" by blast
  then obtain r where "drop i s = q @ r" using str_find_SomeD [of q s i] by (auto simp: starts_with_iff)
  then have "s = take i s @ q @ r" by (metis append_take_drop_id)
  then show "occurs q s" unfolding occurs_def by blast
qed

lemma first_match_None: "first_match qs s = None \<longleftrightarrow> (\<forall>q\<in>set qs. \<not> occurs q s)"
  by (induction qs) (auto simp: occurs_iff_find split: option.split)

lemma first_match_Some:
  "first_match qs s = Some (q, pos) \<Longrightarrow> q \<in> set qs \<and> str_find q s = Some pos \<and> occurs q s"
  by (induction qs) (auto simp: occurs_iff_find split: option.splits)

lemma occurs_append: "occurs q s \<Longrightarrow> occurs q (a @ s)"
  unfolding occurs_def by (metis append.assoc)

section \<open>Partial matches\<close>

text \<open>A suffix of \<open>s\<close> that is a proper, non-empty prefix of \<open>q\<close>.\<close>

definition partial :: "str \<Rightarrow> str \<Rightarrow> str \<Rightarrow> bool" where
  "partial q s u \<longleftrightarrow> u \<noteq> [] \<and> (\<exists>a. s = a @ u) \<and> (\<exists>v. v \<noteq> [] \<and> q = u @ v)"

definition proper_sequence :: "str \<Rightarrow> bool" where
  "proper_sequence q \<longleftrightarrow> q \<noteq> [] \<and> \<not> continuation_byte (hd q)"

lemma partial_loop_ge: "acc \<le> partial_loop q s starts acc"
proof (induction starts arbitrary: acc)
  case (Cons i starts)
  from Cons [of acc] Cons [of "max acc (length (drop i s))"] show ?case by (auto simp: Let_def)
qed simp

lemma partial_loop_le:
  "acc \<le> n \<Longrightarrow> (\<And>i. i \<in> set starts \<Longrightarrow> length (drop i s) \<le> n) \<Longrightarrow> partial_loop q s starts acc \<le> n"
  by (induction q s starts acc rule: partial_loop.induct) (auto simp: Let_def)

lemma partial_loop_complete:
  assumes "i \<in> set starts" "sorted_wrt (>) starts" "length (drop i s) < length q" "starts_with (drop i s) q"
  shows "length (drop i s) \<le> partial_loop q s starts acc"
  using assms
proof (induction q s starts acc rule: partial_loop.induct)
  case (2 q s j starts acc)
  have "i \<le> j" using 2(2,3) by auto
  show ?case
  proof (cases "i = j")
    case True
    then show ?thesis using 2(4,5) partial_loop_ge [of "max acc (length (drop i s))" q s starts]
      by (simp add: Let_def)
  next
    case False
    then have i: "i \<in> set starts" "i < j" using 2(2) \<open>i \<le> j\<close> by auto
    have "length (drop j s) < length q" using 2(4) i(2) by simp
    then show ?thesis using 2(1) [of "drop j s"] i 2(3-5) by (simp add: Let_def not_le)
  qed
qed simp

lemma fold_partial_ge: "acc \<le> fold (\<lambda>q. partial_loop q s starts) qs acc"
proof (induction qs arbitrary: acc)
  case (Cons q qs)
  from le_trans [OF partial_loop_ge Cons] show ?case by simp
qed simp

lemma fold_partial_le: "acc \<le> length s \<Longrightarrow> fold (\<lambda>q. partial_loop q s starts) qs acc \<le> length s"
proof (induction qs arbitrary: acc)
  case (Cons q qs)
  have "partial_loop q s starts acc \<le> length s" using Cons.prems by (intro partial_loop_le) auto
  from Cons.IH [OF this] show ?case by simp
qed simp

lemma partial_match_len_le: "partial_match_len qs s \<le> length s"
  unfolding partial_match_len_def by (rule fold_partial_le) simp

lemma partial_match_len_complete:
  assumes q: "q \<in> set qs" "proper_sequence q" and u: "partial q s u"
  shows "length u \<le> partial_match_len qs s"
proof -
  from u obtain a v where s: "s = a @ u" and qu: "q = u @ v" "v \<noteq> []" and ne: "u \<noteq> []" by (auto simp: partial_def)
  let ?i = "length a"
  have d: "drop ?i s = u" using s by simp
  have "s ! ?i = hd q" using s qu ne by (simp add: hd_conv_nth nth_append)
  then have "?i \<in> set (char_starts s)" using q(2) s ne by (simp add: char_starts_def proper_sequence_def)
  moreover have "sorted_wrt (>) (rev (char_starts s))"
    by (simp add: char_starts_def sorted_wrt_rev sorted_wrt_filter)
  moreover have "length u < length q" "starts_with u q" using qu by (auto simp: starts_with_iff)
  ultimately have one: "length u \<le> partial_loop q s (rev (char_starts s)) acc" for acc
    using partial_loop_complete [of ?i "rev (char_starts s)" s q acc] d by simp
  obtain l r where qs: "qs = l @ q # r" using q(1) by (auto simp: in_set_conv_decomp)
  show ?thesis unfolding partial_match_len_def qs using le_trans [OF one fold_partial_ge] by simp
qed

section \<open>The stream is the text\<close>

abbreviation sequences :: "stop_decoder \<Rightarrow> str list" where
  "sequences d \<equiv> stop_sequences (sd_config d) @ visible_stop_sequences (sd_config d)"

fun shown :: "decoder_output \<Rightarrow> str" where
  "shown (Text s) = s"
| "shown Held = []"
| "shown Stopped = []"
| "shown (Stopped_With_Text s) = s"

text \<open>
  The state of a decoder that was given the text \<open>t\<close>: \<open>e\<close> has been emitted, the jail
  is the rest, no stop sequence occurs so far and no longer suffix could begin one.
\<close>

definition holds_back :: "stop_decoder \<Rightarrow> str \<Rightarrow> str \<Rightarrow> bool" where
  "holds_back d t e \<longleftrightarrow> t = e @ jail_buffer d \<and> (\<forall>q\<in>set (sequences d). \<not> occurs q t) \<and>
     (\<forall>q\<in>set (sequences d). \<forall>u. partial q t u \<longrightarrow> length u \<le> length (jail_buffer d))"

lemma holds_back_partial:
  "holds_back d t e \<Longrightarrow> q \<in> set (sequences d) \<Longrightarrow> partial q t u \<Longrightarrow> length u \<le> length (jail_buffer d)"
  unfolding holds_back_def by blast

lemma no_early_occurrence:
  assumes h: "holds_back d t e" and q: "q \<in> set (sequences d)" and ab: "t @ new = a @ q @ b"
  shows "length e \<le> length a"
proof (rule ccontr)
  have t: "t = e @ jail_buffer d" using h by (simp add: holds_back_def)
  assume "\<not> length e \<le> length a"
  then have ae: "length a < length e" by simp
  have long: "length t < length (a @ q)"
  proof (rule ccontr)
    assume "\<not> length t < length (a @ q)"
    then have "t = a @ q @ take (length t - length (a @ q)) b" using arg_cong [OF ab, of "take (length t)"] by simp
    then show False using h q unfolding holds_back_def occurs_def by blast
  qed
  let ?n = "length t - length a"
  have at: "t = a @ take ?n q" using arg_cong [OF ab, of "take (length t)"] long ae t by simp
  have qd: "q = take ?n q @ drop ?n q" "drop ?n q \<noteq> []" using long ae t by auto
  have n: "length (take ?n q) = ?n" using long by simp
  then have "take ?n q \<noteq> []" using ae t by auto
  then have "partial q t (take ?n q)" using at qd unfolding partial_def by blast
  from holds_back_partial [OF h q this] show False using n ae t by simp
qed

lemma str_find_eqI:
  assumes "starts_with q (drop i s)" "\<And>j. j < i \<Longrightarrow> \<not> starts_with q (drop j s)"
  shows "str_find q s = Some i"
proof (cases "str_find q s")
  case None
  then show ?thesis using str_find_None [of q s i] assms(1) by simp
next
  case (Some k)
  have "\<not> k < i" using assms(2) str_find_SomeD [OF Some] by blast
  moreover have "\<not> i < k" using str_find_least [OF Some] assms(1) by blast
  ultimately show ?thesis using Some by simp
qed

lemma no_early_find:
  assumes "holds_back d t e" "q \<in> set (sequences d)" "starts_with q (drop j (t @ new))" "j \<le> length (t @ new)"
  shows "length e \<le> j"
proof -
  obtain r where "drop j (t @ new) = q @ r" using assms(3) by (auto simp: starts_with_iff)
  then have "t @ new = take j (t @ new) @ q @ r" by (metis append_take_drop_id)
  from no_early_occurrence [OF assms(1,2) this] show ?thesis by simp
qed

lemma find_in_check:
  assumes h: "holds_back d t e" and q: "q \<in> set (sequences d)"
  shows "str_find q (t @ new) = map_option ((+) (length e)) (str_find q (jail_buffer d @ new))"
proof -
  let ?c = "jail_buffer d @ new"
  have t: "t @ new = e @ ?c" using h by (simp add: holds_back_def)
  show ?thesis
  proof (cases "str_find q ?c")
    case None
    have "str_find q (t @ new) = None"
    proof (rule ccontr)
      assume "str_find q (t @ new) \<noteq> None"
      then obtain i where "str_find q (t @ new) = Some i" by blast
      note i = str_find_SomeD [OF this]
      then have "starts_with q (drop (i - length e) ?c)" using no_early_find [OF h q] t by force
      then show False using str_find_None [OF None] by blast
    qed
    then show ?thesis using None by simp
  next
    case (Some p)
    have "str_find q (t @ new) = Some (length e + p)"
    proof (rule str_find_eqI)
      show "starts_with q (drop (length e + p) (t @ new))" using str_find_SomeD [OF Some] t by simp
      fix j assume j: "j < length e + p"
      have len: "j \<le> length (t @ new)" using j str_find_SomeD [OF Some] t by simp
      show "\<not> starts_with q (drop j (t @ new))"
      proof
        assume s: "starts_with q (drop j (t @ new))"
        have e: "length e \<le> j" by (rule no_early_find [OF h q s len])
        then have "j - length e < p" using j by linarith
        then show False using s e str_find_least [OF Some, of "j - length e"] t by simp
      qed
    qed
    then show ?thesis using Some by simp
  qed
qed

lemma occurs_in_check:
  "holds_back d t e \<Longrightarrow> q \<in> set (sequences d) \<Longrightarrow> occurs q (t @ new) \<longleftrightarrow> occurs q (jail_buffer d @ new)"
  by (simp add: occurs_iff_find find_in_check del: set_append)

lemma match_in_check:
  assumes h: "holds_back d t e" and qs: "set qs \<subseteq> set (sequences d)"
  shows "first_match qs (t @ new) = map_option (\<lambda>(q, p). (q, length e + p)) (first_match qs (jail_buffer d @ new))"
  using qs
proof (induction qs)
  case (Cons q qs)
  then have "q \<in> set (sequences d)" "set qs \<subseteq> set (sequences d)" by auto
  then show ?case using Cons.IH find_in_check [OF h, of q] by (simp split: option.split)
qed simp

lemma partial_in_check:
  assumes h: "holds_back d t e" and q: "q \<in> set (sequences d)" and u: "partial q (t @ new) u"
  shows "partial q (jail_buffer d @ new) u"
proof -
  have t: "t = e @ jail_buffer d" using h by (simp add: holds_back_def)
  from u obtain a v where ab: "t @ new = a @ u" and qu: "q = u @ v" "v \<noteq> []" and ne: "u \<noteq> []"
    by (auto simp: partial_def)
  have "length u \<le> length (jail_buffer d @ new)"
  proof (rule ccontr)
    assume "\<not> ?thesis"
    then have ae: "length a < length e" using arg_cong [OF ab, of length] t by simp
    let ?w = "drop (length a) t"
    have w: "u = ?w @ new" using arg_cong [OF ab, of "drop (length a)"] ae t by simp
    have "?w \<noteq> []" "t = take (length a) t @ ?w" "q = ?w @ new @ v" using ae t qu w by auto
    then have "partial q t ?w" using qu(2) unfolding partial_def by blast
    from holds_back_partial [OF h q this] show False using ae t by simp
  qed
  then have "length e \<le> length a" using arg_cong [OF ab, of length] t by simp
  then have "jail_buffer d @ new = drop (length e) a @ u" using arg_cong [OF ab, of "drop (length e)"] t by simp
  then show ?thesis using qu ne unfolding partial_def by blast
qed

lemma check_stop_continues:
  assumes h: "holds_back d t e" and proper: "\<forall>q\<in>set (sequences d). proper_sequence q"
    and no: "\<forall>q\<in>set (sequences d). \<not> occurs q (t @ new)"
    and c: "check_stop d new = (out, d')"
  shows "sd_config d' = sd_config d \<and> sd_stopped d' = sd_stopped d \<and> holds_back d' (t @ new) (e @ shown out)"
proof -
  let ?c = "jail_buffer d @ new"
  let ?p = "partial_match_len (sequences d) ?c"
  have t: "t = e @ jail_buffer d" using h by (simp add: holds_back_def)
  have none: "first_match (stop_sequences (sd_config d)) ?c = None"
    "first_match (visible_stop_sequences (sd_config d)) ?c = None"
    using no occurs_in_check [OF h] by (auto simp: first_match_None)
  have jail: "jail_buffer d' = drop (length ?c - ?p) ?c" "shown out = take (length ?c - ?p) ?c"
    and same: "sd_config d' = sd_config d" "sd_stopped d' = sd_stopped d"
    using c none by (auto simp: check_stop_def Let_def split: if_splits)
  have "length (jail_buffer d') = ?p" using jail(1) partial_match_len_le [of "sequences d" ?c] by simp
  moreover have "length u \<le> ?p" if "q \<in> set (sequences d)" "partial q (t @ new) u" for q u
    using partial_match_len_complete [OF that(1) _ partial_in_check [OF h that]] proper that(1) by blast
  ultimately have "length u \<le> length (jail_buffer d')" if "q \<in> set (sequences d)" "partial q (t @ new) u" for q u
    using that by simp
  moreover have "t @ new = (e @ shown out) @ jail_buffer d'"
    unfolding jail t by (simp only: append.assoc append_take_drop_id)
  ultimately show ?thesis using no same unfolding holds_back_def by simp
qed

text \<open>The text a stop configuration leaves of a whole text, read off the definition of stop sequences.\<close>

definition cut_text :: "stop_config \<Rightarrow> str \<Rightarrow> str" where
  "cut_text c t =
     (case first_match (stop_sequences c) t of
        Some (q, p) \<Rightarrow> take p t
      | None \<Rightarrow> (case first_match (visible_stop_sequences c) t of
                  Some (q, p) \<Rightarrow> take (p + length q) t
                | None \<Rightarrow> t))"

lemma check_stop_stops:
  assumes h: "holds_back d t e" and ex: "\<exists>q\<in>set (sequences d). occurs q (t @ new)"
    and c: "check_stop d new = (out, d')"
  shows "sd_config d' = sd_config d \<and> sd_stopped d' \<and> jail_buffer d' = [] \<and>
    e @ shown out = cut_text (sd_config d) (t @ new)"
proof -
  let ?c = "jail_buffer d @ new"
  have t: "t @ new = e @ ?c" using h by (simp add: holds_back_def)
  note hidden = match_in_check [OF h, of "stop_sequences (sd_config d)" new, simplified]
  note visible = match_in_check [OF h, of "visible_stop_sequences (sd_config d)" new, simplified]
  have "\<not> (first_match (stop_sequences (sd_config d)) ?c = None \<and>
           first_match (visible_stop_sequences (sd_config d)) ?c = None)"
    using ex occurs_in_check [OF h] by (auto simp: first_match_None)
  then consider q p where "first_match (stop_sequences (sd_config d)) ?c = Some (q, p)"
    | q p where "first_match (stop_sequences (sd_config d)) ?c = None"
        "first_match (visible_stop_sequences (sd_config d)) ?c = Some (q, p)"
    by (metis option.exhaust surj_pair)
  then show ?thesis
  proof cases
    case 1
    then show ?thesis using c hidden t by (auto simp: check_stop_def Let_def cut_text_def)
  next
    case 2
    then show ?thesis using c hidden visible t by (auto simp: check_stop_def Let_def cut_text_def add.assoc)
  qed
qed

lemma cut_text_none: "\<forall>q\<in>set (stop_sequences c @ visible_stop_sequences c). \<not> occurs q t \<Longrightarrow> cut_text c t = t"
  using first_match_None [of "stop_sequences c" t] first_match_None [of "visible_stop_sequences c" t]
  by (simp add: cut_text_def)

section \<open>Runs\<close>

text \<open>The pieces of text that the tokens decode to, up to where the decoder stops.\<close>

fun decoded_texts :: "'e decode \<Rightarrow> stop_decoder \<Rightarrow> token list \<Rightarrow> str list" where
  "decoded_texts dec d [] = []"
| "decoded_texts dec d (t # ts) =
     (if sd_stopped d then []
      else (case next_text dec (d\<lparr>token_buffer := token_buffer d @ [t]\<rparr>) of
              Inr (Some s) \<Rightarrow> [s] | _ \<Rightarrow> []) @ decoded_texts dec (snd (process_token dec d t)) ts)"

text \<open>What is known after the text \<open>t\<close> was decoded and \<open>e\<close> was emitted, stopped or not.\<close>

definition tracks :: "stop_config \<Rightarrow> stop_decoder \<Rightarrow> str \<Rightarrow> str \<Rightarrow> bool" where
  "tracks c d t e \<longleftrightarrow> sd_config d = c \<and>
     (if sd_stopped d
      then (\<exists>q\<in>set (stop_sequences c @ visible_stop_sequences c). occurs q t) \<and> e = cut_text c t \<and> jail_buffer d = []
      else holds_back d t e)"

lemma tracks_new: "\<forall>q\<in>set (stop_sequences c @ visible_stop_sequences c). proper_sequence q \<Longrightarrow> tracks c (sd_new c skip) [] []"
  by (auto simp: tracks_def sd_new_def holds_back_def occurs_def proper_sequence_def partial_def)

lemma tracks_result:
  assumes "tracks c d t e"
  shows "(sd_stopped d \<longleftrightarrow> (\<exists>q\<in>set (stop_sequences c @ visible_stop_sequences c). occurs q t)) \<and>
    e @ jail_buffer d = cut_text c t"
proof (cases "sd_stopped d")
  case False
  then have h: "holds_back d t e" "sd_config d = c" using assms by (auto simp: tracks_def)
  then have "\<forall>q\<in>set (stop_sequences c @ visible_stop_sequences c). \<not> occurs q t" "t = e @ jail_buffer d"
    by (auto simp: holds_back_def)
  then show ?thesis using False cut_text_none by metis
qed (use assms in \<open>auto simp: tracks_def\<close>)

lemma process_token_tracks:
  assumes proper: "\<forall>q\<in>set (stop_sequences c @ visible_stop_sequences c). proper_sequence q"
    and tok: "tok \<notin> stop_tokens c" "tok \<notin> visible_stop_tokens c"
    and tr: "tracks c d t e" and run: "process_token dec d tok = (Inr out, d')"
  shows "tracks c d' (t @ concat (if sd_stopped d then [] else
    case next_text dec (d\<lparr>token_buffer := token_buffer d @ [tok]\<rparr>) of Inr (Some s) \<Rightarrow> [s] | _ \<Rightarrow> [])) (e @ shown out)"
proof (cases "sd_stopped d")
  case True
  then show ?thesis using tr run by (auto simp: process_token_def)
next
  case False
  let ?d = "d\<lparr>token_buffer := token_buffer d @ [tok]\<rparr>"
  have cd: "sd_config d = c" and "holds_back d t e" using tr False by (auto simp: tracks_def)
  then have h: "holds_back ?d t e" "sd_config ?d = c" "\<not> sd_stopped ?d" using False by (auto simp: holds_back_def)
  show ?thesis
  proof (cases "next_text dec ?d")
    case (Inl x)
    then show ?thesis using run False tok cd by (simp add: process_token_def Let_def)
  next
    case (Inr o')
    show ?thesis
    proof (cases o')
      case None
      then have "out = Held" "d' = ?d" using run False tok cd Inr by (auto simp: process_token_def Let_def)
      then show ?thesis using h False Inr None by (simp add: tracks_def)
    next
      case (Some s)
      then have c: "check_stop ?d s = (out, d')"
        using run False tok cd Inr by (auto simp: process_token_def Let_def split: prod.splits)
      have "tracks c d' (t @ s) (e @ shown out)"
      proof (cases "\<exists>q\<in>set (sequences ?d). occurs q (t @ s)")
        case True
        from check_stop_stops [OF h(1) True c] show ?thesis using True h(2) unfolding tracks_def by simp
      next
        case no: False
        then show ?thesis using check_stop_continues [OF h(1) _ _ c] proper h(2,3) unfolding tracks_def by simp
      qed
      then show ?thesis using Inr Some False by simp
    qed
  qed
qed

lemma process_tokens_tracks:
  assumes "\<forall>q\<in>set (stop_sequences c @ visible_stop_sequences c). proper_sequence q"
    and "set toks \<inter> (stop_tokens c \<union> visible_stop_tokens c) = {}"
    and "tracks c d t e" and "process_tokens dec d toks = (Inr outs, d')"
  shows "tracks c d' (t @ concat (decoded_texts dec d toks)) (e @ concat (map shown outs))"
  using assms(2-)
proof (induction toks arbitrary: d t e outs)
  case (Cons tok toks)
  obtain r d1 where r: "process_token dec d tok = (r, d1)" by (cases "process_token dec d tok")
  obtain out where out: "r = Inr out" using r Cons.prems(3) by (cases r) auto
  obtain outs' where rest: "process_tokens dec d1 toks = (Inr outs', d')" "outs = out # outs'"
    using r out Cons.prems(3) by (auto split: prod.splits sum.splits)
  have tok: "tok \<notin> stop_tokens c" "tok \<notin> visible_stop_tokens c" using Cons.prems(1) by auto
  note step = process_token_tracks [OF assms(1) tok Cons.prems(2) r [unfolded out]]
  have stop: "decoded_texts dec d1 toks = []" if "sd_stopped d"
    using that r by (cases toks) (auto simp: process_token_def)
  from Cons.IH [OF _ step rest(1)] show ?case
    using Cons.prems(1) r rest(2) stop by (cases "sd_stopped d") auto
qed simp

section \<open>Properties\<close>

text \<open>C6: Streaming stop-sequence detection equals searching the whole text.  With non-empty
  stop sequences and no stop token in the stream, however the tokenizer cuts the text into
  pieces, the decoder has stopped exactly when a stop sequence occurs in the text decoded so
  far, and what was emitted, with what a flush would emit, is that text cut at the first
  occurrence of the first configured sequence that occurs in it.\<close>

theorem stop_stream_equals_text:
  assumes "\<forall>q\<in>set (stop_sequences c @ visible_stop_sequences c). proper_sequence q"
    and "set toks \<inter> (stop_tokens c \<union> visible_stop_tokens c) = {}"
    and "process_tokens dec (sd_new c skip) toks = (Inr outs, d')"
    and "t = concat (decoded_texts dec (sd_new c skip) toks)"
  shows "(sd_stopped d' \<longleftrightarrow> (\<exists>q\<in>set (stop_sequences c @ visible_stop_sequences c). occurs q t)) \<and>
    concat (map shown outs) @ shown (fst (sd_flush d')) = cut_text c t"
  using tracks_result [OF process_tokens_tracks [OF assms(1,2) tracks_new [OF assms(1)] assms(3)]] assms(4)
  by (simp add: sd_flush_def)

text \<open>A byte-level tokenizer for concrete runs: each token is a byte.\<close>

definition byte_decode :: "unit decode" where
  "byte_decode ts skip = Inr (map (\<lambda>t. char_of (unat t)) ts)"

definition stop_at_ab :: stop_config where
  "stop_at_ab = with_stop_sequence ''ab'' default_stop_config"

theorem stop_stream_equals_text_witness:
  "sd_stopped (snd (process_tokens byte_decode (sd_new stop_at_ab True) [120, 97, 97, 98, 121])) \<and>
   cut_text stop_at_ab ''xaab'' = ''xa''"
proof -
  let ?r = "process_tokens byte_decode (sd_new stop_at_ab True) [120, 97, 97, 98, 121]"
  have r: "fst ?r = Inr [Text ''x'', Held, Text ''a'', Stopped, Stopped]" by code_simp
  have t: "''xaab'' = concat (decoded_texts byte_decode (sd_new stop_at_ab True) [120, 97, 97, 98, 121])" by code_simp
  have c: "\<forall>q\<in>set (stop_sequences stop_at_ab @ visible_stop_sequences stop_at_ab). proper_sequence q" by code_simp
  have k: "set [120, 97, 97, 98, 121] \<inter> (stop_tokens stop_at_ab \<union> visible_stop_tokens stop_at_ab) = {}" by code_simp
  have "?r = (Inr [Text ''x'', Held, Text ''a'', Stopped, Stopped], snd ?r)" using r by (metis prod.collapse)
  from stop_stream_equals_text [OF c k this t]
  have "sd_stopped (snd ?r) \<longleftrightarrow> (\<exists>q\<in>set (stop_sequences stop_at_ab @ visible_stop_sequences stop_at_ab). occurs q ''xaab'')"
    by (rule conjunct1)
  then show ?thesis unfolding occurs_iff_find by code_simp
qed

end
