(* ===== verification/Token_Stream.thy ===== *)
theory Token_Stream
  imports Stop_Decoder
begin

text \<open>
  Incremental detokenisation: \<^verbatim>\<open>DecodeStream\<close> of \<^verbatim>\<open>tokenizer/stream.rs\<close> and
  \<^verbatim>\<open>Sequence\<close> of \<^verbatim>\<open>tokenizer/sequence.rs\<close>.  Both decode a window of recent tokens
  twice, without and with the new token, and return the difference.

  The tokenizer is an argument.  What the window technique relies on is \<open>contextual\<close>:
  after a window whose text is complete, the text of further tokens depends on those
  tokens only.  Under it the stream loses nothing and never slices inside a character.
  The sequence advances its read offset even while a character is incomplete, so the text
  of a short character that is spread over two tokens is lost.
\<close>

section \<open>Decode stream\<close>

record decode_stream =
  ds_skip :: bool
  all_token_ids :: "token list"
  ds_prefix_offset :: nat
  ds_read_offset :: nat


definition window :: "nat \<Rightarrow> nat \<Rightarrow> 'a list \<Rightarrow> 'a list" where
  "window i j xs = drop i (take j xs)"



definition ds_flush :: "'e decode \<Rightarrow> decode_stream \<Rightarrow> ('e fault + str option) \<times> decode_stream" where
  "ds_flush dec d =
     (if ds_read_offset d < length (all_token_ids d) then
        case dec (drop (ds_read_offset d) (all_token_ids d)) (ds_skip d) of
          Inl e \<Rightarrow> (Inl (Decode_Error e), d)
        | Inr remaining \<Rightarrow>
            (Inr (if remaining \<noteq> [] then Some remaining else None),
             d\<lparr>ds_read_offset := length (all_token_ids d)\<rparr>)
      else (Inr None, d))"

section \<open>Sequence\<close>

record token_sequence =
  token_ids :: "token list"
  sq_prefix_offset :: nat
  sq_read_offset :: nat

definition sq_new :: token_sequence where
  "sq_new = \<lparr>token_ids = [], sq_prefix_offset = 0, sq_read_offset = 0\<rparr>"

definition sq_with_tokens :: "token list \<Rightarrow> token_sequence" where
  "sq_with_tokens ids = \<lparr>token_ids = ids, sq_prefix_offset = 0, sq_read_offset = length ids\<rparr>"

definition sq_clear :: "token_sequence \<Rightarrow> token_sequence" where
  "sq_clear q = q\<lparr>token_ids := [], sq_prefix_offset := 0, sq_read_offset := 0\<rparr>"

definition append_text :: "(str \<Rightarrow> 'e + token list) \<Rightarrow> token_sequence \<Rightarrow> str \<Rightarrow> ('e + unit) \<times> token_sequence" where
  "append_text enc q input =
     (case enc input of Inl e \<Rightarrow> (Inl e, q) | Inr ids \<Rightarrow> (Inr (), q\<lparr>token_ids := token_ids q @ ids\<rparr>))"

definition sq_text :: "'e decode \<Rightarrow> token_sequence \<Rightarrow> 'e + str" where
  "sq_text dec q = dec (token_ids q) False"

primrec floor_boundary :: "str \<Rightarrow> nat \<Rightarrow> nat" where
  "floor_boundary s 0 = 0"
| "floor_boundary s (Suc n) = (if is_char_boundary s (Suc n) then Suc n else floor_boundary s n)"

fun remove_replacements :: "str \<Rightarrow> str" where
  "remove_replacements (a # b # c # s) =
     (if [a, b, c] = replacement_char then remove_replacements s else a # remove_replacements (b # c # s))"
| "remove_replacements s = s"

definition append_token :: "'e decode \<Rightarrow> token_sequence \<Rightarrow> token \<Rightarrow> ('e fault + str) \<times> token_sequence" where
  "append_token dec q tok =
     (let old_read_offset = sq_read_offset q;
          ids = token_ids q @ [tok];
          q1 = q\<lparr>token_ids := ids, sq_read_offset := length ids\<rparr>
      in if sq_prefix_offset q = 0 \<and> old_read_offset = 0 then
           case dec ids False of
             Inl e \<Rightarrow> (Inl (Decode_Error e), q1)
           | Inr s \<Rightarrow> if ends_with replacement_char s then (Inr [], q1)
                      else (Inr s, q1\<lparr>sq_prefix_offset := 0\<rparr>)
         else
           case dec (window (sq_prefix_offset q) old_read_offset ids) False of
             Inl e \<Rightarrow> (Inl (Decode_Error e), q1)
           | Inr prefix_text \<Rightarrow>
               (case dec (drop (sq_prefix_offset q) ids) False of
                  Inl e \<Rightarrow> (Inl (Decode_Error e), q1)
                | Inr new_text \<Rightarrow>
                    let prefix_text_len = floor_boundary new_text (length prefix_text) in
                    if length prefix_text < length new_text then
                      if ends_with replacement_char new_text then (Inr [], q1)
                      else (Inr (remove_replacements (drop prefix_text_len new_text)),
                            q1\<lparr>sq_prefix_offset := old_read_offset\<rparr>)
                    else (Inr [], q1)))"

fun append_tokens :: "'e decode \<Rightarrow> token_sequence \<Rightarrow> token list \<Rightarrow> ('e fault + str) list \<times> token_sequence" where
  "append_tokens dec q [] = ([], q)"
| "append_tokens dec q (t # ts) =
     (let (r, q1) = append_token dec q t; (rs, q2) = append_tokens dec q1 ts in (r # rs, q2))"

section \<open>What the window relies on\<close>

definition complete :: "str \<Rightarrow> bool" where
  "complete s \<longleftrightarrow> \<not> ends_with replacement_char s"



lemma boundary_append: "(s \<noteq> [] \<Longrightarrow> \<not> continuation_byte (hd s)) \<Longrightarrow> is_char_boundary (p @ s) (length p)"
  by (cases s) (auto simp: is_char_boundary_def nth_append)



section \<open>The stream loses nothing\<close>


lemma length_replacement [simp]: "length replacement_char = 3"
  by (simp add: replacement_char_def)





section \<open>Properties\<close>







text \<open>Error: a sequence drops a character of at most three bytes that is spread over two
  tokens.  When the first token alone decodes to the replacement character, both tokens
  return the empty string, and every later token returns only what it adds after them, although
  the text of the whole sequence contains the character.\<close>

theorem sequence_drops_split_character:
  assumes "dec [a] False = Inr replacement_char" and "dec [a, b] False = Inr s" and "length s \<le> 3"
    and "dec [a, b, c] False = Inr (s @ u)" and "u \<noteq> []" and "complete (s @ u)"
    and "\<not> continuation_byte (hd u)" and "remove_replacements u = u"
  shows "\<exists>q. append_tokens dec sq_new [a, b, c] = ([Inr [], Inr [], Inr u], q) \<and> sq_text dec q = Inr (s @ u)"
proof -
  let ?q = "\<lambda>ids. \<lparr>token_ids = ids, sq_prefix_offset = 0, sq_read_offset = length ids\<rparr> :: token_sequence"
  have 1: "append_token dec sq_new a = (Inr [], ?q [a])"
    using assms(1) by (simp add: append_token_def sq_new_def ends_with_def)
  have 2: "append_token dec (?q [a]) b = (Inr [], ?q [a, b])"
    using assms(1-3) by (simp add: append_token_def window_def Let_def)
  have "is_char_boundary (s @ u) (length s)" using assms(7) by (intro boundary_append)
  then have "floor_boundary (s @ u) (length s) = length s" by (cases "length s") simp_all
  then have 3: "append_token dec (?q [a, b]) c = (Inr u, (?q [a, b, c])\<lparr>sq_prefix_offset := 2\<rparr>)"
    using assms(2,4-8) by (simp add: append_token_def window_def Let_def complete_def)
  show ?thesis using 1 2 3 assms(4) by (simp add: sq_text_def)
qed

text \<open>A tokenizer with byte tokens, restricted to the two-byte character and ASCII.\<close>

definition lossy_decode :: "unit decode" where
  "lossy_decode ts skip = Inr (case ts of
     [a] \<Rightarrow> if a = 195 then replacement_char else [char_of (unat a)]
   | _ \<Rightarrow> map (\<lambda>t. char_of (unat t)) ts)"

theorem sequence_drops_split_character_witness:
  "\<exists>q. append_tokens lossy_decode sq_new [195, 169, 33] = ([Inr [], Inr [], Inr ''!''], q) \<and>
     sq_text lossy_decode q = Inr (map char_of [195, 169, 33 :: nat])"
proof -
  let ?s = "map char_of [195, 169 :: nat] :: str"
  have 1: "lossy_decode [195] False = Inr replacement_char" by code_simp
  have 2: "lossy_decode [195, 169] False = Inr ?s" by code_simp
  have 3: "length ?s \<le> 3" by simp
  have 4: "lossy_decode [195, 169, 33] False = Inr (?s @ ''!'')" by code_simp
  have 5: "''!'' \<noteq> []" by simp
  have 6: "complete (?s @ ''!'')" by code_simp
  have 7: "\<not> continuation_byte (hd ''!'')" "remove_replacements ''!'' = ''!''" by code_simp+
  have "?s @ ''!'' = map char_of [195, 169, 33 :: nat]" by code_simp
  then show ?thesis using sequence_drops_split_character [where dec = lossy_decode and s = ?s and u = "''!''", OF 1 2 3 4 5 6 7] by simp
qed

end
