(* ===== verification/Response_Store.thy ===== *)
theory Response_Store
  imports Rust_Str "HOL-Library.Multiset"
begin

text \<open>
  The storage of responses of \<^verbatim>\<open>data_connector\<close>: the types of \<^verbatim>\<open>responses.rs\<close>, the
  in-memory store of \<^verbatim>\<open>response_memory_store.rs\<close> with its index of responses by user,
  and the store of \<^verbatim>\<open>response_noop_store.rs\<close> that keeps nothing.

  Every operation of the in-memory store holds the one lock for its whole effect, so it is a
  function on the store.  JSON values are the type parameter; a generated identifier
  (a ULID) is the argument \<open>new_id\<close>; creation times are integers.

  As long as identifiers are not reused the index is exact; a reused identifier under
  another user leaves the response in both users' indexes.
\<close>

section \<open>Responses and chains\<close>

record 'j stored_response =
  rid :: str
  previous_response_id :: "str option"
  rinput :: str
  instructions :: "str option"
  routput :: str
  tool_calls :: "'j list"
  rmetadata :: "str \<rightharpoonup> 'j"
  created_at :: int
  ruser :: "str option"
  rmodel :: "str option"

definition stored_response_new :: "str \<Rightarrow> int \<Rightarrow> str \<Rightarrow> str \<Rightarrow> str option \<Rightarrow> 'j stored_response" where
  "stored_response_new new_id now inp out prev =
     \<lparr>rid = new_id, previous_response_id = prev, rinput = inp, instructions = None, routput = out,
      tool_calls = [], rmetadata = Map.empty, created_at = now, ruser = None, rmodel = None\<rparr>"

record 'j response_chain =
  chain_responses :: "'j stored_response list"
  chain_metadata :: "str \<rightharpoonup> 'j"

definition chain_new :: "'j response_chain" where
  "chain_new = \<lparr>chain_responses = [], chain_metadata = Map.empty\<rparr>"

definition latest_response_id :: "'j response_chain \<Rightarrow> str option" where
  "latest_response_id c = (if chain_responses c = [] then None else Some (rid (last (chain_responses c))))"

definition add_response :: "'j response_chain \<Rightarrow> 'j stored_response \<Rightarrow> 'j response_chain" where
  "add_response c r = c\<lparr>chain_responses := chain_responses c @ [r]\<rparr>"

definition build_context :: "'j response_chain \<Rightarrow> nat option \<Rightarrow> (str \<times> str) list" where
  "build_context c max_responses =
     (let rs = chain_responses c;
          responses = (case max_responses of Some m \<Rightarrow> drop (length rs - m) rs | None \<Rightarrow> rs)
      in map (\<lambda>r. (rinput r, routput r)) responses)"

section \<open>The in-memory store\<close>

record 'j inner_store =
  responses :: "str \<rightharpoonup> 'j stored_response"
  user_index :: "str \<rightharpoonup> str list"

definition store_new :: "'j inner_store" where
  "store_new = \<lparr>responses = Map.empty, user_index = Map.empty\<rparr>"

definition store_clear :: "'j inner_store \<Rightarrow> 'j inner_store" where
  "store_clear s = s\<lparr>responses := Map.empty, user_index := Map.empty\<rparr>"

definition store_response :: "str \<Rightarrow> 'j inner_store \<Rightarrow> 'j stored_response \<Rightarrow> str \<times> 'j inner_store" where
  "store_response new_id s response =
     (let response = (if rid response = [] then response\<lparr>rid := new_id\<rparr> else response);
          response_id = rid response;
          s1 = (case ruser response of
                  Some u \<Rightarrow> s\<lparr>user_index := (user_index s)(u \<mapsto>
                     (case user_index s u of Some ids \<Rightarrow> ids | None \<Rightarrow> []) @ [response_id])\<rparr>
                | None \<Rightarrow> s)
      in (response_id, s1\<lparr>responses := (responses s1)(response_id \<mapsto> response)\<rparr>))"

definition get_response :: "'j inner_store \<Rightarrow> str \<Rightarrow> 'j stored_response option" where
  "get_response s i = responses s i"

definition delete_response :: "'j inner_store \<Rightarrow> str \<Rightarrow> 'j inner_store" where
  "delete_response s i =
     (case responses s i of
        None \<Rightarrow> s
      | Some response \<Rightarrow>
          let s1 = s\<lparr>responses := (responses s)(i := None)\<rparr> in
          case ruser response of
            None \<Rightarrow> s1
          | Some u \<Rightarrow>
              (case user_index s1 u of
                 None \<Rightarrow> s1
               | Some ids \<Rightarrow>
                   let ids' = filter (\<lambda>j. j \<noteq> i) ids
                   in s1\<lparr>user_index := (user_index s1)(u := (if ids' = [] then None else Some ids'))\<rparr>))"

text \<open>The loop that collects the chain; the number is the depth that is left.\<close>

fun chain_ids :: "(str \<rightharpoonup> 'j stored_response) \<Rightarrow> str option \<Rightarrow> nat \<Rightarrow> str list" where
  "chain_ids m None n = []"
| "chain_ids m (Some i) 0 = []"
| "chain_ids m (Some i) (Suc n) =
     (case m i of Some response \<Rightarrow> i # chain_ids m (previous_response_id response) n | None \<Rightarrow> [])"

definition get_response_chain :: "'j inner_store \<Rightarrow> str \<Rightarrow> nat option \<Rightarrow> 'j response_chain" where
  "get_response_chain s response_id max_depth =
     (let depth = (case max_depth of Some d \<Rightarrow> d | None \<Rightarrow> 100);
          response_ids = rev (chain_ids (responses s) (Some response_id) depth)
      in fold (\<lambda>i chain. case responses s i of Some r \<Rightarrow> add_response chain r | None \<Rightarrow> chain) response_ids chain_new)"

definition list_user_responses :: "'j inner_store \<Rightarrow> str \<Rightarrow> nat option \<Rightarrow> 'j stored_response list" where
  "list_user_responses s u limit =
     (case user_index s u of
        None \<Rightarrow> []
      | Some ids \<Rightarrow>
          let with_time = List.map_filter (\<lambda>i. map_option (\<lambda>r. (created_at r, i)) (responses s i)) ids;
              sorted_ids = sort_key (\<lambda>(t, i). - t) with_time;
              n = (case limit of Some l \<Rightarrow> l | None \<Rightarrow> length with_time)
          in List.map_filter (\<lambda>(t, i). responses s i) (take n sorted_ids))"

definition delete_user_responses :: "'j inner_store \<Rightarrow> str \<Rightarrow> nat \<times> 'j inner_store" where
  "delete_user_responses s u =
     (case user_index s u of
        None \<Rightarrow> (0, s)
      | Some ids \<Rightarrow>
          (length ids, s\<lparr>user_index := (user_index s)(u := None),
                         responses := fold (\<lambda>i m. m(i := None)) ids (responses s)\<rparr>))"

section \<open>The store that keeps nothing\<close>

definition noop_store_response :: "'j stored_response \<Rightarrow> str" where
  "noop_store_response response = rid response"

definition noop_get_response :: "unit \<Rightarrow> str \<Rightarrow> 'j stored_response option" where
  "noop_get_response s i = None"

definition noop_delete_response :: "unit \<Rightarrow> str \<Rightarrow> unit" where
  "noop_delete_response s i = ()"

definition noop_get_response_chain :: "unit \<Rightarrow> str \<Rightarrow> nat option \<Rightarrow> 'j response_chain" where
  "noop_get_response_chain s i max_depth = chain_new"

definition noop_list_user_responses :: "unit \<Rightarrow> str \<Rightarrow> nat option \<Rightarrow> 'j stored_response list" where
  "noop_list_user_responses s u limit = []"

definition noop_delete_user_responses :: "unit \<Rightarrow> str \<Rightarrow> nat \<times> unit" where
  "noop_delete_user_responses s u = (0, ())"

section \<open>The index is exact\<close>

definition owned :: "'j inner_store \<Rightarrow> str \<Rightarrow> str set" where
  "owned s u = {i. \<exists>r. responses s i = Some r \<and> ruser r = Some u}"

definition store_inv :: "'j inner_store \<Rightarrow> bool" where
  "store_inv s \<longleftrightarrow>
     (\<forall>i r. responses s i = Some r \<longrightarrow> rid r = i) \<and>
     (\<forall>u. case user_index s u of
             Some ids \<Rightarrow> ids \<noteq> [] \<and> distinct ids \<and> set ids = owned s u
           | None \<Rightarrow> owned s u = {})"

datatype 'j store_op =
    Store "'j stored_response" str
  | Delete str
  | Delete_User str
  | Clear

text \<open>The identifier a response is stored under.\<close>

definition stored_id :: "str \<Rightarrow> 'j stored_response \<Rightarrow> str" where
  "stored_id new_id r = (if rid r = [] then new_id else rid r)"

fun store_step :: "'j store_op \<Rightarrow> 'j inner_store \<Rightarrow> 'j inner_store" where
  "store_step (Store r new_id) s = snd (store_response new_id s r)"
| "store_step (Delete i) s = delete_response s i"
| "store_step (Delete_User u) s = snd (delete_user_responses s u)"
| "store_step Clear s = store_clear s"

text \<open>A run in which no response is stored under an identifier that is in use.\<close>

fun fresh_run :: "'j store_op list \<Rightarrow> 'j inner_store \<Rightarrow> bool" where
  "fresh_run [] s \<longleftrightarrow> True"
| "fresh_run (p # ps) s \<longleftrightarrow>
     (case p of Store r new_id \<Rightarrow> responses s (stored_id new_id r) = None | _ \<Rightarrow> True) \<and> fresh_run ps (store_step p s)"

lemma store_response_eq:
  "store_response new_id s r =
     (let i = stored_id new_id r; r' = r\<lparr>rid := i\<rparr> in
      (i, \<lparr>responses = (responses s)(i \<mapsto> r'),
           user_index = (case ruser r of
              Some u \<Rightarrow> (user_index s)(u \<mapsto> (case user_index s u of Some ids \<Rightarrow> ids | None \<Rightarrow> []) @ [i])
            | None \<Rightarrow> user_index s), \<dots> = inner_store.more s\<rparr>))"
  by (cases s; cases r) (auto simp: store_response_def stored_id_def Let_def split: option.split)

lemma fold_remove: "fold (\<lambda>i m. m(i := None)) ids m = (\<lambda>i. if i \<in> set ids then None else m i)"
  by (induction ids arbitrary: m) auto

lemma store_new_inv: "store_inv store_new"
  by (simp add: store_inv_def store_new_def owned_def)

lemma store_inv_iff:
  "store_inv s \<longleftrightarrow>
     (\<forall>i r. responses s i = Some r \<longrightarrow> rid r = i) \<and>
     (\<forall>u ids. user_index s u = Some ids \<longrightarrow> ids \<noteq> [] \<and> distinct ids \<and> set ids = owned s u) \<and>
     (\<forall>u. user_index s u = None \<longrightarrow> owned s u = {})"
  unfolding store_inv_def by (auto split: option.splits)

lemma store_inv_index:
  assumes "store_inv s"
  shows "user_index s u = Some ids \<Longrightarrow> ids \<noteq> [] \<and> distinct ids \<and> set ids = owned s u"
    "user_index s u = None \<Longrightarrow> owned s u = {}"
  using assms unfolding store_inv_iff by blast+

lemma store_response_inv:
  assumes inv: "store_inv s" and fresh: "responses s (stored_id new_id r) = None"
  shows "store_inv (snd (store_response new_id s r))"
proof -
  let ?i = "stored_id new_id r" and ?s = "snd (store_response new_id s r)"
  have own: "owned ?s u = owned s u \<union> (if ruser r = Some u then {?i} else {})" for u
    using fresh by (auto simp: store_response_eq Let_def owned_def)
  have new: "?i \<notin> owned s u" for u using fresh by (simp add: owned_def)
  have "case user_index ?s u of Some ids \<Rightarrow> ids \<noteq> [] \<and> distinct ids \<and> set ids = owned ?s u | None \<Rightarrow> owned ?s u = {}" for u
    unfolding own using store_inv_index [OF inv, of u] new [of u]
    by (cases "user_index s u") (auto simp: store_response_eq Let_def split: option.splits)
  moreover have "\<forall>i q. responses ?s i = Some q \<longrightarrow> rid q = i"
    using inv by (auto simp: store_response_eq Let_def store_inv_iff)
  ultimately show ?thesis unfolding store_inv_def by blast
qed

lemma responses_delete [simp]: "responses (delete_response s i) = (responses s)(i := None)"
  by (auto simp: delete_response_def Let_def split: option.split)

lemma index_delete:
  assumes "responses s i = Some r"
  shows "user_index (delete_response s i) u =
    (if ruser r = Some u then
       (case user_index s u of Some ids \<Rightarrow> (if \<forall>j\<in>set ids. j = i then None else Some (filter (\<lambda>j. j \<noteq> i) ids)) | None \<Rightarrow> None)
     else user_index s u)"
  using assms by (cases "ruser r") (simp_all add: delete_response_def Let_def filter_empty_conv split: option.split)

lemma delete_response_inv:
  assumes inv: "store_inv s"
  shows "store_inv (delete_response s i)"
proof (cases "responses s i")
  case None
  then show ?thesis using inv by (simp add: delete_response_def)
next
  case (Some r)
  have own: "owned (delete_response s i) u = owned s u - {i}" for u by (auto simp: owned_def)
  have mine: "i \<in> owned s u \<longleftrightarrow> ruser r = Some u" for u using Some by (simp add: owned_def)
  have "case user_index (delete_response s i) u of
      Some ids \<Rightarrow> ids \<noteq> [] \<and> distinct ids \<and> set ids = owned (delete_response s i) u
    | None \<Rightarrow> owned (delete_response s i) u = {}" for u
  proof (cases "user_index s u")
    case None
    then show ?thesis unfolding own index_delete [OF Some] using store_inv_index(2) [OF inv None] by simp
  next
    case ids: (Some ids)
    then have o': "owned s u = set ids" "distinct ids" "ids \<noteq> []" using store_inv_index(1) [OF inv ids] by simp_all
    show ?thesis
    proof (cases "ruser r = Some u")
      case True
      then show ?thesis unfolding own index_delete [OF Some] o'(1) using ids o'(2) by (auto simp: filter_empty_conv)
    next
      case False
      then have "i \<notin> set ids" using mine [of u] o'(1) by simp
      then show ?thesis unfolding own index_delete [OF Some] o'(1) using ids o'(2,3) False by simp
    qed
  qed
  moreover have "\<forall>j q. responses (delete_response s i) j = Some q \<longrightarrow> rid q = j"
    using inv by (simp add: store_inv_iff)
  ultimately show ?thesis unfolding store_inv_def by blast
qed

lemma delete_user_eq:
  assumes inv: "store_inv s"
  shows "delete_user_responses s u =
    (card (owned s u), s\<lparr>user_index := (user_index s)(u := None),
       responses := (\<lambda>i. if i \<in> owned s u then None else responses s i)\<rparr>)"
proof (cases "user_index s u")
  case None
  then have "(user_index s)(u := None) = user_index s" by auto
  then show ?thesis using None store_inv_index(2) [OF inv None] by (simp add: delete_user_responses_def)
next
  case (Some ids)
  then show ?thesis using store_inv_index(1) [OF inv Some] distinct_card [of ids]
    by (simp add: delete_user_responses_def fold_remove)
qed

lemma delete_user_inv:
  assumes inv: "store_inv s"
  shows "store_inv (snd (delete_user_responses s u))"
proof -
  let ?s = "snd (delete_user_responses s u)"
  have own: "owned ?s v = (if v = u then {} else owned s v)" for v
    unfolding delete_user_eq [OF inv] by (auto simp: owned_def)
  have idx: "user_index ?s = (user_index s)(u := None)" unfolding delete_user_eq [OF inv] by simp
  have "case user_index ?s v of Some ids \<Rightarrow> ids \<noteq> [] \<and> distinct ids \<and> set ids = owned ?s v | None \<Rightarrow> owned ?s v = {}" for v
    unfolding own idx using store_inv_index [OF inv, of v] by (auto split: option.split)
  moreover have "\<forall>j q. responses ?s j = Some q \<longrightarrow> rid q = j"
    unfolding delete_user_eq [OF inv] using inv by (auto simp: store_inv_iff)
  ultimately show ?thesis unfolding store_inv_def by blast
qed

lemma store_clear_inv: "store_inv (store_clear s)"
  by (simp add: store_inv_def store_clear_def owned_def)

lemma store_run_inv:
  "store_inv s \<Longrightarrow> fresh_run ps s \<Longrightarrow> store_inv (fold store_step ps s)"
proof (induction ps arbitrary: s)
  case (Cons p ps)
  have "store_inv (store_step p s)"
    using Cons.prems store_response_inv delete_response_inv delete_user_inv store_clear_inv by (cases p) auto
  then show ?case using Cons by simp
qed simp

section \<open>Listing\<close>

lemma map_filter_stored:
  assumes "set ids \<subseteq> dom m"
  shows "List.map_filter (\<lambda>i. map_option (g i) (m i)) ids = map (\<lambda>i. g i (the (m i))) ids"
  using assms by (induction ids) (auto simp: List.map_filter_def)

lemma map_filter_map: "List.map_filter f (map g xs) = List.map_filter (\<lambda>x. f (g x)) xs"
  by (simp add: List.map_filter_def filter_map comp_def)

lemma insort_key_map: "insort_key f (g x) (map g xs) = map g (insort_key (\<lambda>x. f (g x)) x xs)"
  by (induction xs) simp_all

lemma sort_key_map: "sort_key f (map g xs) = map g (sort_key (\<lambda>x. f (g x)) xs)"
  by (induction xs) (simp_all add: insort_key_map)

lemma list_user_eq:
  assumes "user_index s u = Some ids" and dom: "set ids \<subseteq> dom (responses s)"
  shows "list_user_responses s u limit =
    take (case limit of Some l \<Rightarrow> l | None \<Rightarrow> length ids)
      (sort_key (\<lambda>r. - created_at r) (map (\<lambda>i. the (responses s i)) ids))"
proof -
  let ?g = "\<lambda>i. the (responses s i)"
  let ?is = "take (case limit of Some l \<Rightarrow> l | None \<Rightarrow> length ids) (sort_key (\<lambda>i. - created_at (?g i)) ids)"
  have "set ?is \<subseteq> dom (responses s)" using dom set_take_subset [of _ "sort_key _ ids"] by fastforce
  then have "List.map_filter (responses s) ?is = map ?g ?is"
    using map_filter_stored [of ?is "responses s" "\<lambda>i r. r"] by (simp add: option.map_ident)
  then show ?thesis using assms(1) map_filter_stored [OF dom, of "\<lambda>i r. (created_at r, i)"]
    by (cases limit) (simp_all add: list_user_responses_def Let_def sort_key_map take_map map_filter_map)
qed

lemma index_stored: "store_inv s \<Longrightarrow> user_index s u = Some ids \<Longrightarrow> set ids \<subseteq> dom (responses s)"
  using store_inv_index(1) [of s u ids] by (auto simp: owned_def)

lemma responses_inj: "store_inv s \<Longrightarrow> inj_on (\<lambda>i. the (responses s i)) (dom (responses s))"
  unfolding store_inv_def inj_on_def by (metis domIff option.collapse)

text \<open>The listing of a user without a limit.\<close>

lemma list_all_exact:
  assumes inv: "store_inv s"
  shows "distinct (list_user_responses s u None) \<and>
    set (list_user_responses s u None) = {r. \<exists>i. responses s i = Some r \<and> ruser r = Some u} \<and>
    sorted_wrt (\<lambda>r q. created_at q \<le> created_at r) (list_user_responses s u None)"
proof (cases "user_index s u")
  case None
  then show ?thesis using store_inv_index(2) [OF inv None] by (auto simp: list_user_responses_def owned_def)
next
  case (Some ids)
  note dom = index_stored [OF inv Some] and ids = store_inv_index(1) [OF inv Some]
  let ?l = "list_user_responses s u None"
  have l: "?l = sort_key (\<lambda>r. - created_at r) (map (\<lambda>i. the (responses s i)) ids)"
    using list_user_eq [OF Some dom, of None] by simp
  have "inj_on (\<lambda>i. the (responses s i)) (set ids)" using responses_inj [OF inv] dom by (rule inj_on_subset)
  then have "distinct ?l" using ids by (simp add: l distinct_map)
  moreover have "set ?l = {r. \<exists>i. responses s i = Some r \<and> ruser r = Some u}"
    using ids by (force simp: l owned_def)
  moreover have "sorted (map (\<lambda>r. - created_at r) ?l)" unfolding l by (rule sorted_sort_key)
  then have "sorted_wrt (\<lambda>r q. created_at q \<le> created_at r) ?l" by (simp add: sorted_map)
  ultimately show ?thesis by blast
qed

lemma list_limit: "list_user_responses s u (Some l) = take l (list_user_responses s u None)" if "store_inv s"
proof (cases "user_index s u")
  case None
  then show ?thesis by (simp add: list_user_responses_def)
next
  case (Some ids)
  then show ?thesis using list_user_eq [OF Some index_stored [OF that Some]] by simp
qed

section \<open>Chains\<close>

lemma chain_fold:
  "chain_responses (fold (\<lambda>i chain. case m i of Some r \<Rightarrow> add_response chain r | None \<Rightarrow> chain) ids c) =
    chain_responses c @ List.map_filter m ids"
  by (induction ids arbitrary: c) (auto simp: add_response_def List.map_filter_def split: option.split)

text \<open>A list of stored responses, newest first, in which each continues the next one.\<close>

fun linked :: "(str \<rightharpoonup> 'j stored_response) \<Rightarrow> str option \<Rightarrow> 'j stored_response list \<Rightarrow> bool" where
  "linked m prev [] \<longleftrightarrow> True"
| "linked m prev (r # rs) \<longleftrightarrow> (\<exists>i. prev = Some i \<and> m i = Some r) \<and> linked m (previous_response_id r) rs"

lemma chain_ids_linked:
  "\<exists>rs. map Some rs = map m (chain_ids m cur n) \<and> linked m cur rs \<and> length rs \<le> n \<and>
    (length rs < n \<longrightarrow> (case (if rs = [] then cur else previous_response_id (last rs)) of
        Some i \<Rightarrow> m i = None | None \<Rightarrow> True))"
proof (induction m cur n rule: chain_ids.induct)
  case (3 m i n)
  show ?case
  proof (cases "m i")
    case (Some r)
    from 3 [OF Some] obtain rs where rs: "map Some rs = map m (chain_ids m (previous_response_id r) n)"
      "linked m (previous_response_id r) rs" "length rs \<le> n"
      "length rs < n \<longrightarrow> (case (if rs = [] then previous_response_id r else previous_response_id (last rs)) of
        Some i \<Rightarrow> m i = None | None \<Rightarrow> True)" by blast
    then show ?thesis using Some by (cases "rs = []") (auto intro!: exI [of _ "r # rs"])
  qed (auto intro!: exI [of _ "[]"])
qed auto

lemma map_filter_Some: "map Some rs = map m ids \<Longrightarrow> List.map_filter m ids = rs"
  by (induction ids arbitrary: rs) (auto simp: List.map_filter_def)

lemma chain_of_store:
  "\<exists>rs. chain_responses (get_response_chain s i limit) = rev rs \<and> linked (responses s) (Some i) rs \<and>
    length rs \<le> (case limit of Some d \<Rightarrow> d | None \<Rightarrow> 100) \<and>
    (length rs < (case limit of Some d \<Rightarrow> d | None \<Rightarrow> 100) \<longrightarrow>
       (case (if rs = [] then Some i else previous_response_id (last rs)) of
          Some j \<Rightarrow> responses s j = None | None \<Rightarrow> True))"
proof -
  let ?n = "case limit of Some d \<Rightarrow> d | None \<Rightarrow> 100"
  let ?ids = "chain_ids (responses s) (Some i) ?n"
  obtain rs where rs: "map Some rs = map (responses s) ?ids" "linked (responses s) (Some i) rs" "length rs \<le> ?n"
      "length rs < ?n \<longrightarrow> (case (if rs = [] then Some i else previous_response_id (last rs)) of
          Some j \<Rightarrow> responses s j = None | None \<Rightarrow> True)"
    using chain_ids_linked [of "responses s" "Some i" ?n] by blast
  have "map Some (rev rs) = map (responses s) (rev ?ids)" using rs(1) by (metis rev_map)
  then have "chain_responses (get_response_chain s i limit) = rev rs"
    by (simp add: get_response_chain_def Let_def chain_fold map_filter_Some chain_new_def)
  then show ?thesis using rs by blast
qed

section \<open>The interface of the stores\<close>

locale response_storage =
  fixes st_get :: "'s \<Rightarrow> str \<Rightarrow> 'j stored_response option"
    and st_delete :: "'s \<Rightarrow> str \<Rightarrow> 's"
    and st_chain :: "'s \<Rightarrow> str \<Rightarrow> nat option \<Rightarrow> 'j response_chain"
  assumes get_deleted: "st_get (st_delete s i) i = None"
    and get_other: "i \<noteq> j \<Longrightarrow> st_get (st_delete s i) j = st_get s j"
    and chain_bound: "length (chain_responses (st_chain s i (Some d))) \<le> d"
    and chain_missing: "st_get s i = None \<Longrightarrow> chain_responses (st_chain s i limit) = []"
    and chain_latest: "chain_responses (st_chain s i limit) \<noteq> [] \<Longrightarrow>
      st_get s i = Some (last (chain_responses (st_chain s i limit)))"
begin

lemma deleted_chain_empty: "chain_responses (st_chain (st_delete s i) i limit) = []"
  by (rule chain_missing [OF get_deleted])

lemma context_bound: "length (build_context (st_chain s i (Some d)) m) \<le> d"
  using chain_bound [of s i d] by (auto simp: build_context_def Let_def split: option.split)

end

lemma memory_chain_latest:
  assumes "chain_responses (get_response_chain s i limit) \<noteq> []"
  shows "responses s i = Some (last (chain_responses (get_response_chain s i limit)))"
proof -
  from chain_of_store [of s i limit] obtain rs where
    rs: "chain_responses (get_response_chain s i limit) = rev rs" "linked (responses s) (Some i) rs" by blast
  then show ?thesis using assms by (cases rs) (auto simp: last_rev)
qed

interpretation memory: response_storage get_response delete_response get_response_chain
proof
  fix s :: "'j inner_store" and i j :: str and d :: nat and limit
  show "get_response (delete_response s i) i = None" by (simp add: get_response_def)
  show "get_response (delete_response s i) j = get_response s j" if "i \<noteq> j" using that by (simp add: get_response_def)
  show "length (chain_responses (get_response_chain s i (Some d))) \<le> d"
    using chain_of_store [of s i "Some d"] by auto
  show "chain_responses (get_response_chain s i limit) = []" if "get_response s i = None"
    using that memory_chain_latest [of s i limit] by (auto simp: get_response_def)
  show "get_response s i = Some (last (chain_responses (get_response_chain s i limit)))"
    if "chain_responses (get_response_chain s i limit) \<noteq> []"
    using memory_chain_latest [OF that] by (simp add: get_response_def)
qed

interpretation noop: response_storage noop_get_response noop_delete_response noop_get_response_chain
  by unfold_locales (simp_all add: noop_get_response_def noop_get_response_chain_def chain_new_def)

section \<open>Properties\<close>

text \<open>C32: The index by user is exact.  In every run that stores no response under an
  identifier in use, listing a user returns each of the user's stored responses once, newest
  first, a limit cuts that list, and deleting a user's responses removes exactly these, keeps
  every other response and returns their number.\<close>

theorem user_index_exact:
  assumes "fresh_run ps store_new" and "s = fold store_step ps store_new"
  shows "distinct (list_user_responses s u None) \<and>
    set (list_user_responses s u None) = {r. \<exists>i. get_response s i = Some r \<and> ruser r = Some u} \<and>
    sorted_wrt (\<lambda>r q. created_at q \<le> created_at r) (list_user_responses s u None) \<and>
    list_user_responses s u (Some l) = take l (list_user_responses s u None) \<and>
    fst (delete_user_responses s u) = length (list_user_responses s u None) \<and>
    get_response (snd (delete_user_responses s u)) i =
      (case get_response s i of Some r \<Rightarrow> if ruser r = Some u then None else Some r | None \<Rightarrow> None)"
proof -
  have inv: "store_inv s" using store_run_inv [OF store_new_inv assms(1)] assms(2) by simp
  have "length (list_user_responses s u None) = card (owned s u)"
  proof (cases "user_index s u")
    case None
    then show ?thesis using store_inv_index(2) [OF inv None] by (simp add: list_user_responses_def)
  next
    case (Some ids)
    then show ?thesis using list_user_eq [OF Some index_stored [OF inv Some], of None] store_inv_index(1) [OF inv Some]
        distinct_card [of ids] by simp
  qed
  moreover have "get_response (snd (delete_user_responses s u)) i =
      (case get_response s i of Some r \<Rightarrow> if ruser r = Some u then None else Some r | None \<Rightarrow> None)"
    unfolding delete_user_eq [OF inv] by (auto simp: get_response_def owned_def split: option.split)
  ultimately show ?thesis
    using list_all_exact [OF inv, of u] list_limit [OF inv, of u l] delete_user_eq [OF inv, of u]
    by (simp add: get_response_def)
qed

definition sample_response :: "str \<Rightarrow> int \<Rightarrow> str \<Rightarrow> unit stored_response" where
  "sample_response i t u = (stored_response_new i t ''q'' ''a'' None)\<lparr>ruser := Some u\<rparr>"

theorem user_index_exact_witness:
  "\<exists>ps s. fresh_run ps store_new \<and> s = fold store_step ps (store_new :: unit inner_store) \<and>
     get_response s ''r1'' \<noteq> None \<and> fst (delete_user_responses s ''bob'') = length (list_user_responses s ''bob'' None)"
proof -
  let ?ps = "[Store (sample_response ''r1'' 5 ''bob'') ''x'', Store (sample_response ''r2'' 7 ''eve'') ''y'']"
  have f: "fresh_run ?ps store_new"
    by (simp add: stored_id_def sample_response_def stored_response_new_def store_new_def store_response_def Let_def)
  have "get_response (fold store_step ?ps store_new) ''r1'' \<noteq> None"
    by (simp add: get_response_def sample_response_def stored_response_new_def store_new_def store_response_def Let_def)
  then show ?thesis using f user_index_exact [OF f refl] by blast
qed



text \<open>Error: reusing an identifier leaks across users.  When a response is stored under an
  identifier that another user's response has, the first user's listing returns the second
  user's response, and deleting the first user's responses deletes it.\<close>

theorem reused_id_leaks:
  assumes "rid r \<noteq> []" and "rid q = rid r" and "ruser r = Some u" and "ruser q = Some v" and "u \<noteq> v"
    and "s' = snd (store_response b (snd (store_response a s r)) q)"
  shows "q \<in> set (list_user_responses s' u None) \<and> get_response s' (rid q) = Some q \<and>
    get_response (snd (delete_user_responses s' u)) (rid q) = None"
proof -
  let ?ids = "(case user_index s u of Some ids \<Rightarrow> ids | None \<Rightarrow> []) @ [rid r]"
  have idx: "user_index s' u = Some ?ids" and q: "responses s' (rid q) = Some q"
    using assms by (auto simp: store_response_def Let_def split: option.split)
  have "rid q \<in> set ?ids" using assms(2) by simp
  then have "get_response (snd (delete_user_responses s' u)) (rid q) = None"
    using idx assms(2) by (simp add: delete_user_responses_def get_response_def fold_remove)
  moreover have "q \<in> set (list_user_responses s' u None)"
    using idx q assms(2)
    by (auto simp: list_user_responses_def Let_def List.map_filter_def image_iff intro!: exI [of _ "created_at q"] exI [of _ "rid r"])
  ultimately show ?thesis using q by (simp add: get_response_def)
qed

theorem reused_id_leaks_witness:
  "\<exists>s' :: unit inner_store. sample_response ''r1'' 7 ''eve'' \<in> set (list_user_responses s' ''bob'' None)"
  using reused_id_leaks [of "sample_response ''r1'' 5 ''bob''" "sample_response ''r1'' 7 ''eve''" "''bob''" "''eve''"
      "snd (store_response ''b'' (snd (store_response ''a'' store_new (sample_response ''r1'' 5 ''bob''))) (sample_response ''r1'' 7 ''eve''))"
      "''b''" "''a''" store_new]
  by (auto simp: sample_response_def stored_response_new_def)

end
