(* ===== verification/Program_Runtime.thy ===== *)
theory Program_Runtime
  imports Rust_Str "HOL-Library.Multiset"
begin

text \<open>
  The runtime of program scheduling: the values of \<^verbatim>\<open>program_scheduling/domain.rs\<close>, the
  retained requests of \<^verbatim>\<open>request_pool.rs\<close> and the lifecycle of \<^verbatim>\<open>runtime.rs\<close>.  A program
  (an agent's sequence of model requests) is paused or active on a target; its requests wait
  in a queue of their own, are admitted from its front, and their completions are accepted
  only for the generation and the placement they were admitted to.

  Every operation runs under the scheduler's one lock and is a function on the runtime.
  Counters that the code saturates are naturals with the saturation written out; the
  notifier of a request is the flag whether it was notified.

  The lifecycle of a run is an inductive relation on the runtime and the dispatches that are
  still outstanding.  Its invariant relates the counter of requests in flight to these
  dispatches: stale completions change nothing and current ones are never refused.
\<close>

section \<open>Values\<close>

datatype program_state = Active | Paused

datatype program_status = Reasoning | Acting

record program_ref =
  model_pool :: str
  program_id :: str
  generation :: nat

record program_request_hints =
  hint_request_id :: "str option"
  priority :: int
  deadline :: "duration option"
  expected_output_tokens :: "nat option"
  kv_retention_ttl :: "duration option"

record program_identity =
  id_model_pool :: str
  id_program_id :: str
  placement_hash_key :: str
  placement_key :: str
  expected_resume :: bool
  task_id :: "str option"
  session_id :: "str option"
  agent_id :: "str option"
  parent_program_id :: "str option"
  root_program_id :: "str option"
  blocks_parent :: bool
  agent_role :: "str option"
  spawn_reason :: "str option"
  step_id :: "nat option"
  request_hints :: program_request_hints

record program_dispatch =
  d_program :: program_ref
  d_target_id :: str
  d_placement_epoch :: nat
  d_request_arrived_at :: instant
  d_dispatched_at :: instant
  d_estimated_context_tokens :: nat
  d_placement_start_request :: bool
  d_routing_text :: "str option"
  d_request_hints :: program_request_hints

record program_usage_observation =
  prompt_tokens :: "nat option"
  completion_tokens :: "nat option"
  cached_prompt_tokens :: "nat option"

text \<open>\<^verbatim>\<open>Option::max\<close>, in which nothing is below every value.\<close>

definition max_option :: "nat option \<Rightarrow> nat option \<Rightarrow> nat option" where
  "max_option a b = (case (a, b) of (None, _) \<Rightarrow> b | (_, None) \<Rightarrow> a | (Some x, Some y) \<Rightarrow> Some (max x y))"

definition usage_merge :: "program_usage_observation \<Rightarrow> program_usage_observation \<Rightarrow> program_usage_observation" where
  "usage_merge u v = \<lparr>prompt_tokens = max_option (prompt_tokens u) (prompt_tokens v),
     completion_tokens = max_option (completion_tokens u) (completion_tokens v),
     cached_prompt_tokens = max_option (cached_prompt_tokens u) (cached_prompt_tokens v)\<rparr>"

definition saturating_inc :: "nat \<Rightarrow> nat" where
  "saturating_inc n = (if n < 2 ^ 64 - 1 then Suc n else 2 ^ 64 - 1)"

section \<open>Retained requests\<close>

record program_request_handle =
  h_program :: program_ref
  h_request_id :: nat

record pending_request =
  pr_id :: nat
  pr_arrived_at :: instant
  pr_estimated_context_tokens :: nat
  pr_routing_text :: "str option"
  pr_hints :: program_request_hints
  pr_notified :: bool

record request_pool =
  requests :: "program_ref \<rightharpoonup> pending_request list"
  next_request_id :: nat
  retained_request_count :: nat

definition empty_pool :: request_pool where
  "empty_pool = \<lparr>requests = Map.empty, next_request_id = 0, retained_request_count = 0\<rparr>"

text \<open>The queue of a program; an absent queue has no requests.\<close>

definition queue_of :: "request_pool \<Rightarrow> program_ref \<Rightarrow> pending_request list" where
  "queue_of pool p = (case requests pool p of Some q \<Rightarrow> q | None \<Rightarrow> [])"

definition pool_retain :: "request_pool \<Rightarrow> program_ref \<Rightarrow> instant \<Rightarrow> nat \<Rightarrow> str option \<Rightarrow> program_request_hints \<Rightarrow>
    program_request_handle \<times> request_pool" where
  "pool_retain pool p arrived_at tokens routing_text hints =
     (let request_id = (next_request_id pool + 1) mod 2 ^ 64;
          request = \<lparr>pr_id = request_id, pr_arrived_at = arrived_at, pr_estimated_context_tokens = tokens,
                     pr_routing_text = routing_text, pr_hints = hints, pr_notified = False\<rparr>
      in (\<lparr>h_program = p, h_request_id = request_id\<rparr>,
          \<lparr>requests = (requests pool)(p \<mapsto> queue_of pool p @ [request]), next_request_id = request_id,
           retained_request_count = saturating_inc (retained_request_count pool)\<rparr>))"

definition put_queue :: "request_pool \<Rightarrow> program_ref \<Rightarrow> pending_request list \<Rightarrow> request_pool" where
  "put_queue pool p q = pool\<lparr>requests := (requests pool)(p := (if q = [] then None else Some q)),
     retained_request_count := retained_request_count pool - 1\<rparr>"

definition take_front :: "request_pool \<Rightarrow> program_request_handle \<Rightarrow> (pending_request \<times> request_pool) option" where
  "take_front pool h =
     (case requests pool (h_program h) of
        None \<Rightarrow> None
      | Some [] \<Rightarrow> None
      | Some (r # q) \<Rightarrow> if pr_id r \<noteq> h_request_id h then None else Some (r, put_queue pool (h_program h) q))"

definition pool_cancel :: "request_pool \<Rightarrow> program_request_handle \<Rightarrow> (bool \<times> request_pool) option" where
  "pool_cancel pool h =
     (case requests pool (h_program h) of
        None \<Rightarrow> None
      | Some q \<Rightarrow>
          (case position (\<lambda>r. pr_id r = h_request_id h) q of
             None \<Rightarrow> None
           | Some i \<Rightarrow> Some (i = 0, put_queue pool (h_program h) (take i q @ drop (Suc i) q))))"

definition notify_front :: "request_pool \<Rightarrow> program_ref \<Rightarrow> request_pool" where
  "notify_front pool p =
     (case requests pool p of
        Some (r # q) \<Rightarrow> pool\<lparr>requests := (requests pool)(p \<mapsto> r\<lparr>pr_notified := True\<rparr> # q)\<rparr>
      | _ \<Rightarrow> pool)"

definition program_len :: "request_pool \<Rightarrow> program_ref \<Rightarrow> nat" where
  "program_len pool p = (case requests pool p of Some q \<Rightarrow> length q | None \<Rightarrow> 0)"

definition front_hints :: "request_pool \<Rightarrow> program_ref \<Rightarrow> program_request_hints option" where
  "front_hints pool p = (case requests pool p of Some (r # q) \<Rightarrow> Some (pr_hints r) | _ \<Rightarrow> None)"

section \<open>Runtime\<close>

type_synonym runtime_key = "str \<times> str"

definition key_of_identity :: "program_identity \<Rightarrow> runtime_key" where
  "key_of_identity i = (id_model_pool i, id_program_id i)"

definition key_of_ref :: "program_ref \<Rightarrow> runtime_key" where
  "key_of_ref r = (model_pool r, program_id r)"

record runtime_program =
  reference :: program_ref
  rp_state :: program_state
  rp_status :: program_status
  rp_expected_resume :: bool
  placement :: "str option"
  placement_epoch :: nat
  placement_start_request_pending :: bool
  estimated_context_tokens :: nat
  in_flight_requests :: nat

record program_runtime =
  programs :: "runtime_key \<rightharpoonup> runtime_program"
  last_generations :: "runtime_key \<rightharpoonup> nat"
  released_generations_at :: "runtime_key \<rightharpoonup> instant"
  request_pool :: request_pool
  next_placement_epoch :: nat

definition empty_runtime :: program_runtime where
  "empty_runtime = \<lparr>programs = Map.empty, last_generations = Map.empty, released_generations_at = Map.empty,
     request_pool = empty_pool, next_placement_epoch = 0\<rparr>"

definition retain_request :: "program_runtime \<Rightarrow> program_identity \<Rightarrow> nat \<Rightarrow> str option \<Rightarrow> instant \<Rightarrow>
    program_request_handle \<times> program_runtime" where
  "retain_request rt identity tokens routing_text arrived_at =
     (let key = key_of_identity identity;
          rt1 = rt\<lparr>released_generations_at := (released_generations_at rt)(key := None)\<rparr>;
          (program_ref, rt2) =
            (case programs rt1 key of
               Some program \<Rightarrow>
                 (reference program,
                  rt1\<lparr>programs := (programs rt1)(key \<mapsto> program\<lparr>rp_expected_resume := expected_resume identity,
                       estimated_context_tokens := max (estimated_context_tokens program) tokens\<rparr>)\<rparr>)
             | None \<Rightarrow>
                 let generation = (case last_generations rt1 key of None \<Rightarrow> 0 | Some g \<Rightarrow> saturating_inc g);
                     ref = \<lparr>model_pool = id_model_pool identity, program_id = id_program_id identity, generation = generation\<rparr>
                 in (ref, rt1\<lparr>last_generations := (last_generations rt1)(key \<mapsto> generation),
                       programs := (programs rt1)(key \<mapsto>
                         \<lparr>reference = ref, rp_state = Paused, rp_status = Reasoning,
                          rp_expected_resume = expected_resume identity, placement = None, placement_epoch = 0,
                          placement_start_request_pending = False, estimated_context_tokens = tokens,
                          in_flight_requests = 0\<rparr>)\<rparr>));
          rt3 = (case programs rt2 key of
                   Some program \<Rightarrow> rt2\<lparr>programs := (programs rt2)(key \<mapsto> program\<lparr>rp_status := Reasoning\<rparr>)\<rparr>
                 | None \<Rightarrow> rt2);
          (handle, pool) = pool_retain (request_pool rt3) program_ref arrived_at tokens routing_text (request_hints identity)
      in (handle, rt3\<lparr>request_pool := pool\<rparr>))"

text \<open>
  Admission.  The program becomes active, and its pending start flag is cleared, before the
  front request is taken; when the handle does not name the front request these changes stay.
\<close>

definition admit_front :: "program_runtime \<Rightarrow> program_request_handle \<Rightarrow> str \<Rightarrow> instant \<Rightarrow>
    program_dispatch option \<times> program_runtime" where
  "admit_front rt h target_id dispatched_at =
     (let key = key_of_ref (h_program h) in
      case programs rt key of
        None \<Rightarrow> (None, rt)
      | Some program \<Rightarrow>
          if reference program \<noteq> h_program h then (None, rt)
          else if rp_state program = Active \<and> placement program \<noteq> Some target_id then (None, rt)
          else
            let (starts_placement, program1, rt1) =
                  (case rp_state program of
                     Paused \<Rightarrow>
                       let epoch = saturating_inc (next_placement_epoch rt)
                       in (True, program\<lparr>rp_state := Active, placement := Some target_id, placement_epoch := epoch\<rparr>,
                           rt\<lparr>next_placement_epoch := epoch\<rparr>)
                   | Active \<Rightarrow> (placement_start_request_pending program, program, rt));
                program2 = program1\<lparr>placement_start_request_pending := False\<rparr>
            in case take_front (request_pool rt1) h of
                 None \<Rightarrow> (None, rt1\<lparr>programs := (programs rt1)(key \<mapsto> program2)\<rparr>)
               | Some (request, pool) \<Rightarrow>
                   let program3 = program2\<lparr>rp_status := Reasoning,
                         in_flight_requests := saturating_inc (in_flight_requests program2)\<rparr>
                   in (Some \<lparr>d_program = reference program3, d_target_id = target_id,
                         d_placement_epoch = placement_epoch program3, d_request_arrived_at = pr_arrived_at request,
                         d_dispatched_at = dispatched_at,
                         d_estimated_context_tokens = pr_estimated_context_tokens request,
                         d_placement_start_request = starts_placement, d_routing_text = pr_routing_text request,
                         d_request_hints = pr_hints request\<rparr>,
                       rt1\<lparr>programs := (programs rt1)(key \<mapsto> program3),
                           request_pool := notify_front pool (reference program3)\<rparr>))"

definition complete_request :: "program_runtime \<Rightarrow> program_dispatch \<Rightarrow> program_usage_observation \<Rightarrow> bool \<times> program_runtime" where
  "complete_request rt d usage =
     (let key = key_of_ref (d_program d) in
      case programs rt key of
        None \<Rightarrow> (False, rt)
      | Some program \<Rightarrow>
          if reference program \<noteq> d_program d \<or> placement_epoch program \<noteq> d_placement_epoch d \<or>
             in_flight_requests program = 0
          then (False, rt)
          else
            let tokens = (case prompt_tokens usage of Some t \<Rightarrow> t | None \<Rightarrow> d_estimated_context_tokens d);
                program1 = program\<lparr>estimated_context_tokens := max (estimated_context_tokens program) tokens,
                  in_flight_requests := in_flight_requests program - 1\<rparr>;
                program2 = (if in_flight_requests program1 = 0 \<and> program_len (request_pool rt) (reference program1) = 0
                            then program1\<lparr>rp_status := Acting\<rparr> else program1)
            in (True, rt\<lparr>programs := (programs rt)(key \<mapsto> program2)\<rparr>))"

definition cancel_request :: "program_runtime \<Rightarrow> program_request_handle \<Rightarrow> bool \<times> program_runtime" where
  "cancel_request rt h =
     (case pool_cancel (request_pool rt) h of
        None \<Rightarrow> (False, rt)
      | Some (was_front, pool) \<Rightarrow>
          let pool1 = (if was_front then notify_front pool (h_program h) else pool);
              rt1 = rt\<lparr>request_pool := pool1\<rparr>;
              key = key_of_ref (h_program h)
          in (True,
              case programs rt1 key of
                None \<Rightarrow> rt1
              | Some program \<Rightarrow>
                  if reference program = h_program h \<and> in_flight_requests program = 0 \<and>
                     program_len (request_pool rt1) (reference program) = 0
                  then
                    let program1 = program\<lparr>rp_status := Acting\<rparr>;
                        program2 = (if rp_state program1 = Active
                                    then program1\<lparr>rp_state := Paused, placement := None\<rparr> else program1)
                    in rt1\<lparr>programs := (programs rt1)(key \<mapsto> program2)\<rparr>
                  else rt1))"

definition pause_idle :: "program_runtime \<Rightarrow> program_ref \<Rightarrow> bool \<times> program_runtime" where
  "pause_idle rt p =
     (case programs rt (key_of_ref p) of
        None \<Rightarrow> (False, rt)
      | Some program \<Rightarrow>
          if reference program \<noteq> p \<or> rp_state program \<noteq> Active \<or> in_flight_requests program \<noteq> 0 then (False, rt)
          else (True, rt\<lparr>programs := (programs rt)(key_of_ref p \<mapsto> program\<lparr>rp_state := Paused, placement := None\<rparr>)\<rparr>))"

definition activate :: "program_runtime \<Rightarrow> program_ref \<Rightarrow> str \<Rightarrow> bool \<times> program_runtime" where
  "activate rt p target_id =
     (case programs rt (key_of_ref p) of
        None \<Rightarrow> (False, rt)
      | Some program \<Rightarrow>
          if reference program \<noteq> p \<or> rp_state program \<noteq> Paused \<or> program_len (request_pool rt) p = 0 then (False, rt)
          else
            let epoch = saturating_inc (next_placement_epoch rt)
            in (True, rt\<lparr>next_placement_epoch := epoch,
                 programs := (programs rt)(key_of_ref p \<mapsto> program\<lparr>rp_state := Active, rp_status := Reasoning,
                   placement := Some target_id, placement_epoch := epoch, placement_start_request_pending := True\<rparr>)\<rparr>))"

definition release_idle :: "program_runtime \<Rightarrow> program_ref \<Rightarrow> instant \<Rightarrow> bool \<times> program_runtime" where
  "release_idle rt p now =
     (case programs rt (key_of_ref p) of
        None \<Rightarrow> (False, rt)
      | Some program \<Rightarrow>
          if reference program = p \<and> in_flight_requests program = 0 \<and> program_len (request_pool rt) p = 0
          then (True, rt\<lparr>programs := (programs rt)(key_of_ref p := None),
                 last_generations := (last_generations rt)(key_of_ref p \<mapsto> generation (reference program)),
                 released_generations_at := (released_generations_at rt)(key_of_ref p \<mapsto> now)\<rparr>)
          else (False, rt))"

definition expired_generation :: "program_runtime \<Rightarrow> instant \<Rightarrow> duration \<Rightarrow> runtime_key \<Rightarrow> bool" where
  "expired_generation rt now retention key =
     (case released_generations_at rt key of
        Some released_at \<Rightarrow> programs rt key = None \<and> retention \<le> now - released_at
      | None \<Rightarrow> False)"

definition prune_released_generations :: "program_runtime \<Rightarrow> instant \<Rightarrow> duration \<Rightarrow> program_runtime" where
  "prune_released_generations rt now retention =
     rt\<lparr>released_generations_at := (\<lambda>key. if expired_generation rt now retention key then None else released_generations_at rt key),
        last_generations := (\<lambda>key. if expired_generation rt now retention key then None else last_generations rt key)\<rparr>"

definition invalidate_placement :: "program_runtime \<Rightarrow> program_ref \<Rightarrow> str list \<Rightarrow> bool \<times> program_runtime" where
  "invalidate_placement rt p removed_targets =
     (case programs rt (key_of_ref p) of
        None \<Rightarrow> (False, rt)
      | Some program \<Rightarrow>
          if reference program \<noteq> p \<or> (case placement program of None \<Rightarrow> True | Some t \<Rightarrow> t \<notin> set removed_targets)
          then (False, rt)
          else
            let epoch = saturating_inc (next_placement_epoch rt)
            in (True, rt\<lparr>next_placement_epoch := epoch,
                 programs := (programs rt)(key_of_ref p \<mapsto> program\<lparr>rp_state := Paused, placement := None,
                   placement_epoch := epoch, placement_start_request_pending := False, in_flight_requests := 0\<rparr>)\<rparr>))"

record runtime_program_view =
  v_state :: program_state
  v_status :: program_status
  v_placement :: "str option"
  v_in_flight_requests :: nat
  v_waiting_requests :: nat

definition view :: "program_runtime \<Rightarrow> program_ref \<Rightarrow> runtime_program_view option" where
  "view rt p =
     (case programs rt (key_of_ref p) of
        Some program \<Rightarrow>
          if reference program = p
          then Some \<lparr>v_state = rp_state program, v_status = rp_status program, v_placement = placement program,
                     v_in_flight_requests = in_flight_requests program,
                     v_waiting_requests = program_len (request_pool rt) (reference program)\<rparr>
          else None
      | None \<Rightarrow> None)"

definition runtime_placement :: "program_runtime \<Rightarrow> program_ref \<Rightarrow> str option" where
  "runtime_placement rt p =
     (case programs rt (key_of_ref p) of
        Some program \<Rightarrow> if reference program = p then placement program else None
      | None \<Rightarrow> None)"

definition front_request_hints :: "program_runtime \<Rightarrow> program_ref \<Rightarrow> program_request_hints option" where
  "front_request_hints rt p = front_hints (request_pool rt) p"

definition notify_program :: "program_runtime \<Rightarrow> program_ref \<Rightarrow> program_runtime" where
  "notify_program rt p = rt\<lparr>request_pool := notify_front (request_pool rt) p\<rparr>"

section \<open>Queues\<close>

definition pool_total :: "request_pool \<Rightarrow> nat" where
  "pool_total pool = (\<Sum>p\<in>dom (requests pool). length (queue_of pool p))"

definition pool_ok :: "request_pool \<Rightarrow> bool" where
  "pool_ok pool \<longleftrightarrow> finite (dom (requests pool)) \<and> retained_request_count pool = pool_total pool \<and>
     (\<forall>p. requests pool p \<noteq> Some [] \<and> sorted_wrt (<) (map pr_id (queue_of pool p)) \<and>
          (\<forall>i\<in>set (map pr_id (queue_of pool p)). i \<le> next_request_id pool))"

lemma pool_okD:
  assumes "pool_ok pool"
  shows "finite (dom (requests pool))" "retained_request_count pool = pool_total pool"
    "requests pool p = Some q \<Longrightarrow> q \<noteq> []" "sorted_wrt (<) (map pr_id (queue_of pool p))"
    "r \<in> set (queue_of pool p) \<Longrightarrow> pr_id r \<le> next_request_id pool"
  using assms unfolding pool_ok_def by auto

lemma program_len_queue: "program_len pool p = length (queue_of pool p)"
  by (simp add: program_len_def queue_of_def split: option.split)

lemma pool_total_split:
  assumes "finite (dom (requests pool))"
  shows "pool_total pool = length (queue_of pool p) + (\<Sum>r\<in>dom (requests pool) - {p}. length (queue_of pool r))"
proof (cases "p \<in> dom (requests pool)")
  case True
  then show ?thesis using assms by (simp add: pool_total_def sum.remove)
next
  case False
  then have "queue_of pool p = []" by (simp add: queue_of_def domIff)
  then show ?thesis using False by (simp add: pool_total_def)
qed

text \<open>Replacing one queue.\<close>

lemma pool_total_upd:
  assumes "finite (dom (requests pool))" and "requests pool' = (requests pool)(p := (if q = [] then None else Some q))"
  shows "pool_total pool' + length (queue_of pool p) = pool_total pool + length q"
proof -
  have "finite (dom (requests pool'))" using assms by simp
  moreover have "queue_of pool' p = q" using assms(2) by (simp add: queue_of_def)
  moreover have "(\<Sum>r\<in>dom (requests pool') - {p}. length (queue_of pool' r)) = (\<Sum>r\<in>dom (requests pool) - {p}. length (queue_of pool r))"
    using assms(2) by (intro sum.cong) (auto simp: queue_of_def split: if_splits)
  ultimately show ?thesis using pool_total_split [OF assms(1), of p] pool_total_split [of pool' p] by simp
qed

lemma queue_put [simp]: "queue_of (put_queue pool p q) r = (if r = p then q else queue_of pool r)"
  by (simp add: queue_of_def put_queue_def)

lemma put_queue_ok:
  assumes ok: "pool_ok pool" and Q: "queue_of pool p = l @ x # r"
  shows "pool_ok (put_queue pool p (l @ r))"
proof -
  let ?pool = "put_queue pool p (l @ r)"
  have "pool_total ?pool + length (queue_of pool p) = pool_total pool + length (l @ r)"
    by (rule pool_total_upd [OF pool_okD(1) [OF ok]]) (simp add: put_queue_def)
  then have "retained_request_count ?pool = pool_total ?pool"
    using Q pool_okD(2) [OF ok] by (simp add: put_queue_def)
  moreover have "sorted_wrt (<) (map pr_id (l @ r))"
    using pool_okD(4) [OF ok, of p] Q by (simp add: sorted_wrt_append)
  moreover have "\<forall>x\<in>set (l @ r). pr_id x \<le> next_request_id pool"
    using pool_okD(5) [OF ok, of _ p] Q by auto
  moreover have "requests ?pool r \<noteq> Some []" "finite (dom (requests ?pool))" "next_request_id ?pool = next_request_id pool" for r
    using ok by (auto simp: put_queue_def pool_ok_def)
  ultimately show ?thesis using ok unfolding pool_ok_def by simp
qed

lemma put_queue_total:
  assumes "pool_ok pool" "pool_ok (put_queue pool p q)"
  shows "pool_total (put_queue pool p q) \<le> pool_total pool"
  using pool_okD(2) [OF assms(1)] pool_okD(2) [OF assms(2)] by (simp add: put_queue_def)

lemma take_front_ok:
  assumes ok: "pool_ok pool" and t: "take_front pool h = Some (r, pool')"
  shows "pool_ok pool' \<and> queue_of pool (h_program h) = r # queue_of pool' (h_program h) \<and> pr_id r = h_request_id h \<and>
    next_request_id pool' = next_request_id pool \<and> pool_total pool' \<le> pool_total pool \<and>
    (\<forall>p. p \<noteq> h_program h \<longrightarrow> requests pool' p = requests pool p)"
proof -
  obtain q where q: "requests pool (h_program h) = Some (r # q)" "pr_id r = h_request_id h"
    and pool': "pool' = put_queue pool (h_program h) q"
    using t by (auto simp: take_front_def split: option.splits list.splits if_splits)
  have Q: "queue_of pool (h_program h) = [] @ r # q" using q(1) by (simp add: queue_of_def)
  from put_queue_ok [OF ok Q] put_queue_total [OF ok put_queue_ok [OF ok Q]] show ?thesis
    using q(2) pool' Q by (simp add: put_queue_def queue_of_def)
qed

lemma pool_cancel_ok:
  assumes ok: "pool_ok pool" and t: "pool_cancel pool h = Some (was_front, pool')"
  shows "pool_ok pool' \<and>
    (\<exists>l r q. queue_of pool (h_program h) = l @ r # q \<and> queue_of pool' (h_program h) = l @ q \<and>
       pr_id r = h_request_id h \<and> (was_front \<longleftrightarrow> l = [])) \<and>
    next_request_id pool' = next_request_id pool \<and> pool_total pool' \<le> pool_total pool \<and>
    (\<forall>p. p \<noteq> h_program h \<longrightarrow> requests pool' p = requests pool p)"
proof -
  obtain q i where q: "requests pool (h_program h) = Some q" "position (\<lambda>r. pr_id r = h_request_id h) q = Some i"
    and pool': "was_front = (i = 0)" "pool' = put_queue pool (h_program h) (take i q @ drop (Suc i) q)"
    using t by (auto simp: pool_cancel_def split: option.splits)
  from position_SomeD [OF q(2)] have i: "i < length q" "pr_id (q ! i) = h_request_id h" by auto
  have Q: "queue_of pool (h_program h) = take i q @ q ! i # drop (Suc i) q"
    using q(1) id_take_nth_drop [OF i(1)] by (simp add: queue_of_def)
  have "\<exists>l r q. queue_of pool (h_program h) = l @ r # q \<and> queue_of pool' (h_program h) = l @ q \<and>
       pr_id r = h_request_id h \<and> (was_front \<longleftrightarrow> l = [])"
    using Q i pool' by (intro exI [of _ "take i q"] exI [of _ "q ! i"] exI [of _ "drop (Suc i) q"]) auto
  moreover have "next_request_id pool' = next_request_id pool" "\<forall>p. p \<noteq> h_program h \<longrightarrow> requests pool' p = requests pool p"
    using pool'(2) by (simp_all add: put_queue_def)
  ultimately show ?thesis using put_queue_ok [OF ok Q] put_queue_total [OF ok put_queue_ok [OF ok Q]] pool'(2) by simp
qed

lemma queue_notify: "queue_of (notify_front pool p) r =
    (if r = p then (case queue_of pool p of x # q \<Rightarrow> x\<lparr>pr_notified := True\<rparr> # q | [] \<Rightarrow> []) else queue_of pool r)"
  by (simp add: queue_of_def notify_front_def split: option.split list.split)

lemma dom_notify: "dom (requests (notify_front pool p)) = dom (requests pool)"
  by (auto simp: notify_front_def split: option.splits list.splits)

lemma length_queue_notify [simp]: "length (queue_of (notify_front pool p) r) = length (queue_of pool r)"
  by (simp add: queue_notify split: list.split)

lemma notify_front_same [simp]:
  "next_request_id (notify_front pool p) = next_request_id pool"
  "retained_request_count (notify_front pool p) = retained_request_count pool"
  "r \<noteq> p \<Longrightarrow> requests (notify_front pool p) r = requests pool r"
  by (simp_all add: notify_front_def split: option.split list.split)

lemma ids_queue_notify [simp]: "map pr_id (queue_of (notify_front pool p) r) = map pr_id (queue_of pool r)"
  by (simp add: queue_notify split: list.split)

lemma pool_total_notify [simp]: "pool_total (notify_front pool p) = pool_total pool"
  by (simp add: pool_total_def dom_notify)

lemma notify_front_ok: "pool_ok pool \<Longrightarrow> pool_ok (notify_front pool p)"
proof -
  assume ok: "pool_ok pool"
  have "requests (notify_front pool p) r \<noteq> Some []" for r
    using ok by (cases "r = p") (auto simp: pool_ok_def notify_front_def split: option.splits list.splits)
  then show ?thesis using ok unfolding pool_ok_def dom_notify ids_queue_notify by simp
qed

lemma pool_retain_ok:
  assumes ok: "pool_ok pool" and bound: "next_request_id pool < 2 ^ 64 - 1" "pool_total pool < 2 ^ 64 - 1"
    and t: "pool_retain pool p now tokens x hints = (h, pool')"
  shows "pool_ok pool' \<and> h_program h = p \<and> h_request_id h = Suc (next_request_id pool) \<and>
    next_request_id pool' = Suc (next_request_id pool) \<and> pool_total pool' = Suc (pool_total pool) \<and>
    (\<exists>x. queue_of pool' p = queue_of pool p @ [x] \<and> pr_id x = h_request_id h) \<and>
    (\<forall>r. r \<noteq> p \<longrightarrow> requests pool' r = requests pool r)"
proof -
  have id: "Suc (next_request_id pool) mod 18446744073709551616 = Suc (next_request_id pool)" using bound(1) by simp
  let ?new = "\<lparr>pr_id = Suc (next_request_id pool), pr_arrived_at = now, pr_estimated_context_tokens = tokens,
             pr_routing_text = x, pr_hints = hints, pr_notified = False\<rparr>"
  have pool': "requests pool' = (requests pool)(p \<mapsto> queue_of pool p @ [?new])" "next_request_id pool' = Suc (next_request_id pool)"
    "retained_request_count pool' = saturating_inc (retained_request_count pool)"
    "h = \<lparr>h_program = p, h_request_id = Suc (next_request_id pool)\<rparr>"
    using t by (auto simp: pool_retain_def Let_def id)
  have total: "pool_total pool' = Suc (pool_total pool)"
    using pool_total_upd [OF pool_okD(1) [OF ok], of pool' p "queue_of pool p @ [?new]"] pool'(1) by simp
  have Q: "queue_of pool' r = (if r = p then queue_of pool p @ [?new] else queue_of pool r)" for r
    using pool'(1) by (simp add: queue_of_def)
  have "sorted_wrt (<) (map pr_id (queue_of pool p @ [?new]))"
    using pool_okD(4) [OF ok, of p] pool_okD(5) [OF ok, of _ p] by (auto simp: sorted_wrt_append less_Suc_eq_le)
  then have "sorted_wrt (<) (map pr_id (queue_of pool' r))" for r
    unfolding Q using pool_okD(4) [OF ok, of r] by (cases "r = p") simp_all
  moreover have "\<forall>i\<in>set (map pr_id (queue_of pool' r)). i \<le> next_request_id pool'" for r
    unfolding Q pool'(2) using pool_okD(5) [OF ok, of _ r] by (cases "r = p") (auto intro: le_SucI)
  moreover have "retained_request_count pool' = pool_total pool'"
    using total pool'(3) pool_okD(2) [OF ok] bound(2) by (simp add: saturating_inc_def)
  moreover have "requests pool' r \<noteq> Some []" "finite (dom (requests pool'))" for r
    using ok pool'(1) by (auto simp: pool_ok_def)
  ultimately have "pool_ok pool'" unfolding pool_ok_def by blast
  then show ?thesis using pool' total by (simp add: queue_of_def)
qed

section \<open>Runs\<close>

text \<open>
  One operation on the runtime, with the dispatches whose requests have not completed yet.
  Only an outstanding dispatch is completed, and once.
\<close>

inductive rt_step :: "program_runtime \<times> program_dispatch list \<Rightarrow> program_runtime \<times> program_dispatch list \<Rightarrow> bool" where
  Retain: "rt_step (rt, outs) (snd (retain_request rt identity tokens routing_text now), outs)"
| Admit: "admit_front rt h target_id now = (Some d, rt') \<Longrightarrow> rt_step (rt, outs) (rt', d # outs)"
| Admit_Fails: "admit_front rt h target_id now = (None, rt') \<Longrightarrow> rt_step (rt, outs) (rt', outs)"
| Complete: "d \<in> set outs \<Longrightarrow> rt_step (rt, outs) (snd (complete_request rt d usage), remove1 d outs)"
| Cancel: "rt_step (rt, outs) (snd (cancel_request rt h), outs)"
| Pause: "rt_step (rt, outs) (snd (pause_idle rt p), outs)"
| Activate: "rt_step (rt, outs) (snd (activate rt p target_id), outs)"
| Release: "rt_step (rt, outs) (snd (release_idle rt p now), outs)"
| Prune: "rt_step (rt, outs) (prune_released_generations rt now retention, outs)"
| Invalidate: "rt_step (rt, outs) (snd (invalidate_placement rt p removed), outs)"
| Notify: "rt_step (rt, outs) (notify_program rt p, outs)"

text \<open>The states that fewer than \<open>2 ^ 64 - 1\<close> operations reach, so that no counter saturates.\<close>

inductive rt_reach :: "nat \<Rightarrow> program_runtime \<times> program_dispatch list \<Rightarrow> bool" where
  Start: "rt_reach 0 (empty_runtime, [])"
| Step: "rt_reach n s \<Longrightarrow> Suc n < 2 ^ 64 \<Longrightarrow> rt_step s s' \<Longrightarrow> rt_reach (Suc n) s'"

section \<open>Invariant\<close>

text \<open>The dispatches of the current placement of a program that are still outstanding.\<close>

definition current_dispatches :: "runtime_program \<Rightarrow> program_dispatch list \<Rightarrow> program_dispatch list" where
  "current_dispatches p outs = filter (\<lambda>d. d_program d = reference p \<and> d_placement_epoch d = placement_epoch p) outs"

definition program_ok :: "program_runtime \<Rightarrow> program_dispatch list \<Rightarrow> runtime_key \<Rightarrow> runtime_program \<Rightarrow> bool" where
  "program_ok rt outs key p \<longleftrightarrow> key_of_ref (reference p) = key \<and>
     (rp_state p = Active \<longleftrightarrow> placement p \<noteq> None) \<and>
     (rp_state p = Active \<longrightarrow> 0 < placement_epoch p) \<and>
     (rp_state p = Paused \<longrightarrow> in_flight_requests p = 0) \<and>
     (rp_status p = Acting \<longrightarrow> in_flight_requests p = 0 \<and> program_len (request_pool rt) (reference p) = 0) \<and>
     placement_epoch p \<le> next_placement_epoch rt \<and>
     in_flight_requests p = length (current_dispatches p outs)"

definition runtime_ok :: "nat \<Rightarrow> program_runtime \<times> program_dispatch list \<Rightarrow> bool" where
  "runtime_ok n s \<longleftrightarrow> (case s of (rt, outs) \<Rightarrow>
     pool_ok (request_pool rt) \<and>
     (\<forall>key p. programs rt key = Some p \<longrightarrow> program_ok rt outs key p) \<and>
     (\<forall>r. requests (request_pool rt) r \<noteq> None \<longrightarrow> (\<exists>p. programs rt (key_of_ref r) = Some p \<and> reference p = r)) \<and>
     (\<forall>d\<in>set outs. 0 < d_placement_epoch d \<and> d_placement_epoch d \<le> next_placement_epoch rt) \<and>
     next_placement_epoch rt \<le> n \<and> length outs \<le> n \<and> next_request_id (request_pool rt) \<le> n \<and>
     pool_total (request_pool rt) \<le> n)"

lemma runtime_okD:
  assumes "runtime_ok n (rt, outs)"
  shows "pool_ok (request_pool rt)" "programs rt key = Some p \<Longrightarrow> program_ok rt outs key p"
    "requests (request_pool rt) r = Some q \<Longrightarrow> \<exists>p. programs rt (key_of_ref r) = Some p \<and> reference p = r"
    "d \<in> set outs \<Longrightarrow> 0 < d_placement_epoch d \<and> d_placement_epoch d \<le> next_placement_epoch rt"
    "next_placement_epoch rt \<le> n" "length outs \<le> n" "next_request_id (request_pool rt) \<le> n"
    "pool_total (request_pool rt) \<le> n"
  using assms unfolding runtime_ok_def prod.case by blast+

text \<open>An operation changes one program, its queue and its dispatches.\<close>

lemma current_other:
  assumes "filter (\<lambda>d. d_program d = reference p) outs' = filter (\<lambda>d. d_program d = reference p) outs"
  shows "current_dispatches p outs' = current_dispatches p outs"
proof -
  have eq: "current_dispatches p xs = filter (\<lambda>d. d_placement_epoch d = placement_epoch p) (filter (\<lambda>d. d_program d = reference p) xs)" for xs
    by (simp add: current_dispatches_def conj_commute)
  show ?thesis unfolding eq assms by (rule refl)
qed

lemma runtime_ok_upd:
  assumes ok: "runtime_ok n (rt, outs)"
    and progs: "programs rt' = (programs rt)(k \<mapsto> p')" and p': "program_ok rt' outs' k p'"
    and pool: "pool_ok (request_pool rt')"
    and others: "\<And>r. key_of_ref r \<noteq> k \<Longrightarrow> requests (request_pool rt') r = requests (request_pool rt) r"
    and owner: "\<And>r q. key_of_ref r = k \<Longrightarrow> requests (request_pool rt') r = Some q \<Longrightarrow> reference p' = r"
    and outs': "\<And>r. key_of_ref r \<noteq> k \<Longrightarrow> filter (\<lambda>d. d_program d = r) outs' = filter (\<lambda>d. d_program d = r) outs"
    and epochs: "next_placement_epoch rt \<le> next_placement_epoch rt'"
      "\<And>d. d \<in> set outs' \<Longrightarrow> 0 < d_placement_epoch d \<and> d_placement_epoch d \<le> next_placement_epoch rt'"
    and bounds: "next_placement_epoch rt' \<le> m" "length outs' \<le> m" "next_request_id (request_pool rt') \<le> m"
      "pool_total (request_pool rt') \<le> m"
  shows "runtime_ok m (rt', outs')"
proof -
  have "program_ok rt' outs' key p" if "programs rt' key = Some p" for key p
  proof (cases "key = k")
    case True
    then show ?thesis using that progs p' by simp
  next
    case False
    then have P: "program_ok rt outs key p" using runtime_okD(2) [OF ok] that progs by simp
    then have k: "key_of_ref (reference p) \<noteq> k" using False by (simp add: program_ok_def)
    have "program_len (request_pool rt') (reference p) = program_len (request_pool rt) (reference p)"
      using others [OF k] by (simp add: program_len_def)
    moreover have "current_dispatches p outs' = current_dispatches p outs" by (rule current_other [OF outs' [OF k]])
    ultimately show ?thesis using P epochs(1) unfolding program_ok_def by auto
  qed
  moreover have "\<exists>p. programs rt' (key_of_ref r) = Some p \<and> reference p = r" if "requests (request_pool rt') r = Some q" for r q
  proof (cases "key_of_ref r = k")
    case True
    then show ?thesis using owner [OF True that] progs by simp
  next
    case False
    then show ?thesis using runtime_okD(3) [OF ok] that progs others [OF False] by simp
  qed
  ultimately show ?thesis using pool epochs bounds unfolding runtime_ok_def by auto
qed

lemma owner_of:
  assumes "runtime_ok n (rt, outs)" "programs rt k = Some p" "requests (request_pool rt) r = Some q" "key_of_ref r = k"
  shows "reference p = r"
  using runtime_okD(3) [OF assms(1,3)] assms(2,4) by auto

lemma program_okD:
  assumes "program_ok rt outs key p"
  shows "key_of_ref (reference p) = key" "rp_state p = Active \<longleftrightarrow> placement p \<noteq> None"
    "rp_state p = Paused \<Longrightarrow> in_flight_requests p = 0"
    "rp_status p = Acting \<Longrightarrow> in_flight_requests p = 0 \<and> program_len (request_pool rt) (reference p) = 0"
    "placement_epoch p \<le> next_placement_epoch rt" "in_flight_requests p = length (current_dispatches p outs)"
    "rp_state p = Active \<Longrightarrow> 0 < placement_epoch p"
  using assms unfolding program_ok_def by auto

text \<open>No outstanding dispatch has an epoch that has not been given out.\<close>

lemma current_fresh:
  assumes "runtime_ok n (rt, outs)" "next_placement_epoch rt < placement_epoch p \<or> placement_epoch p = 0"
  shows "current_dispatches p outs = []"
  using runtime_okD(4) [OF assms(1)] assms(2) by (fastforce simp: current_dispatches_def filter_empty_conv)

lemma runtime_ok_mono: "runtime_ok n s \<Longrightarrow> n \<le> m \<Longrightarrow> runtime_ok m s"
  unfolding runtime_ok_def by (auto split: prod.splits)

section \<open>Every operation keeps the invariant\<close>

lemma retain_request_ok:
  assumes ok: "runtime_ok n (rt, outs)" and n: "n < 2 ^ 64 - 1"
    and op: "retain_request rt identity tokens x now = (h, rt')"
  shows "runtime_ok (Suc n) (rt', outs)"
proof -
  let ?k = "key_of_identity identity"
  obtain p' where progs: "programs rt' = (programs rt)(?k \<mapsto> p')" and p': "rp_status p' = Reasoning"
    "(case programs rt ?k of
        Some p \<Rightarrow> reference p' = reference p \<and> rp_state p' = rp_state p \<and> placement p' = placement p \<and>
          placement_epoch p' = placement_epoch p \<and> in_flight_requests p' = in_flight_requests p
      | None \<Rightarrow> key_of_ref (reference p') = ?k \<and> rp_state p' = Paused \<and> placement p' = None \<and>
          placement_epoch p' = 0 \<and> in_flight_requests p' = 0)"
    and pool: "pool_retain (request_pool rt) (reference p') now tokens x (request_hints identity) = (h, request_pool rt')"
    and ep: "next_placement_epoch rt' = next_placement_epoch rt"
    using op by (cases "programs rt ?k")
      (fastforce simp: retain_request_def Let_def key_of_ref_def key_of_identity_def split: prod.splits)+
  have bound: "next_request_id (request_pool rt) < 2 ^ 64 - 1" "pool_total (request_pool rt) < 2 ^ 64 - 1"
    using runtime_okD(7,8) [OF ok] n by linarith+
  note R = pool_retain_ok [OF runtime_okD(1) [OF ok] bound pool]
  have k: "key_of_ref (reference p') = ?k"
    using p'(2) program_okD(1) [OF runtime_okD(2) [OF ok]] by (cases "programs rt ?k") auto
  show ?thesis
  proof (rule runtime_ok_upd [OF ok progs])
    show "program_ok rt' outs ?k p'"
    proof (cases "programs rt ?k")
      case None
      then have "current_dispatches p' outs = []" using current_fresh [OF ok, of p'] p'(2) by simp
      then show ?thesis using None p' k by (simp add: program_ok_def)
    next
      case (Some p)
      then have "current_dispatches p' outs = current_dispatches p outs" using p'(2) by (simp add: current_dispatches_def)
      then show ?thesis using Some p' k ep program_okD [OF runtime_okD(2) [OF ok Some]] by (simp add: program_ok_def)
    qed
    show "requests (request_pool rt') r = requests (request_pool rt) r" if "key_of_ref r \<noteq> ?k" for r
    proof -
      have "r \<noteq> reference p'" using that k by auto
      then show ?thesis using R by blast
    qed
    show "reference p' = r" if "key_of_ref r = ?k" "requests (request_pool rt') r = Some q" for r q
    proof (rule ccontr)
      assume ne: "reference p' \<noteq> r"
      then have "requests (request_pool rt) r = Some q" using R that(2) by auto
      from runtime_okD(3) [OF ok this] show False using ne p'(2) that(1) by auto
    qed
  qed (use R ep runtime_okD(4-8) [OF ok] in \<open>auto simp: le_SucI\<close>)
qed

text \<open>Operations that change only one program, and perhaps give out the next epoch.\<close>

lemma runtime_ok_program:
  assumes ok: "runtime_ok n (rt, outs)" and p: "programs rt k = Some p" and ref: "reference p' = reference p"
    and e: "next_placement_epoch rt \<le> e" "e \<le> Suc n"
    and p': "program_ok (rt\<lparr>next_placement_epoch := e, programs := (programs rt)(k \<mapsto> p')\<rparr>) outs k p'"
  shows "runtime_ok (Suc n) (rt\<lparr>next_placement_epoch := e, programs := (programs rt)(k \<mapsto> p')\<rparr>, outs)"
proof (rule runtime_ok_upd [OF ok _ p'])
  show "reference p' = r" if "key_of_ref r = k"
    "requests (request_pool (rt\<lparr>next_placement_epoch := e, programs := (programs rt)(k \<mapsto> p')\<rparr>)) r = Some q" for r q
    using owner_of [OF ok p _ that(1)] that(2) ref by simp
  show "0 < d_placement_epoch d \<and> d_placement_epoch d \<le>
      next_placement_epoch (rt\<lparr>next_placement_epoch := e, programs := (programs rt)(k \<mapsto> p')\<rparr>)" if "d \<in> set outs" for d
    using runtime_okD(4) [OF ok that] e by simp
qed (use e runtime_okD [OF ok] in simp_all)

lemma next_epoch:
  assumes "runtime_ok n (rt, outs)" "n < 2 ^ 64 - 1"
  shows "saturating_inc (next_placement_epoch rt) = Suc (next_placement_epoch rt)" "Suc (next_placement_epoch rt) \<le> Suc n"
proof -
  have "next_placement_epoch rt \<le> n" by (rule runtime_okD(5) [OF assms(1)])
  then show "saturating_inc (next_placement_epoch rt) = Suc (next_placement_epoch rt)" "Suc (next_placement_epoch rt) \<le> Suc n"
    using assms(2) by (simp_all add: saturating_inc_def)
qed

lemma pause_idle_ok:
  assumes ok: "runtime_ok n (rt, outs)"
  shows "runtime_ok (Suc n) (snd (pause_idle rt p), outs)"
proof (cases "fst (pause_idle rt p)")
  case False
  then have "snd (pause_idle rt p) = rt" by (auto simp: pause_idle_def split: option.splits if_splits)
  then show ?thesis using runtime_ok_mono [OF ok] by simp
next
  case True
  then obtain q where q: "programs rt (key_of_ref p) = Some q" "in_flight_requests q = 0" "reference q = p"
    and op: "snd (pause_idle rt p) = rt\<lparr>next_placement_epoch := next_placement_epoch rt,
      programs := (programs rt)(key_of_ref p \<mapsto> q\<lparr>rp_state := Paused, placement := None\<rparr>)\<rparr>"
    by (auto simp: pause_idle_def split: option.splits if_splits)
  show ?thesis unfolding op
    by (rule runtime_ok_program [OF ok q(1)])
      (use program_okD [OF runtime_okD(2) [OF ok q(1)]] q(2) runtime_okD(5) [OF ok]
       in \<open>simp_all add: program_ok_def current_dispatches_def\<close>)
qed

lemma activate_ok:
  assumes ok: "runtime_ok n (rt, outs)" and n: "n < 2 ^ 64 - 1"
  shows "runtime_ok (Suc n) (snd (activate rt p t), outs)"
proof (cases "fst (activate rt p t)")
  case False
  then have "snd (activate rt p t) = rt" by (auto simp: activate_def Let_def split: option.splits if_splits)
  then show ?thesis using runtime_ok_mono [OF ok] by simp
next
  case True
  let ?e = "Suc (next_placement_epoch rt)"
  from True obtain q where q: "programs rt (key_of_ref p) = Some q" "rp_state q = Paused" "reference q = p"
    and op: "snd (activate rt p t) = rt\<lparr>next_placement_epoch := ?e,
      programs := (programs rt)(key_of_ref p \<mapsto> q\<lparr>rp_state := Active, rp_status := Reasoning, placement := Some t,
        placement_epoch := ?e, placement_start_request_pending := True\<rparr>)\<rparr>"
    using next_epoch(1) [OF ok n] by (auto simp: activate_def Let_def split: option.splits if_splits)
  show ?thesis unfolding op
  proof (rule runtime_ok_program [OF ok q(1)])
    let ?q = "q\<lparr>rp_state := Active, rp_status := Reasoning, placement := Some t, placement_epoch := ?e,
      placement_start_request_pending := True\<rparr>"
    have "current_dispatches ?q outs = []" by (rule current_fresh [OF ok]) simp
    then show "program_ok (rt\<lparr>next_placement_epoch := ?e, programs := (programs rt)(key_of_ref p \<mapsto> ?q)\<rparr>) outs (key_of_ref p) ?q"
      using program_okD [OF runtime_okD(2) [OF ok q(1)]] q(2) by (simp add: program_ok_def)
  qed (use next_epoch [OF ok n] in simp_all)
qed

lemma invalidate_placement_ok:
  assumes ok: "runtime_ok n (rt, outs)" and n: "n < 2 ^ 64 - 1"
  shows "runtime_ok (Suc n) (snd (invalidate_placement rt p removed), outs)"
proof (cases "fst (invalidate_placement rt p removed)")
  case False
  then have "snd (invalidate_placement rt p removed) = rt"
    by (auto simp: invalidate_placement_def Let_def split: option.splits if_splits)
  then show ?thesis using runtime_ok_mono [OF ok] by simp
next
  case True
  let ?e = "Suc (next_placement_epoch rt)"
  from True obtain q where q: "programs rt (key_of_ref p) = Some q" "reference q = p"
    and op: "snd (invalidate_placement rt p removed) = rt\<lparr>next_placement_epoch := ?e,
      programs := (programs rt)(key_of_ref p \<mapsto> q\<lparr>rp_state := Paused, placement := None, placement_epoch := ?e,
        placement_start_request_pending := False, in_flight_requests := 0\<rparr>)\<rparr>"
    using next_epoch(1) [OF ok n] by (auto simp: invalidate_placement_def Let_def split: option.splits if_splits)
  show ?thesis unfolding op
  proof (rule runtime_ok_program [OF ok q(1)])
    let ?q = "q\<lparr>rp_state := Paused, placement := None, placement_epoch := ?e,
      placement_start_request_pending := False, in_flight_requests := 0\<rparr>"
    have "current_dispatches ?q outs = []" by (rule current_fresh [OF ok]) simp
    then show "program_ok (rt\<lparr>next_placement_epoch := ?e, programs := (programs rt)(key_of_ref p \<mapsto> ?q)\<rparr>) outs (key_of_ref p) ?q"
      using program_okD [OF runtime_okD(2) [OF ok q(1)]] by (auto simp: program_ok_def)
  qed (use next_epoch [OF ok n] in simp_all)
qed

lemma release_idle_ok:
  assumes ok: "runtime_ok n (rt, outs)"
  shows "runtime_ok (Suc n) (snd (release_idle rt p now), outs)"
proof (cases "fst (release_idle rt p now)")
  case False
  then have "snd (release_idle rt p now) = rt" by (auto simp: release_idle_def split: option.splits if_splits)
  then show ?thesis using runtime_ok_mono [OF ok] by simp
next
  case True
  let ?rt = "snd (release_idle rt p now)"
  from True obtain q where q: "programs rt (key_of_ref p) = Some q" "reference q = p" "program_len (request_pool rt) p = 0"
    and rt': "programs ?rt = (programs rt)(key_of_ref p := None)" "request_pool ?rt = request_pool rt"
      "next_placement_epoch ?rt = next_placement_epoch rt"
    by (auto simp: release_idle_def split: option.splits if_splits)
  have none: "requests (request_pool rt) p = None"
    using q(3) pool_okD(3) [OF runtime_okD(1) [OF ok]] by (cases "requests (request_pool rt) p") (simp_all add: program_len_def)
  have progs: "program_ok ?rt outs key r" if "programs ?rt key = Some r" for key r
  proof -
    have "programs rt key = Some r" using that rt'(1) by (simp split: if_splits)
    from program_okD [OF runtime_okD(2) [OF ok this]] show ?thesis unfolding program_ok_def rt'(2,3) by blast
  qed
  have owners: "\<exists>q'. programs ?rt (key_of_ref r) = Some q' \<and> reference q' = r" if r: "requests (request_pool ?rt) r = Some w" for r w
  proof -
    from r obtain q' where q': "programs rt (key_of_ref r) = Some q'" "reference q' = r"
      using runtime_okD(3) [OF ok, of r w] rt'(2) by auto
    have "key_of_ref r \<noteq> key_of_ref p"
    proof
      assume "key_of_ref r = key_of_ref p"
      then have "q' = q" using q'(1) q(1) by (metis option.inject)
      then have "r = p" using q'(2) q(2) by simp
      then show False using none r rt'(2) by simp
    qed
    then show ?thesis using q' rt'(1) by simp
  qed
  have "runtime_ok n (?rt, outs)"
    unfolding runtime_ok_def prod.case rt'(2,3) using progs owners [unfolded rt'(2)] runtime_okD(1,4-8) [OF ok] by blast
  then show ?thesis by (rule runtime_ok_mono) simp
qed

lemma prune_ok:
  assumes ok: "runtime_ok n (rt, outs)"
  shows "runtime_ok (Suc n) (prune_released_generations rt now retention, outs)"
  using runtime_ok_mono [OF ok, of "Suc n"]
  by (simp add: runtime_ok_def prune_released_generations_def program_ok_def)

text \<open>The program and the epoch after admission, before a request is taken.\<close>

definition admit_epoch :: "program_runtime \<Rightarrow> runtime_program \<Rightarrow> nat" where
  "admit_epoch rt p = (if rp_state p = Paused then saturating_inc (next_placement_epoch rt) else next_placement_epoch rt)"

definition admit_program :: "program_runtime \<Rightarrow> runtime_program \<Rightarrow> str \<Rightarrow> runtime_program" where
  "admit_program rt p t = (if rp_state p = Paused
     then p\<lparr>rp_state := Active, placement := Some t, placement_epoch := admit_epoch rt p, placement_start_request_pending := False\<rparr>
     else p\<lparr>placement_start_request_pending := False\<rparr>)"

definition dispatch_of :: "program_runtime \<Rightarrow> runtime_program \<Rightarrow> str \<Rightarrow> instant \<Rightarrow> pending_request \<Rightarrow> program_dispatch" where
  "dispatch_of rt p t now request =
     \<lparr>d_program = reference p, d_target_id = t, d_placement_epoch = placement_epoch (admit_program rt p t),
      d_request_arrived_at = pr_arrived_at request, d_dispatched_at = now,
      d_estimated_context_tokens = pr_estimated_context_tokens request,
      d_placement_start_request = (rp_state p = Paused \<or> placement_start_request_pending p),
      d_routing_text = pr_routing_text request, d_request_hints = pr_hints request\<rparr>"

definition admissible :: "program_runtime \<Rightarrow> program_request_handle \<Rightarrow> str \<Rightarrow> runtime_program \<Rightarrow> bool" where
  "admissible rt h t p \<longleftrightarrow> programs rt (key_of_ref (h_program h)) = Some p \<and> reference p = h_program h \<and>
     (rp_state p = Active \<longrightarrow> placement p = Some t)"

lemma admit_front_eq:
  assumes "admissible rt h t p"
  shows "admit_front rt h t now =
    (case take_front (request_pool rt) h of
       None \<Rightarrow> (None, rt\<lparr>next_placement_epoch := admit_epoch rt p,
                        programs := (programs rt)(key_of_ref (h_program h) \<mapsto> admit_program rt p t)\<rparr>)
     | Some (request, pool) \<Rightarrow>
         (Some (dispatch_of rt p t now request),
          rt\<lparr>next_placement_epoch := admit_epoch rt p,
             programs := (programs rt)(key_of_ref (h_program h) \<mapsto> (admit_program rt p t)\<lparr>rp_status := Reasoning,
               in_flight_requests := saturating_inc (in_flight_requests p)\<rparr>),
             request_pool := notify_front pool (h_program h)\<rparr>))"
  using assms unfolding admissible_def
  by (cases "rp_state p")
    (simp_all add: admit_front_def Let_def admit_epoch_def admit_program_def dispatch_of_def split: option.split)

lemma admit_front_reject: "\<nexists>p. admissible rt h t p \<Longrightarrow> admit_front rt h t now = (None, rt)"
  by (cases "programs rt (key_of_ref (h_program h))") (auto simp: admissible_def admit_front_def Let_def)

lemma admit_program_ok:
  assumes ok: "runtime_ok n (rt, outs)" and n: "n < 2 ^ 64 - 1" and p: "programs rt k = Some p"
    and t: "rp_state p = Active \<Longrightarrow> placement p = Some t"
    and rt': "request_pool rt' = request_pool rt" "next_placement_epoch rt' = admit_epoch rt p"
  shows "program_ok rt' outs k (admit_program rt p t)" "next_placement_epoch rt \<le> admit_epoch rt p" "admit_epoch rt p \<le> Suc n"
    "reference (admit_program rt p t) = reference p" "in_flight_requests (admit_program rt p t) = in_flight_requests p"
    "0 < placement_epoch (admit_program rt p t)" "placement_epoch (admit_program rt p t) \<le> admit_epoch rt p"
    "rp_state (admit_program rt p t) = Active" "placement (admit_program rt p t) = Some t"
proof -
  note P = program_okD [OF runtime_okD(2) [OF ok p]] and E = next_epoch [OF ok n]
  have st: "rp_state p \<noteq> Paused \<longleftrightarrow> rp_state p = Active" by (cases "rp_state p") auto
  have fresh: "current_dispatches (admit_program rt p t) outs = []" if "rp_state p = Paused"
    by (rule current_fresh [OF ok]) (use that E in \<open>simp add: admit_program_def admit_epoch_def\<close>)
  have same: "current_dispatches (admit_program rt p t) outs = current_dispatches p outs" if "rp_state p = Active"
    using that by (simp add: admit_program_def current_dispatches_def)
  show "program_ok rt' outs k (admit_program rt p t)"
    using P t rt' fresh same E unfolding program_ok_def by (cases "rp_state p") (auto simp: admit_program_def admit_epoch_def)
  have E': "admit_epoch rt p = (if rp_state p = Paused then Suc (next_placement_epoch rt) else next_placement_epoch rt)"
    using E by (simp add: admit_epoch_def)
  show "next_placement_epoch rt \<le> admit_epoch rt p" "admit_epoch rt p \<le> Suc n"
    using E runtime_okD(5) [OF ok] by (simp_all add: E')
  show "0 < placement_epoch (admit_program rt p t)" "placement_epoch (admit_program rt p t) \<le> admit_epoch rt p"
    using P(5,7) st by (auto simp: admit_program_def E')
  show "reference (admit_program rt p t) = reference p" "in_flight_requests (admit_program rt p t) = in_flight_requests p"
    "rp_state (admit_program rt p t) = Active" "placement (admit_program rt p t) = Some t"
    using t st by (auto simp: admit_program_def)
qed

lemma admit_front_ok:
  assumes ok: "runtime_ok n (rt, outs)" and n: "n < 2 ^ 64 - 1" and op: "admit_front rt h t now = (Some d, rt')"
  shows "runtime_ok (Suc n) (rt', d # outs)"
proof -
  obtain p where adm: "admissible rt h t p" using op admit_front_reject [of rt h t now] by fastforce
  obtain request pool where tf: "take_front (request_pool rt) h = Some (request, pool)"
    and d: "d = dispatch_of rt p t now request"
    and rt': "rt' = rt\<lparr>next_placement_epoch := admit_epoch rt p,
             programs := (programs rt)(key_of_ref (h_program h) \<mapsto> (admit_program rt p t)\<lparr>rp_status := Reasoning,
               in_flight_requests := saturating_inc (in_flight_requests p)\<rparr>),
             request_pool := notify_front pool (h_program h)\<rparr>"
    using op unfolding admit_front_eq [OF adm] by (auto split: option.splits)
  let ?k = "key_of_ref (h_program h)"
  let ?p = "(admit_program rt p t)\<lparr>rp_status := Reasoning, in_flight_requests := saturating_inc (in_flight_requests p)\<rparr>"
  have p: "programs rt ?k = Some p" "reference p = h_program h" "rp_state p = Active \<Longrightarrow> placement p = Some t"
    using adm by (auto simp: admissible_def)
  note T = take_front_ok [OF runtime_okD(1) [OF ok] tf]
  note A = admit_program_ok [OF ok n p(1) p(3), of "rt\<lparr>next_placement_epoch := admit_epoch rt p\<rparr>", simplified]
  have "in_flight_requests p \<le> n"
    using program_okD(6) [OF runtime_okD(2) [OF ok p(1)]] runtime_okD(6) [OF ok]
    by (simp add: current_dispatches_def) (meson length_filter_le le_trans)
  then have fl: "saturating_inc (in_flight_requests p) = Suc (in_flight_requests p)" using n by (simp add: saturating_inc_def)
  have "current_dispatches ?p (d # outs) = d # current_dispatches (admit_program rt p t) outs"
    using A(4) by (simp add: d dispatch_of_def current_dispatches_def)
  then have P: "program_ok rt' (d # outs) ?k ?p"
    using program_okD [OF A(1)] A(5,8,9) fl by (simp add: program_ok_def rt')
  show ?thesis
  proof (rule runtime_ok_upd [OF ok _ P])
    show "reference ?p = r" if "key_of_ref r = ?k" "requests (request_pool rt') r = Some q" for r q
    proof (rule ccontr)
      assume "reference ?p \<noteq> r"
      then have ne: "h_program h \<noteq> r" using A(4) p(2) by simp
      then have "requests (request_pool rt) r = Some q" using T that(2) by (auto simp: rt')
      from owner_of [OF ok p(1) this that(1)] show False using ne p(2) by simp
    qed
    show "requests (request_pool rt') r = requests (request_pool rt) r" if "key_of_ref r \<noteq> ?k" for r
    proof -
      have "r \<noteq> h_program h" using that by auto
      then show ?thesis using T by (simp add: rt')
    qed
    show "filter (\<lambda>d. d_program d = r) (d # outs) = filter (\<lambda>d. d_program d = r) outs" if "key_of_ref r \<noteq> ?k" for r
      using that p(2) by (auto simp: d dispatch_of_def)
    show "0 < d_placement_epoch e \<and> d_placement_epoch e \<le> next_placement_epoch rt'" if "e \<in> set (d # outs)" for e
      using that runtime_okD(4) [OF ok, of e] A(2,6,7) by (auto simp: d dispatch_of_def rt')
  qed (use T A(2,3) runtime_okD(5-8) [OF ok] in \<open>auto simp: rt' notify_front_ok\<close>)
qed

lemma admit_fails_ok:
  assumes ok: "runtime_ok n (rt, outs)" and n: "n < 2 ^ 64 - 1" and op: "admit_front rt h t now = (None, rt')"
  shows "runtime_ok (Suc n) (rt', outs)"
proof (cases "\<exists>p. admissible rt h t p")
  case False
  then show ?thesis using op admit_front_reject [OF False] runtime_ok_mono [OF ok] by simp
next
  case True
  then obtain p where adm: "admissible rt h t p" by blast
  have rt': "rt' = rt\<lparr>next_placement_epoch := admit_epoch rt p,
     programs := (programs rt)(key_of_ref (h_program h) \<mapsto> admit_program rt p t)\<rparr>"
    using op unfolding admit_front_eq [OF adm] by (auto split: option.splits)
  have p: "programs rt (key_of_ref (h_program h)) = Some p" "rp_state p = Active \<Longrightarrow> placement p = Some t"
    using adm by (auto simp: admissible_def)
  have pre: "request_pool rt' = request_pool rt" "next_placement_epoch rt' = admit_epoch rt p" by (simp_all add: rt')
  note A = admit_program_ok [OF ok n p pre]
  show ?thesis using runtime_ok_program [OF ok p(1) A(4) A(2) A(3)] A(1) unfolding rt' by blast
qed

lemma length_remove1_filter:
  "x \<in> set xs \<Longrightarrow> P x \<Longrightarrow> Suc (length (filter P (remove1 x xs))) = length (filter P xs)"
  by (induction xs) auto

lemma filter_remove1_other: "\<not> P x \<Longrightarrow> filter P (remove1 x xs) = filter P xs"
  by (induction xs) auto

text \<open>A dispatch is current when its generation is live and placed as when it was admitted.\<close>

definition is_current :: "program_runtime \<Rightarrow> program_dispatch \<Rightarrow> bool" where
  "is_current rt d \<longleftrightarrow> (\<exists>p. programs rt (key_of_ref (d_program d)) = Some p \<and>
     reference p = d_program d \<and> placement_epoch p = d_placement_epoch d)"

lemma complete_stale: "\<not> is_current rt d \<Longrightarrow> complete_request rt d usage = (False, rt)"
  by (cases "programs rt (key_of_ref (d_program d))") (auto simp: is_current_def complete_request_def Let_def)

definition completed :: "program_runtime \<Rightarrow> runtime_program \<Rightarrow> program_dispatch \<Rightarrow> program_usage_observation \<Rightarrow> runtime_program" where
  "completed rt p d usage =
     (let p1 = p\<lparr>estimated_context_tokens := max (estimated_context_tokens p)
                  (case prompt_tokens usage of Some t \<Rightarrow> t | None \<Rightarrow> d_estimated_context_tokens d),
                in_flight_requests := in_flight_requests p - 1\<rparr>
      in if in_flight_requests p1 = 0 \<and> program_len (request_pool rt) (reference p) = 0
         then p1\<lparr>rp_status := Acting\<rparr> else p1)"

lemma complete_current:
  assumes ok: "runtime_ok n (rt, outs)" and d: "d \<in> set outs" and cur: "is_current rt d"
  obtains p where "programs rt (key_of_ref (d_program d)) = Some p" "reference p = d_program d"
    "placement_epoch p = d_placement_epoch d" "0 < in_flight_requests p"
    "complete_request rt d usage =
       (True, rt\<lparr>programs := (programs rt)(key_of_ref (d_program d) \<mapsto> completed rt p d usage)\<rparr>)"
proof -
  from cur obtain p where p: "programs rt (key_of_ref (d_program d)) = Some p" "reference p = d_program d"
    "placement_epoch p = d_placement_epoch d" by (auto simp: is_current_def)
  have "d \<in> set (current_dispatches p outs)" using d p by (simp add: current_dispatches_def)
  then have pos: "0 < in_flight_requests p"
    using program_okD(6) [OF runtime_okD(2) [OF ok p(1)]] by (metis length_pos_if_in_set)
  have "complete_request rt d usage =
       (True, rt\<lparr>programs := (programs rt)(key_of_ref (d_program d) \<mapsto> completed rt p d usage)\<rparr>)"
    using p pos by (simp add: complete_request_def completed_def Let_def)
  then show ?thesis using that p pos by blast
qed

lemma complete_request_ok:
  assumes ok: "runtime_ok n (rt, outs)" and d: "d \<in> set outs"
  shows "runtime_ok (Suc n) (snd (complete_request rt d usage), remove1 d outs)"
proof (cases "is_current rt d")
  case False
  have "current_dispatches p (remove1 d outs) = current_dispatches p outs" if p: "programs rt key = Some p" for key p
    unfolding current_dispatches_def
  proof (rule filter_remove1_other)
    show "\<not> (d_program d = reference p \<and> d_placement_epoch d = placement_epoch p)"
      using False p program_okD(1) [OF runtime_okD(2) [OF ok p]] by (auto simp: is_current_def)
  qed
  then have "program_ok rt (remove1 d outs) key p" if "programs rt key = Some p" for key p
    using runtime_okD(2) [OF ok that] that by (auto simp: program_ok_def)
  moreover have "0 < d_placement_epoch e \<and> d_placement_epoch e \<le> next_placement_epoch rt" if "e \<in> set (remove1 d outs)" for e
    using runtime_okD(4) [OF ok] that set_remove1_subset [of d outs] by blast
  moreover have "length (remove1 d outs) \<le> n" using runtime_okD(6) [OF ok] by (auto simp: length_remove1)
  ultimately have "runtime_ok n (rt, remove1 d outs)"
    using runtime_okD(1,3,5,7,8) [OF ok] unfolding runtime_ok_def prod.case by blast
  then show ?thesis using complete_stale [OF False] runtime_ok_mono by simp
next
  case True
  then obtain p where p: "programs rt (key_of_ref (d_program d)) = Some p" "reference p = d_program d"
    "placement_epoch p = d_placement_epoch d" "0 < in_flight_requests p"
    and op: "complete_request rt d usage =
       (True, rt\<lparr>programs := (programs rt)(key_of_ref (d_program d) \<mapsto> completed rt p d usage)\<rparr>)"
    by (rule complete_current [OF ok d])
  let ?rt = "rt\<lparr>programs := (programs rt)(key_of_ref (d_program d) \<mapsto> completed rt p d usage)\<rparr>"
  have c: "reference (completed rt p d usage) = reference p" "rp_state (completed rt p d usage) = rp_state p"
    "placement (completed rt p d usage) = placement p" "placement_epoch (completed rt p d usage) = placement_epoch p"
    "in_flight_requests (completed rt p d usage) = in_flight_requests p - 1"
    "rp_status (completed rt p d usage) = Acting \<Longrightarrow> rp_status p = Acting \<or>
       in_flight_requests p - 1 = 0 \<and> program_len (request_pool rt) (reference p) = 0"
    by (auto simp: completed_def Let_def split: if_splits)
  have "Suc (length (current_dispatches p (remove1 d outs))) = length (current_dispatches p outs)"
    unfolding current_dispatches_def by (rule length_remove1_filter [OF d]) (use p in simp)
  then have P: "program_ok ?rt (remove1 d outs) (key_of_ref (d_program d)) (completed rt p d usage)"
    using program_okD [OF runtime_okD(2) [OF ok p(1)]] c p(4)
    unfolding program_ok_def by (auto simp: current_dispatches_def)
  show ?thesis unfolding op snd_conv
  proof (rule runtime_ok_upd [OF ok _ P])
    show "reference (completed rt p d usage) = r" if "key_of_ref r = key_of_ref (d_program d)" "requests (request_pool ?rt) r = Some q" for r q
      using owner_of [OF ok p(1) _ that(1)] that(2) c(1) by simp
    show "filter (\<lambda>d. d_program d = r) (remove1 d outs) = filter (\<lambda>d. d_program d = r) outs"
      if "key_of_ref r \<noteq> key_of_ref (d_program d)" for r
      by (rule filter_remove1_other) (use that in auto)
    show "0 < d_placement_epoch e \<and> d_placement_epoch e \<le> next_placement_epoch ?rt" if "e \<in> set (remove1 d outs)" for e
      using runtime_okD(4) [OF ok, of e] notin_set_remove1 [of e outs d] that by auto
  qed (use runtime_okD(1,5-8) [OF ok] in \<open>auto simp: length_remove1\<close>)
qed

lemma pool_cancel_SomeD: "pool_cancel pool h = Some r \<Longrightarrow> \<exists>q. requests pool (h_program h) = Some q"
  by (auto simp: pool_cancel_def split: option.splits)

definition cancelled :: "request_pool \<Rightarrow> runtime_program \<Rightarrow> runtime_program" where
  "cancelled pool p = (if in_flight_requests p = 0 \<and> program_len pool (reference p) = 0
     then p\<lparr>rp_status := Acting, rp_state := Paused, placement := None\<rparr> else p)"

lemma cancel_request_eq:
  assumes ok: "runtime_ok n (rt, outs)" and c: "pool_cancel (request_pool rt) h = Some (was_front, pool)"
    and pool1: "pool1 = (if was_front then notify_front pool (h_program h) else pool)"
  obtains p where "programs rt (key_of_ref (h_program h)) = Some p" "reference p = h_program h"
    "cancel_request rt h = (True, rt\<lparr>request_pool := pool1,
       programs := (programs rt)(key_of_ref (h_program h) \<mapsto> cancelled pool1 p)\<rparr>)"
proof -
  obtain q where "requests (request_pool rt) (h_program h) = Some q" using pool_cancel_SomeD [OF c] by blast
  from runtime_okD(3) [OF ok this] obtain p where p: "programs rt (key_of_ref (h_program h)) = Some p" "reference p = h_program h"
    by blast
  have "rp_state p = Active \<or> placement p = None" using program_okD(2) [OF runtime_okD(2) [OF ok p(1)]] by auto
  then have "p\<lparr>rp_status := Acting\<rparr> = p\<lparr>rp_status := Acting, rp_state := Paused, placement := None\<rparr>" if "rp_state p \<noteq> Active"
    using that by (cases p) (auto, cases "rp_state p", auto)
  then have "cancel_request rt h = (True, rt\<lparr>request_pool := pool1,
       programs := (programs rt)(key_of_ref (h_program h) \<mapsto> cancelled pool1 p)\<rparr>)"
    using c p pool1 by (simp add: cancel_request_def cancelled_def Let_def fun_upd_idem)
  then show ?thesis using that p by blast
qed

lemma cancel_request_ok:
  assumes ok: "runtime_ok n (rt, outs)"
  shows "runtime_ok (Suc n) (snd (cancel_request rt h), outs)"
proof (cases "pool_cancel (request_pool rt) h")
  case None
  then show ?thesis using runtime_ok_mono [OF ok] by (simp add: cancel_request_def)
next
  case (Some w)
  obtain was_front pool where w: "w = (was_front, pool)" by (cases w)
  define pool1 where "pool1 = (if was_front then notify_front pool (h_program h) else pool)"
  note C = pool_cancel_ok [OF runtime_okD(1) [OF ok] Some [unfolded w]]
  obtain p where p: "programs rt (key_of_ref (h_program h)) = Some p" "reference p = h_program h"
    and op: "cancel_request rt h = (True, rt\<lparr>request_pool := pool1,
       programs := (programs rt)(key_of_ref (h_program h) \<mapsto> cancelled pool1 p)\<rparr>)"
    by (rule cancel_request_eq [OF ok Some [unfolded w] pool1_def])
  let ?rt = "rt\<lparr>request_pool := pool1, programs := (programs rt)(key_of_ref (h_program h) \<mapsto> cancelled pool1 p)\<rparr>"
  have P1: "pool_ok pool1" "next_request_id pool1 = next_request_id (request_pool rt)" "pool_total pool1 \<le> pool_total (request_pool rt)"
    "r \<noteq> h_program h \<Longrightarrow> requests pool1 r = requests (request_pool rt) r" for r
    using C by (auto simp: pool1_def notify_front_ok)
  have "length (queue_of pool1 (h_program h)) < length (queue_of (request_pool rt) (h_program h))"
    using C by (auto simp: pool1_def)
  then have "rp_status p = Reasoning"
    using program_okD(4) [OF runtime_okD(2) [OF ok p(1)]] p(2) by (cases "rp_status p") (auto simp: program_len_queue)
  then have P: "program_ok ?rt outs (key_of_ref (h_program h)) (cancelled pool1 p)"
    using program_okD [OF runtime_okD(2) [OF ok p(1)]] by (auto simp: program_ok_def cancelled_def current_dispatches_def)
  show ?thesis unfolding op snd_conv
  proof (rule runtime_ok_upd [OF ok _ P])
    show "reference (cancelled pool1 p) = r" if "key_of_ref r = key_of_ref (h_program h)" "requests (request_pool ?rt) r = Some q" for r q
    proof (rule ccontr)
      assume "reference (cancelled pool1 p) \<noteq> r"
      then have ne: "h_program h \<noteq> r" using p(2) by (simp add: cancelled_def split: if_splits)
      then have "requests (request_pool rt) r = Some q" using P1(4) [of r] that(2) by simp
      from owner_of [OF ok p(1) this that(1)] show False using ne p(2) by simp
    qed
    show "requests (request_pool ?rt) r = requests (request_pool rt) r" if "key_of_ref r \<noteq> key_of_ref (h_program h)" for r
      using P1(4) [of r] that by auto
    show "0 < d_placement_epoch e \<and> d_placement_epoch e \<le> next_placement_epoch ?rt" if "e \<in> set outs" for e
      using runtime_okD(4) [OF ok that] by simp
  qed (use P1(1-3) runtime_okD(5-8) [OF ok] in auto)
qed

lemma notify_program_ok:
  assumes ok: "runtime_ok n (rt, outs)"
  shows "runtime_ok (Suc n) (notify_program rt p, outs)"
proof -
  have len: "program_len (notify_front (request_pool rt) p) r = program_len (request_pool rt) r" for r
    by (simp add: program_len_queue)
  have dom: "requests (notify_front (request_pool rt) p) r \<noteq> None \<longleftrightarrow> requests (request_pool rt) r \<noteq> None" for r
    using dom_notify [of "request_pool rt" p] unfolding dom_def by blast
  have "next_request_id (notify_front (request_pool rt) p) = next_request_id (request_pool rt)"
    by (simp add: notify_front_def split: option.split list.split)
  then have "runtime_ok n (notify_program rt p, outs)"
    using ok notify_front_ok [of "request_pool rt" p]
    by (simp add: runtime_ok_def program_ok_def notify_program_def len dom del: not_None_eq)
  then show ?thesis by (rule runtime_ok_mono) simp
qed

lemma rt_step_ok:
  assumes "rt_step s s'" and "runtime_ok n s" and "n < 2 ^ 64 - 1"
  shows "runtime_ok (Suc n) s'"
  using assms
proof (induction rule: rt_step.induct)
  case (Retain rt outs identity tokens routing_text now)
  then show ?case by (metis retain_request_ok surjective_pairing)
qed (simp_all add: admit_front_ok admit_fails_ok complete_request_ok cancel_request_ok pause_idle_ok activate_ok
      release_idle_ok prune_ok invalidate_placement_ok notify_program_ok)

lemma empty_runtime_ok: "runtime_ok 0 (empty_runtime, [])"
  by (simp add: runtime_ok_def empty_runtime_def empty_pool_def pool_ok_def pool_total_def queue_of_def)

lemma rt_reach_ok: "rt_reach n s \<Longrightarrow> runtime_ok n s"
proof (induction rule: rt_reach.induct)
  case (Step n s s')
  have "n < 2 ^ 64 - 1" using Step.hyps(2) by simp
  from rt_step_ok [OF Step.hyps(3) Step.IH this] show ?case .
qed (rule empty_runtime_ok)

section \<open>Well-formed runtimes\<close>

text \<open>The part of the invariant that needs no bound on the number of operations.\<close>

definition program_wf :: "request_pool \<Rightarrow> runtime_key \<Rightarrow> runtime_program \<Rightarrow> bool" where
  "program_wf pool k p \<longleftrightarrow> key_of_ref (reference p) = k \<and> (rp_state p = Active \<longleftrightarrow> placement p \<noteq> None) \<and>
     (rp_status p = Acting \<longrightarrow> in_flight_requests p = 0 \<and> program_len pool (reference p) = 0)"

definition rt_wf :: "program_runtime \<Rightarrow> bool" where
  "rt_wf rt \<longleftrightarrow> (\<forall>k p. programs rt k = Some p \<longrightarrow> program_wf (request_pool rt) k p) \<and>
     (\<forall>r. program_len (request_pool rt) r \<noteq> 0 \<longrightarrow> (\<exists>p. programs rt (key_of_ref r) = Some p \<and> reference p = r)) \<and>
     finite (dom (programs rt))"

lemma rt_wfD:
  assumes "rt_wf rt"
  shows "programs rt k = Some p \<Longrightarrow> key_of_ref (reference p) = k"
    "programs rt k = Some p \<Longrightarrow> rp_state p = Active \<longleftrightarrow> placement p \<noteq> None"
    "programs rt k = Some p \<Longrightarrow> rp_status p = Acting \<Longrightarrow> in_flight_requests p = 0 \<and> program_len (request_pool rt) (reference p) = 0"
    "program_len (request_pool rt) r \<noteq> 0 \<Longrightarrow> \<exists>p. programs rt (key_of_ref r) = Some p \<and> reference p = r"
    "finite (dom (programs rt))"
  using assms unfolding rt_wf_def program_wf_def by blast+

lemma rt_wf_upd:
  assumes wf: "rt_wf rt" and progs: "programs rt' = (programs rt)(k \<mapsto> p')" and p': "program_wf (request_pool rt') k p'"
    and others: "\<And>r. r \<noteq> reference p' \<Longrightarrow> program_len (request_pool rt') r \<le> program_len (request_pool rt) r"
    and same: "\<And>p. programs rt k = Some p \<Longrightarrow> reference p = reference p'"
  shows "rt_wf rt'"
proof -
  have k: "key_of_ref (reference p') = k" using p' by (simp add: program_wf_def)
  have "program_wf (request_pool rt') key p" if "programs rt' key = Some p" for key p
  proof (cases "key = k")
    case True
    then show ?thesis using that progs p' by simp
  next
    case False
    then have P: "programs rt key = Some p" using that progs by simp
    have "reference p \<noteq> reference p'" using rt_wfD(1) [OF wf P] k False by auto
    from others [OF this] show ?thesis using wf P unfolding rt_wf_def program_wf_def by fastforce
  qed
  moreover have "\<exists>p. programs rt' (key_of_ref r) = Some p \<and> reference p = r" if "program_len (request_pool rt') r \<noteq> 0" for r
  proof (cases "r = reference p'")
    case True
    then show ?thesis using progs k by simp
  next
    case False
    then have "program_len (request_pool rt) r \<noteq> 0" using others [OF False] that by linarith
    from rt_wfD(4) [OF wf this] obtain p where p: "programs rt (key_of_ref r) = Some p" "reference p = r" by blast
    have "key_of_ref r \<noteq> k" using same [of p] p False by auto
    then show ?thesis using p progs by simp
  qed
  moreover have "finite (dom (programs rt'))" using rt_wfD(5) [OF wf] progs by simp
  ultimately show ?thesis unfolding rt_wf_def by blast
qed

lemma rt_wf_same:
  assumes "rt_wf rt" "programs rt' = programs rt" "\<And>r. program_len (request_pool rt') r = program_len (request_pool rt) r"
  shows "rt_wf rt'"
  using assms unfolding rt_wf_def program_wf_def by auto

lemma program_len_notify [simp]: "program_len (notify_front pool p) r = program_len pool r"
  by (simp add: program_len_queue)

lemma program_len_put [simp]: "program_len (put_queue pool p q) r = (if r = p then length q else program_len pool r)"
  by (simp add: program_len_queue)

lemma retain_request_wf:
  assumes wf: "rt_wf rt" and op: "retain_request rt identity tokens x now = (h, rt')"
  shows "rt_wf rt'" "key_of_ref (h_program h) = key_of_identity identity"
    "\<exists>p'. programs rt' = (programs rt)(key_of_identity identity \<mapsto> p') \<and> reference p' = h_program h \<and>
       (case programs rt (key_of_identity identity) of
          Some p \<Rightarrow> reference p' = reference p \<and> rp_state p' = rp_state p \<and> placement p' = placement p
        | None \<Rightarrow> rp_state p' = Paused \<and> placement p' = None)"
    "program_len (request_pool rt') r = program_len (request_pool rt) r + (if r = h_program h then 1 else 0)"
proof -
  let ?k = "key_of_identity identity"
  obtain p' where progs: "programs rt' = (programs rt)(?k \<mapsto> p')" and p': "rp_status p' = Reasoning"
    "(case programs rt ?k of
        Some p \<Rightarrow> reference p' = reference p \<and> rp_state p' = rp_state p \<and> placement p' = placement p
      | None \<Rightarrow> key_of_ref (reference p') = ?k \<and> rp_state p' = Paused \<and> placement p' = None)"
    and pool: "pool_retain (request_pool rt) (reference p') now tokens x (request_hints identity) = (h, request_pool rt')"
    using op by (cases "programs rt ?k")
      (fastforce simp: retain_request_def Let_def key_of_ref_def key_of_identity_def split: prod.splits)+
  have h: "h_program h = reference p'" using pool by (auto simp: pool_retain_def Let_def)
  have len: "program_len (request_pool rt') r = program_len (request_pool rt) r + (if r = reference p' then 1 else 0)" for r
  proof -
    have "request_pool rt' = snd (pool_retain (request_pool rt) (reference p') now tokens x (request_hints identity))"
      using pool by simp
    then show ?thesis by (auto simp: pool_retain_def Let_def program_len_def queue_of_def split: option.splits)
  qed
  have k: "key_of_ref (reference p') = ?k" using p'(2) rt_wfD(1) [OF wf, of ?k] by (cases "programs rt ?k") auto
  have st: "rp_state p' = Active \<longleftrightarrow> placement p' \<noteq> None"
    using p'(2) rt_wfD(2) [OF wf, of ?k] by (cases "programs rt ?k") auto
  show "rt_wf rt'"
  proof (rule rt_wf_upd [OF wf progs])
    show "program_wf (request_pool rt') ?k p'" using k st p'(1) by (simp add: program_wf_def)
    show "reference p = reference p'" if "programs rt ?k = Some p" for p using p'(2) that by simp
  qed (simp add: len)
  show "key_of_ref (h_program h) = ?k" using h k by simp
  show "\<exists>p'. programs rt' = (programs rt)(?k \<mapsto> p') \<and> reference p' = h_program h \<and>
       (case programs rt ?k of
          Some p \<Rightarrow> reference p' = reference p \<and> rp_state p' = rp_state p \<and> placement p' = placement p
        | None \<Rightarrow> rp_state p' = Paused \<and> placement p' = None)"
    using progs h p'(2) by (auto split: option.splits)
  show "program_len (request_pool rt') r = program_len (request_pool rt) r + (if r = h_program h then 1 else 0)"
    using len h by simp
qed

lemma take_front_len:
  assumes "take_front pool h = Some (r, pool')"
  shows "program_len pool' p \<le> program_len pool p"
  using assms by (auto simp: take_front_def program_len_def [of pool] split: option.splits list.splits if_splits)

lemma admit_front_wf:
  assumes wf: "rt_wf rt" and op: "admit_front rt h t now = (r, rt')"
  shows "rt_wf rt'"
proof (cases "\<exists>p. admissible rt h t p")
  case False
  then show ?thesis using op admit_front_reject [OF False] wf by simp
next
  case True
  let ?k = "key_of_ref (h_program h)"
  obtain p where A: "admissible rt h t p" using True by blast
  then have p: "programs rt ?k = Some p" "reference p = h_program h" "rp_state p = Active \<Longrightarrow> placement p = Some t"
    by (auto simp: admissible_def)
  obtain p' where p': "programs rt' = (programs rt)(?k \<mapsto> p')" "reference p' = reference p" "rp_state p' = Active"
    "placement p' = Some t" "rp_status p' = Reasoning \<or> rp_status p' = rp_status p \<and>
       in_flight_requests p' = in_flight_requests p \<and> request_pool rt' = request_pool rt"
    using op p(3) unfolding admit_front_eq [OF A]
    by (cases "rp_state p") (auto simp: admit_program_def split: option.splits)
  have len: "program_len (request_pool rt') q \<le> program_len (request_pool rt) q" for q
    using op take_front_len [of "request_pool rt" h] unfolding admit_front_eq [OF A] by (auto split: option.splits)
  have "program_wf (request_pool rt') ?k p'"
    using p' p(2) rt_wfD(3) [OF wf p(1)] by (auto simp: program_wf_def)
  then show ?thesis by (rule rt_wf_upd [OF wf p'(1)]) (use len p p'(2) in auto)
qed

lemma pause_idle_wf: "rt_wf rt \<Longrightarrow> rt_wf (snd (pause_idle rt p))"
  by (auto simp: pause_idle_def program_wf_def dest: rt_wfD(1,3) intro!: rt_wf_upd [where rt = rt] split: option.splits)

lemma activate_wf: "rt_wf rt \<Longrightarrow> rt_wf (snd (activate rt p t))"
  by (auto simp: activate_def program_wf_def Let_def dest: rt_wfD(1) intro!: rt_wf_upd [where rt = rt] split: option.splits)

lemma invalidate_wf: "rt_wf rt \<Longrightarrow> rt_wf (snd (invalidate_placement rt p removed))"
  by (auto simp: invalidate_placement_def program_wf_def Let_def dest: rt_wfD(1,3) intro!: rt_wf_upd [where rt = rt] split: option.splits)

lemma complete_rejected: "\<not> fst (complete_request rt d usage) \<Longrightarrow> snd (complete_request rt d usage) = rt"
  by (cases "programs rt (key_of_ref (d_program d))") (auto simp: complete_request_def Let_def split: if_splits)

lemma complete_request_wf:
  assumes wf: "rt_wf rt"
  shows "rt_wf (snd (complete_request rt d usage))"
proof (cases "fst (complete_request rt d usage)")
  case False
  then show ?thesis using wf by (simp add: complete_rejected)
next
  case True
  then obtain p where p: "programs rt (key_of_ref (d_program d)) = Some p" "reference p = d_program d" "in_flight_requests p \<noteq> 0"
    "snd (complete_request rt d usage) = rt\<lparr>programs := (programs rt)(key_of_ref (d_program d) \<mapsto> completed rt p d usage)\<rparr>"
    by (cases "programs rt (key_of_ref (d_program d))")
      (simp_all add: complete_request_def completed_def Let_def split: if_splits)
  have "rp_status p \<noteq> Acting" using rt_wfD(3) [OF wf p(1)] p(3) by auto
  then have "program_wf (request_pool rt) (key_of_ref (d_program d)) (completed rt p d usage)"
    using p(2) rt_wfD(2) [OF wf p(1)] by (auto simp: program_wf_def completed_def Let_def)
  moreover have "reference (completed rt p d usage) = d_program d" using p(2) by (simp add: completed_def Let_def)
  ultimately show ?thesis unfolding p(4) by (intro rt_wf_upd [OF wf]) (use p(1,2) in auto)
qed

lemma release_idle_wf:
  assumes wf: "rt_wf rt"
  shows "rt_wf (snd (release_idle rt p now))"
proof -
  let ?rt = "snd (release_idle rt p now)"
  have "?rt = rt \<or> (programs ?rt = (programs rt)(key_of_ref p := None) \<and> request_pool ?rt = request_pool rt \<and>
      program_len (request_pool rt) p = 0 \<and> (\<exists>q. programs rt (key_of_ref p) = Some q \<and> reference q = p))"
    by (auto simp: release_idle_def split: option.splits)
  then show ?thesis
  proof (elim disjE conjE exE)
    fix q
    assume R: "programs ?rt = (programs rt)(key_of_ref p := None)" "request_pool ?rt = request_pool rt"
      "program_len (request_pool rt) p = 0" "programs rt (key_of_ref p) = Some q" "reference q = p"
    have "\<exists>q'. programs ?rt (key_of_ref r) = Some q' \<and> reference q' = r" if len: "program_len (request_pool rt) r \<noteq> 0" for r
    proof -
      from rt_wfD(4) [OF wf len] obtain q' where q': "programs rt (key_of_ref r) = Some q'" "reference q' = r" by blast
      have "r \<noteq> p" using R(3) len by auto
      then have "key_of_ref r \<noteq> key_of_ref p" using q' R(4,5) by (metis option.inject)
      then show ?thesis using q' R(1) by simp
    qed
    moreover have "programs rt k = Some q'" if "programs ?rt k = Some q'" for k q'
      using that R(1) by (simp split: if_splits)
    moreover have "finite (dom (programs ?rt))" using rt_wfD(5) [OF wf] R(1) by simp
    ultimately show ?thesis using wf unfolding rt_wf_def R(2) by blast
  qed (use wf in simp)
qed

lemma pool_cancel_len:
  assumes "pool_cancel pool h = Some (w, pool')"
  shows "program_len pool' r \<le> program_len pool r" "r \<noteq> h_program h \<Longrightarrow> program_len pool' r = program_len pool r"
    "program_len pool (h_program h) \<noteq> 0"
proof -
  obtain q i where q: "requests pool (h_program h) = Some q" "position (\<lambda>r. pr_id r = h_request_id h) q = Some i"
    and pool': "pool' = put_queue pool (h_program h) (take i q @ drop (Suc i) q)"
    using assms by (auto simp: pool_cancel_def split: option.splits)
  have i: "i < length q" using position_SomeD [OF q(2)] by blast
  show "program_len pool' r \<le> program_len pool r" "r \<noteq> h_program h \<Longrightarrow> program_len pool' r = program_len pool r"
    "program_len pool (h_program h) \<noteq> 0"
    using i q(1) by (auto simp: pool' program_len_def [of pool])
qed

lemma cancel_request_wf:
  assumes wf: "rt_wf rt"
  shows "rt_wf (snd (cancel_request rt h))"
proof (cases "pool_cancel (request_pool rt) h")
  case (Some c)
  obtain w pool where c: "c = (w, pool)" by (cases c)
  note len = pool_cancel_len [OF Some [unfolded c]]
  let ?pool = "if w then notify_front pool (h_program h) else pool"
  have plen: "program_len ?pool r = program_len pool r" for r by simp
  obtain p where p: "programs rt (key_of_ref (h_program h)) = Some p" "reference p = h_program h"
    using rt_wfD(4) [OF wf len(3)] by blast
  define p' where "p' = (if in_flight_requests p = 0 \<and> program_len ?pool (h_program h) = 0
    then p\<lparr>rp_status := Acting, rp_state := Paused, placement := None\<rparr> else p)"
  have paused: "rp_state p \<noteq> Active \<Longrightarrow> p\<lparr>rp_status := Acting, rp_state := Paused, placement := None\<rparr> = p\<lparr>rp_status := Acting\<rparr>"
    using rt_wfD(2) [OF wf p(1)] by (cases p; cases "rp_state p") auto
  have eq: "snd (cancel_request rt h) = rt\<lparr>request_pool := ?pool, programs := (programs rt)(key_of_ref (h_program h) \<mapsto> p')\<rparr>"
    using Some c p paused by (auto simp: cancel_request_def p'_def Let_def fun_upd_idem)
  show ?thesis unfolding eq
  proof (rule rt_wf_upd [OF wf])
    have "rp_status p = Acting \<longrightarrow> program_len pool (h_program h) = 0 \<and> in_flight_requests p = 0"
      using rt_wfD(3) [OF wf p(1)] p(2) len(1) [of "h_program h"] by auto
    then show "program_wf (request_pool (rt\<lparr>request_pool := ?pool, programs := (programs rt)(key_of_ref (h_program h) \<mapsto> p')\<rparr>))
        (key_of_ref (h_program h)) p'"
      using p rt_wfD(2) [OF wf p(1)] by (auto simp: p'_def program_wf_def plen)
  qed (use p len(1) in \<open>auto simp: p'_def\<close>)
qed (simp add: cancel_request_def wf)

lemma rt_step_wf:
  assumes "rt_step s s'" "rt_wf (fst s)"
  shows "rt_wf (fst s')"
  using assms
proof (induction rule: rt_step.induct)
  case (Retain rt outs identity tokens routing_text now)
  then show ?case using retain_request_wf(1) [of rt identity tokens routing_text now] by (metis fst_conv surjective_pairing)
next
  case (Prune rt outs now retention)
  then show ?case by (auto simp: prune_released_generations_def intro: rt_wf_same)
next
  case (Notify rt outs p)
  then show ?case by (auto simp: notify_program_def intro: rt_wf_same)
qed (simp_all add: admit_front_wf pause_idle_wf activate_wf invalidate_wf complete_request_wf release_idle_wf cancel_request_wf)

section \<open>A concrete run\<close>

definition no_hints :: program_request_hints where
  "no_hints = \<lparr>hint_request_id = None, priority = 0, deadline = None, expected_output_tokens = None, kv_retention_ttl = None\<rparr>"

definition sample_identity :: program_identity where
  "sample_identity = \<lparr>id_model_pool = ''m'', id_program_id = ''p'', placement_hash_key = [], placement_key = [],
     expected_resume = True, task_id = None, session_id = None, agent_id = None, parent_program_id = None,
     root_program_id = None, blocks_parent = False, agent_role = None, spawn_reason = None, step_id = None,
     request_hints = no_hints\<rparr>"

definition sample_handle :: program_request_handle where
  "sample_handle = \<lparr>h_program = \<lparr>model_pool = ''m'', program_id = ''p'', generation = 0\<rparr>, h_request_id = 1\<rparr>"

definition sample_waiting :: program_runtime where
  "sample_waiting = snd (retain_request empty_runtime sample_identity 100 None 5)"

definition sample_running :: program_runtime where
  "sample_running = snd (admit_front sample_waiting sample_handle ''t0'' 7)"

definition sample_dispatch :: program_dispatch where
  "sample_dispatch = the (fst (admit_front sample_waiting sample_handle ''t0'' 7))"

lemma sample_admit: "admit_front sample_waiting sample_handle ''t0'' 7 = (Some sample_dispatch, sample_running)"
proof -
  have "fst (admit_front sample_waiting sample_handle ''t0'' 7) \<noteq> None"
    by (simp add: admit_front_def sample_waiting_def sample_handle_def sample_identity_def retain_request_def empty_runtime_def
        pool_retain_def empty_pool_def take_front_def key_of_identity_def key_of_ref_def queue_of_def Let_def)
  then show ?thesis by (simp add: sample_running_def sample_dispatch_def prod_eq_iff)
qed

lemma sample_waiting_reach: "rt_reach 1 (sample_waiting, [])"
  using rt_reach.Step [OF rt_reach.Start _ rt_step.Retain] by (simp add: sample_waiting_def)

lemma sample_running_reach: "rt_reach 2 (sample_running, [sample_dispatch])"
proof -
  have "rt_reach (Suc 1) (sample_running, [sample_dispatch])"
    by (rule rt_reach.Step [OF sample_waiting_reach _ rt_step.Admit [OF sample_admit]]) simp
  then show ?thesis by (simp only: Suc_1)
qed

lemma sample_program:
  "\<exists>p. programs sample_running (''m'', ''p'') = Some p \<and> reference p = h_program sample_handle \<and>
     placement p = Some ''t0'' \<and> in_flight_requests p = 1 \<and> placement_epoch p = 1 \<and>
     program_len (request_pool sample_running) (h_program sample_handle) = 0"
  by (simp add: sample_running_def admit_front_def sample_waiting_def sample_handle_def sample_identity_def retain_request_def
      empty_runtime_def pool_retain_def empty_pool_def take_front_def key_of_identity_def key_of_ref_def queue_of_def Let_def
      put_queue_def notify_front_def program_len_def saturating_inc_def)

lemma sample_dispatch_fields: "d_program sample_dispatch = h_program sample_handle" "d_placement_epoch sample_dispatch = 1"
  by (simp_all add: sample_dispatch_def admit_front_def sample_waiting_def sample_handle_def sample_identity_def
      retain_request_def empty_runtime_def pool_retain_def empty_pool_def take_front_def key_of_identity_def key_of_ref_def
      queue_of_def Let_def saturating_inc_def)

lemma sample_key: "key_of_ref (h_program sample_handle) = (''m'', ''p'')"
  by (simp add: sample_handle_def key_of_ref_def)

section \<open>Properties\<close>

text \<open>C5: Lifecycle invariant of program scheduling.  In every reachable state a program is
  active exactly when it has a placement, its counter of requests in flight is the number of
  outstanding dispatches of its current placement, a paused program has none, a program that
  acts between requests has neither a request in flight nor one waiting, and the number of
  retained requests is the sum over the queues.\<close>

theorem runtime_lifecycle:
  assumes "rt_reach n (rt, outs)" and "programs rt key = Some p"
  shows "(rp_state p = Active \<longleftrightarrow> placement p \<noteq> None) \<and>
    in_flight_requests p =
      length (filter (\<lambda>d. d_program d = reference p \<and> d_placement_epoch d = placement_epoch p) outs) \<and>
    (rp_state p = Paused \<longrightarrow> in_flight_requests p = 0) \<and>
    (rp_status p = Acting \<longrightarrow> in_flight_requests p = 0 \<and> program_len (request_pool rt) (reference p) = 0) \<and>
    retained_request_count (request_pool rt) =
      (\<Sum>r\<in>dom (requests (request_pool rt)). program_len (request_pool rt) r)"
proof -
  have ok: "runtime_ok n (rt, outs)" by (rule rt_reach_ok [OF assms(1)])
  have "retained_request_count (request_pool rt) = (\<Sum>r\<in>dom (requests (request_pool rt)). program_len (request_pool rt) r)"
    using pool_okD(2) [OF runtime_okD(1) [OF ok]] by (simp add: pool_total_def program_len_queue)
  then show ?thesis using program_okD [OF runtime_okD(2) [OF ok assms(2)]] by (simp add: current_dispatches_def)
qed

theorem runtime_lifecycle_witness:
  "\<exists>rt outs p. rt_reach 2 (rt, outs) \<and> programs rt (''m'', ''p'') = Some p \<and>
     in_flight_requests p = length (filter (\<lambda>d. d_program d = reference p \<and> d_placement_epoch d = placement_epoch p) outs) \<and>
     in_flight_requests p = 1"
  using runtime_lifecycle [OF sample_running_reach] sample_program sample_running_reach by blast

text \<open>C14: Completions are fenced exactly.  In every reachable state an outstanding dispatch is
  accepted if and only if its program generation is live and still placed as it was when the
  request was admitted; a stale one changes nothing.  This holds although generation numbers
  restart once their history has been pruned.\<close>

theorem completion_fenced:
  assumes "rt_reach n (rt, outs)" and "d \<in> set outs"
  shows "(fst (complete_request rt d usage) \<longleftrightarrow>
      (\<exists>p. programs rt (key_of_ref (d_program d)) = Some p \<and> reference p = d_program d \<and>
           placement_epoch p = d_placement_epoch d)) \<and>
    (\<not> fst (complete_request rt d usage) \<longrightarrow> snd (complete_request rt d usage) = rt)"
proof (cases "is_current rt d")
  case False
  then show ?thesis using complete_stale [OF False, of usage] by (simp add: is_current_def)
next
  case True
  then obtain p where "complete_request rt d usage =
       (True, rt\<lparr>programs := (programs rt)(key_of_ref (d_program d) \<mapsto> completed rt p d usage)\<rparr>)"
    by (rule complete_current [OF rt_reach_ok [OF assms(1)] assms(2)])
  then show ?thesis using True by (simp add: is_current_def)
qed

theorem completion_fenced_witness:
  "fst (complete_request sample_running sample_dispatch
     \<lparr>prompt_tokens = Some 120, completion_tokens = None, cached_prompt_tokens = None\<rparr>)"
  using completion_fenced [OF sample_running_reach, of sample_dispatch] sample_program sample_key sample_dispatch_fields
  by auto

text \<open>Requests of a program are dispatched in the order they arrived.  A successful
  admission takes the request with the smallest identifier of the program's queue, leaves the
  others in order, and notifies the one that is now in front.\<close>

theorem admission_is_fifo:
  assumes "rt_reach n (rt, outs)" and "admit_front rt h target_id now = (Some d, rt')"
  shows "\<exists>r q. queue_of (request_pool rt) (h_program h) = r # q \<and> pr_id r = h_request_id h \<and>
    (\<forall>x\<in>set q. pr_id r < pr_id x) \<and> d_request_arrived_at d = pr_arrived_at r \<and>
    map pr_id (queue_of (request_pool rt') (h_program h)) = map pr_id q \<and>
    (q \<noteq> [] \<longrightarrow> pr_notified (hd (queue_of (request_pool rt') (h_program h))))"
proof -
  have ok: "runtime_ok n (rt, outs)" by (rule rt_reach_ok [OF assms(1)])
  obtain p where adm: "admissible rt h target_id p" using assms(2) admit_front_reject [of rt h target_id now] by fastforce
  obtain r pool where tf: "take_front (request_pool rt) h = Some (r, pool)" and d: "d = dispatch_of rt p target_id now r"
    and pool: "request_pool rt' = notify_front pool (h_program h)"
    using assms(2) unfolding admit_front_eq [OF adm] by (auto split: option.splits)
  note T = take_front_ok [OF runtime_okD(1) [OF ok] tf]
  let ?q = "queue_of pool (h_program h)"
  have "sorted_wrt (<) (map pr_id (r # ?q))" using pool_okD(4) [OF runtime_okD(1) [OF ok], of "h_program h"] T by simp
  moreover have "pr_notified (hd (queue_of (request_pool rt') (h_program h)))" if "?q \<noteq> []"
    using that by (cases ?q) (simp_all add: pool queue_notify)
  ultimately show ?thesis using T d pool by (auto simp: dispatch_of_def intro!: exI [of _ r] exI [of _ ?q])
qed

theorem admission_is_fifo_witness:
  "\<exists>r q. queue_of (request_pool sample_waiting) (h_program sample_handle) = r # q \<and> pr_id r = h_request_id sample_handle"
  using admission_is_fifo [OF sample_waiting_reach sample_admit] by blast

text \<open>Error: losing a target strands its programs.  When the target of a program with a
  request in flight and none waiting disappears, the program is left paused but still
  reasoning with nothing in flight and nothing waiting, and the completion of the outstanding
  request does not change that.  The release of programs that stay paused asks for a
  program that acts.\<close>

theorem lost_target_strands_program:
  assumes "rt_reach n (rt, outs)" and "programs rt (key_of_ref p) = Some q" and "reference q = p"
    and "placement q = Some t" and "t \<in> set removed" and "0 < in_flight_requests q"
    and "program_len (request_pool rt) p = 0" and "n < 2 ^ 64 - 1"
    and "rt' = snd (invalidate_placement rt p removed)" and "d \<in> set outs"
  shows "view rt' p = Some \<lparr>v_state = Paused, v_status = Reasoning, v_placement = None, v_in_flight_requests = 0,
      v_waiting_requests = 0\<rparr> \<and>
    view (snd (complete_request rt' d usage)) p = view rt' p"
proof -
  have ok: "runtime_ok n (rt, outs)" by (rule rt_reach_ok [OF assms(1)])
  let ?e = "Suc (next_placement_epoch rt)"
  let ?q = "q\<lparr>rp_state := Paused, placement := None, placement_epoch := ?e,
     placement_start_request_pending := False, in_flight_requests := 0\<rparr>"
  have rt': "rt' = rt\<lparr>next_placement_epoch := ?e, programs := (programs rt)(key_of_ref p \<mapsto> ?q)\<rparr>"
    using assms next_epoch(1) [OF ok assms(8)] by (simp add: invalidate_placement_def Let_def)
  have "rp_status q = Reasoning"
    using program_okD(4) [OF runtime_okD(2) [OF ok assms(2)]] assms(6) by (cases "rp_status q") auto
  then have v: "view rt' p = Some \<lparr>v_state = Paused, v_status = Reasoning, v_placement = None,
      v_in_flight_requests = 0, v_waiting_requests = 0\<rparr>"
    using assms(3,7) by (simp add: view_def rt')
  show ?thesis
  proof (cases "d_program d = p")
    case True
    have "d_placement_epoch d \<noteq> ?e" using runtime_okD(4) [OF ok assms(10)] by simp
    then have "\<not> is_current rt' d" using True by (simp add: is_current_def rt')
    then show ?thesis using v complete_stale [of rt' d usage] by simp
  next
    case False
    have "view (snd (complete_request rt' d usage)) p = view rt' p"
    proof (cases "key_of_ref (d_program d) = key_of_ref p")
      case True
      then have "\<not> is_current rt' d" using False assms(3) by (simp add: is_current_def rt')
      then show ?thesis using complete_stale [of rt' d usage] by simp
    next
      case other: False
      then show ?thesis by (auto simp: complete_request_def view_def Let_def split: option.splits)
    qed
    then show ?thesis using v by simp
  qed
qed

theorem lost_target_strands_program_witness:
  "view (snd (invalidate_placement sample_running (h_program sample_handle) [''t0''])) (h_program sample_handle) =
     Some \<lparr>v_state = Paused, v_status = Reasoning, v_placement = None, v_in_flight_requests = 0, v_waiting_requests = 0\<rparr>"
proof -
  from sample_program obtain p where p: "programs sample_running (key_of_ref (h_program sample_handle)) = Some p"
    "reference p = h_program sample_handle" "placement p = Some ''t0''" "0 < in_flight_requests p"
    "program_len (request_pool sample_running) (h_program sample_handle) = 0" unfolding sample_key by auto
  show ?thesis
    using lost_target_strands_program [OF sample_running_reach p(1,2,3) _ p(4,5) _ refl, of "[''t0'']" sample_dispatch] by simp
qed

text \<open>Error: a failed admission can leave a program active.  Admitting a request that is
  not the front of its queue returns nothing, but a paused program has then been made active
  on the target, under a new epoch and with no request in flight.\<close>

theorem failed_admission_activates:
  assumes "programs rt (key_of_ref (h_program h)) = Some p" and "reference p = h_program h"
    and "rp_state p = Paused" and "in_flight_requests p = 0" and "take_front (request_pool rt) h = None"
  shows "\<exists>rt' q. admit_front rt h target_id now = (None, rt') \<and> programs rt' (key_of_ref (h_program h)) = Some q \<and>
    rp_state q = Active \<and> placement q = Some target_id \<and> in_flight_requests q = 0 \<and>
    placement_epoch q = saturating_inc (next_placement_epoch rt)"
proof -
  have "admissible rt h target_id p" using assms(1-3) by (simp add: admissible_def)
  from admit_front_eq [OF this, of now] show ?thesis
    using assms(3-5) by (simp add: admit_program_def admit_epoch_def)
qed

theorem failed_admission_activates_witness:
  "\<exists>rt'. admit_front sample_waiting (sample_handle\<lparr>h_request_id := 9\<rparr>) ''t0'' 7 = (None, rt')"
proof -
  let ?h = "sample_handle\<lparr>h_request_id := 9\<rparr>"
  have "\<exists>p. programs sample_waiting (key_of_ref (h_program ?h)) = Some p \<and> reference p = h_program ?h \<and>
      rp_state p = Paused \<and> in_flight_requests p = 0 \<and> take_front (request_pool sample_waiting) ?h = None"
    by (simp add: sample_waiting_def sample_handle_def sample_identity_def retain_request_def
      empty_runtime_def pool_retain_def empty_pool_def take_front_def key_of_identity_def key_of_ref_def queue_of_def Let_def)
  then show ?thesis using failed_admission_activates [of sample_waiting ?h] by blast
qed

end
