(* ===== verification/Program_Binding.thy ===== *)
theory Program_Binding
  imports Program_Runtime Hash_Policies Cache_Aware "HOL-Library.Product_Lexorder"
begin

text \<open>
  The home target of a program, \<^verbatim>\<open>program_scheduling/binding/mod.rs\<close>: the table of bindings and the
  five strategies that choose a target for a new program.  The strategies are the constructors of
  \<open>binding_policy\<close>, which carry their state; the cache-aware one is the policy of theory
  \<open>Cache_Aware\<close>, and the ring is the one of theory \<open>Hash_Policies\<close> with a configurable number of
  virtual nodes and one ring per model pool.

  The balance of reasoning tokens needs a capacity and panics without one, which is the left
  side of the result.

  Shown: a program is bound to one of its candidates and is bound whenever there is one; the
  choice does not depend on the order of the candidates; a binding is kept while its target is
  live, whatever else is bound, committed or removed; and every strategy keeps its contract.
\<close>

section \<open>Values\<close>

datatype program_binding_strategy =
  Consistent_Hash | Program_Round_Robin | Least_Program_Count | Reasoning_Token_Balance | Cache_Affinity

record program_binding_candidate =
  bc_target_id :: str
  accounted_programs :: nat
  accounted_tokens :: real
  capacity_tokens :: "nat option"
  bc_kv_pressure :: real
  immediately_admissible :: bool

type_synonym hash_rings = "str \<rightharpoonup> str list \<times> (u64 \<times> str) list"

datatype binding_policy =
  Consistent_Hash_Binding nat hash_rings
| Round_Robin_Binding "str \<rightharpoonup> usize"
| Least_Program_Count_Binding
| Reasoning_Token_Balance_Binding
| Cache_Aware_Binding cache_aware

datatype binding_panic = Capacity_Required

record program_bindings =
  binding_policy :: binding_policy
  bindings :: "runtime_key \<rightharpoonup> str"

fun policy_of_strategy :: "program_binding_strategy \<Rightarrow> nat \<Rightarrow> binding_policy" where
  "policy_of_strategy Consistent_Hash vnodes = Consistent_Hash_Binding vnodes Map.empty"
| "policy_of_strategy Program_Round_Robin vnodes = Round_Robin_Binding Map.empty"
| "policy_of_strategy Least_Program_Count vnodes = Least_Program_Count_Binding"
| "policy_of_strategy Reasoning_Token_Balance vnodes = Reasoning_Token_Balance_Binding"
| "policy_of_strategy Cache_Affinity vnodes = Cache_Aware_Binding (ca_with_config default_cache_aware_config)"

definition new_bindings :: "program_binding_strategy \<Rightarrow> nat \<Rightarrow> program_bindings" where
  "new_bindings strategy vnodes = \<lparr>binding_policy = policy_of_strategy strategy vnodes, bindings = Map.empty\<rparr>"

section \<open>Strategies\<close>

definition binding_ring :: "nat \<Rightarrow> str list \<Rightarrow> (u64 \<times> str) list" where
  "binding_ring vnodes targets =
     fold (\<lambda>t ring. fold (\<lambda>i r. bt_insert (fbi_hash (t @ '':'' @ show_nat i)) t r) [0..<vnodes] ring) targets []"

definition ring_for :: "nat \<Rightarrow> hash_rings \<Rightarrow> str \<Rightarrow> str list \<Rightarrow> (u64 \<times> str) list \<times> hash_rings" where
  "ring_for vnodes rings pool targets =
     (case rings pool of
        Some (current, ring) \<Rightarrow>
          if current = targets then (ring, rings)
          else (binding_ring vnodes targets, rings(pool \<mapsto> (targets, binding_ring vnodes targets)))
      | None \<Rightarrow> (binding_ring vnodes targets, rings(pool \<mapsto> (targets, binding_ring vnodes targets))))"

definition ch_binding_select :: "nat \<Rightarrow> hash_rings \<Rightarrow> program_identity \<Rightarrow> program_binding_candidate list \<Rightarrow>
    str option \<times> hash_rings" where
  "ch_binding_select vnodes rings identity cs =
     (let (ring, rings') = ring_for vnodes rings (id_model_pool identity) (map bc_target_id cs) in
      if ring = [] then (None, rings')
      else
        let hash = fbi_hash (placement_hash_key identity)
        in (map_option snd
              (case List.find (\<lambda>e. hash \<le> fst e) ring of Some e \<Rightarrow> Some e | None \<Rightarrow> Some (hd ring)), rings'))"

definition rr_binding_select :: "(str \<rightharpoonup> usize) \<Rightarrow> program_identity \<Rightarrow> program_binding_candidate list \<Rightarrow>
    str option \<times> (str \<rightharpoonup> usize)" where
  "rr_binding_select next_by_model identity cs =
     (if cs = [] then (None, next_by_model)
      else
        let nxt = (case next_by_model (id_model_pool identity) of Some n \<Rightarrow> n | None \<Rightarrow> 0)
        in (Some (bc_target_id (cs ! (unat nxt mod length cs))), next_by_model(id_model_pool identity \<mapsto> nxt + 1)))"

definition lp_binding_select :: "program_binding_candidate list \<Rightarrow> str option" where
  "lp_binding_select cs = map_option bc_target_id (min_by_key (\<lambda>c. (accounted_programs c, bc_target_id c)) cs)"

definition remaining_tokens :: "program_binding_candidate \<Rightarrow> real" where
  "remaining_tokens c = real (the (capacity_tokens c)) - accounted_tokens c"

definition tb_binding_select :: "program_binding_candidate list \<Rightarrow> binding_panic + str option" where
  "tb_binding_select cs =
     (if \<exists>c\<in>set cs. capacity_tokens c = None then Inl Capacity_Required
      else Inr (map_option bc_target_id
                 (max_by (by_key remaining_tokens (\<lambda>l r. bc_target_id r \<le> bc_target_id l)) cs)))"

definition ca_binding_select :: "cache_aware \<Rightarrow> program_identity \<Rightarrow> program_binding_candidate list \<Rightarrow> str option \<Rightarrow> str option" where
  "ca_binding_select affinity identity cs routing_text =
     (let eligible = filter immediately_admissible cs;
          cs' = map (\<lambda>c. \<lparr>target_id = bc_target_id c, kv_pressure = bc_kv_pressure c\<rparr>) (if eligible = [] then cs else eligible)
      in map_option placement_target
           (evaluate_initial_placement affinity (id_model_pool identity)
              (case routing_text of Some t \<Rightarrow> t | None \<Rightarrow> []) cs'))"

fun policy_select :: "binding_policy \<Rightarrow> program_identity \<Rightarrow> program_binding_candidate list \<Rightarrow> str option \<Rightarrow>
    binding_panic + str option \<times> binding_policy" where
  "policy_select (Consistent_Hash_Binding vnodes rings) identity cs routing_text =
     (let (t, rings') = ch_binding_select vnodes rings identity cs in Inr (t, Consistent_Hash_Binding vnodes rings'))"
| "policy_select (Round_Robin_Binding nexts) identity cs routing_text =
     (let (t, nexts') = rr_binding_select nexts identity cs in Inr (t, Round_Robin_Binding nexts'))"
| "policy_select Least_Program_Count_Binding identity cs routing_text =
     Inr (lp_binding_select cs, Least_Program_Count_Binding)"
| "policy_select Reasoning_Token_Balance_Binding identity cs routing_text =
     (case tb_binding_select cs of Inl e \<Rightarrow> Inl e | Inr t \<Rightarrow> Inr (t, Reasoning_Token_Balance_Binding))"
| "policy_select (Cache_Aware_Binding affinity) identity cs routing_text =
     Inr (ca_binding_select affinity identity cs routing_text, Cache_Aware_Binding affinity)"

text \<open>What a strategy learns of placements and lost targets; \<open>epoch\<close> is the timestamp the tree takes.\<close>

fun policy_commit :: "u64 \<Rightarrow> binding_policy \<Rightarrow> str \<Rightarrow> str \<Rightarrow> str \<Rightarrow> binding_policy" where
  "policy_commit epoch (Cache_Aware_Binding affinity) pool body t = Cache_Aware_Binding (commit_placement epoch pool body t affinity)"
| "policy_commit epoch p pool body t = p"

fun policy_remove_target :: "binding_policy \<Rightarrow> str \<Rightarrow> str \<Rightarrow> binding_policy" where
  "policy_remove_target (Cache_Aware_Binding affinity) pool t = Cache_Aware_Binding (remove_placement_target pool t affinity)"
| "policy_remove_target p pool t = p"

section \<open>The table of bindings\<close>

definition bind :: "program_bindings \<Rightarrow> program_identity \<Rightarrow> program_binding_candidate list \<Rightarrow> str option \<Rightarrow>
    binding_panic + str option \<times> program_bindings" where
  "bind b identity cs routing_text =
     (let key = key_of_identity identity in
      case bindings b key of
        Some t \<Rightarrow>
          if t \<in> bc_target_id ` set cs then Inr (Some t, b)
          else
            (case policy_select (binding_policy b) identity (sort_key bc_target_id cs) routing_text of
               Inl e \<Rightarrow> Inl e
             | Inr (None, p) \<Rightarrow> Inr (None, b\<lparr>binding_policy := p\<rparr>)
             | Inr (Some t', p) \<Rightarrow> Inr (Some t', b\<lparr>binding_policy := p, bindings := (bindings b)(key \<mapsto> t')\<rparr>))
      | None \<Rightarrow>
          (case policy_select (binding_policy b) identity (sort_key bc_target_id cs) routing_text of
             Inl e \<Rightarrow> Inl e
           | Inr (None, p) \<Rightarrow> Inr (None, b\<lparr>binding_policy := p\<rparr>)
           | Inr (Some t', p) \<Rightarrow> Inr (Some t', b\<lparr>binding_policy := p, bindings := (bindings b)(key \<mapsto> t')\<rparr>)))"

definition binding :: "program_bindings \<Rightarrow> program_identity \<Rightarrow> str option" where
  "binding b identity = bindings b (key_of_identity identity)"

definition release_binding :: "program_bindings \<Rightarrow> program_identity \<Rightarrow> str option \<times> program_bindings" where
  "release_binding b identity =
     (bindings b (key_of_identity identity), b\<lparr>bindings := (bindings b)(key_of_identity identity := None)\<rparr>)"

definition release_program_binding :: "program_bindings \<Rightarrow> program_ref \<Rightarrow> str option \<times> program_bindings" where
  "release_program_binding b p =
     (bindings b (key_of_ref p), b\<lparr>bindings := (bindings b)(key_of_ref p := None)\<rparr>)"

text \<open>The bindings that stay when a target is removed; their number is not used by any caller.\<close>

definition remove_bound_target :: "program_bindings \<Rightarrow> str \<Rightarrow> program_bindings" where
  "remove_bound_target b t = b\<lparr>bindings := (\<lambda>k. if bindings b k = Some t then None else bindings b k)\<rparr>"

definition bindings_commit :: "u64 \<Rightarrow> program_bindings \<Rightarrow> program_ref \<Rightarrow> str \<Rightarrow> str \<Rightarrow> program_bindings" where
  "bindings_commit epoch b p body t = b\<lparr>binding_policy := policy_commit epoch (binding_policy b) (model_pool p) body t\<rparr>"

definition remove_affinity_target :: "program_bindings \<Rightarrow> str \<Rightarrow> str \<Rightarrow> program_bindings" where
  "remove_affinity_target b pool t = b\<lparr>binding_policy := policy_remove_target (binding_policy b) pool t\<rparr>"

section \<open>Reachable tables\<close>

datatype binding_op =
  Bind program_identity "program_binding_candidate list" "str option"
| Release program_identity
| Release_Program program_ref
| Remove_Target str
| Commit u64 program_ref str str
| Remove_Affinity str str

fun binding_step :: "binding_op \<Rightarrow> program_bindings \<Rightarrow> program_bindings" where
  "binding_step (Bind identity cs routing_text) b =
     (case bind b identity cs routing_text of Inl e \<Rightarrow> b | Inr (t, b') \<Rightarrow> b')"
| "binding_step (Release identity) b = snd (release_binding b identity)"
| "binding_step (Release_Program p) b = snd (release_program_binding b p)"
| "binding_step (Remove_Target t) b = remove_bound_target b t"
| "binding_step (Commit epoch p body t) b = bindings_commit epoch b p body t"
| "binding_step (Remove_Affinity pool t) b = remove_affinity_target b pool t"

text \<open>The rings a policy keeps are the rings of the targets they are kept for.\<close>

fun policy_ok :: "binding_policy \<Rightarrow> bool" where
  "policy_ok (Consistent_Hash_Binding vnodes rings) \<longleftrightarrow>
     (\<forall>pool targets ring. rings pool = Some (targets, ring) \<longrightarrow> ring = binding_ring vnodes targets)"
| "policy_ok _ \<longleftrightarrow> True"

text \<open>A policy can choose: it has virtual nodes, and the capacity is known where it is needed.\<close>

fun policy_usable :: "binding_policy \<Rightarrow> program_binding_candidate list \<Rightarrow> bool" where
  "policy_usable (Consistent_Hash_Binding vnodes rings) cs \<longleftrightarrow> 0 < vnodes"
| "policy_usable Reasoning_Token_Balance_Binding cs \<longleftrightarrow> (\<forall>c\<in>set cs. capacity_tokens c \<noteq> None)"
| "policy_usable _ cs \<longleftrightarrow> True"

lemma fold_insert_ring:
  assumes "snd ` set r \<subseteq> T" "t \<in> T"
  shows "snd ` set (fold (\<lambda>i r. bt_insert (f i) t r) is r) \<subseteq> T"
  using assms(1)
proof (induction "is" arbitrary: r)
  case (Cons i "is")
  have "snd ` set (bt_insert (f i) t r) \<subseteq> T" using set_bt_insert [of "f i" t r] Cons.prems assms(2) by fastforce
  then show ?case using Cons.IH by simp
qed simp

lemma binding_ring_targets: "snd ` set (binding_ring vnodes targets) \<subseteq> set targets"
proof -
  let ?g = "\<lambda>t ring. fold (\<lambda>i r. bt_insert (fbi_hash (t @ '':'' @ show_nat i)) t r) [0..<vnodes] ring"
  have "snd ` set (fold ?g ts r) \<subseteq> set ts \<union> snd ` set r" for ts r
  proof (induction ts arbitrary: r)
    case (Cons t ts)
    have "snd ` set (?g t r) \<subseteq> insert t (snd ` set r)" by (rule fold_insert_ring) auto
    moreover have "snd ` set (fold ?g ts (?g t r)) \<subseteq> set ts \<union> snd ` set (?g t r)" by (rule Cons.IH)
    ultimately have "snd ` set (fold ?g ts (?g t r)) \<subseteq> set ts \<union> insert t (snd ` set r)" by blast
    then show ?case by simp
  qed simp
  from this [of targets "[]"] show ?thesis by (simp add: binding_ring_def)
qed

lemma fold_insert_not_Nil: "r \<noteq> [] \<Longrightarrow> fold (\<lambda>i r. bt_insert (f i) t r) is r \<noteq> []"
  by (induction "is" arbitrary: r) auto

lemma binding_ring_not_Nil:
  assumes "0 < vnodes" "targets \<noteq> []"
  shows "binding_ring vnodes targets \<noteq> []"
proof -
  let ?g = "\<lambda>t ring. fold (\<lambda>i r. bt_insert (fbi_hash (t @ '':'' @ show_nat i)) t r) [0..<vnodes] ring"
  obtain t ts where ts: "targets = t # ts" using assms(2) by (cases targets) auto
  have vn: "[0..<vnodes] = 0 # [1..<vnodes]" using assms(1) by (simp add: upt_conv_Cons)
  have "?g t [] \<noteq> []" unfolding vn by (simp add: fold_insert_not_Nil del: bt_insert.simps)
  moreover have "r \<noteq> [] \<Longrightarrow> fold ?g ts r \<noteq> []" for ts r
    by (induction ts arbitrary: r) (auto simp: fold_insert_not_Nil)
  ultimately show ?thesis by (simp add: binding_ring_def ts)
qed

lemma ring_for_ok:
  assumes "policy_ok (Consistent_Hash_Binding vnodes rings)" "ring_for vnodes rings pool targets = (ring, rings')"
  shows "ring = binding_ring vnodes targets" "policy_ok (Consistent_Hash_Binding vnodes rings')"
  using assms by (auto simp: ring_for_def split: option.splits if_splits prod.splits)

section \<open>Selection\<close>

lemma find_in: "List.find p xs = Some x \<Longrightarrow> x \<in> set xs"
  by (auto simp: find_Some_iff)

lemma ring_owner_in: "ring_owner h r = Some u \<Longrightarrow> u \<in> snd ` set r"
  by (cases "List.find (\<lambda>e. h \<le> fst e) r") (auto simp: ring_owner_def dest: find_in intro!: imageI split: if_splits)

lemma sort_key_eq_of_sets:
  assumes "distinct (map f xs)" "distinct (map f ys)" "set xs = set ys"
  shows "sort_key f xs = sort_key f ys"
proof (rule map_sorted_distinct_set_unique)
  show "inj_on f (set (sort_key f xs) \<union> set (sort_key f ys))" using assms by (simp add: distinct_map)
  show "distinct (map f (sort_key f xs))" "distinct (map f (sort_key f ys))" using assms by (simp_all add: distinct_map)
qed (simp_all add: assms(3))

lemma ring_owner_None: "ring_owner h r = None \<longleftrightarrow> r = []"
  by (auto simp: ring_owner_def split: option.splits)

lemma ch_binding_select_owner:
  assumes "policy_ok (Consistent_Hash_Binding vnodes rings)" "ch_binding_select vnodes rings identity cs = (t, rings')"
  shows "t = ring_owner (fbi_hash (placement_hash_key identity)) (binding_ring vnodes (map bc_target_id cs))"
    "policy_ok (Consistent_Hash_Binding vnodes rings')"
proof -
  obtain ring rings2 where R: "ring_for vnodes rings (id_model_pool identity) (map bc_target_id cs) = (ring, rings2)" by fastforce
  note ok = ring_for_ok [OF assms(1) R]
  have "rings' = rings2" "t = ring_owner (fbi_hash (placement_hash_key identity)) ring"
    using assms(2) R by (auto simp: ch_binding_select_def ring_owner_def Let_def split: if_splits)
  then show "t = ring_owner (fbi_hash (placement_hash_key identity)) (binding_ring vnodes (map bc_target_id cs))"
    "policy_ok (Consistent_Hash_Binding vnodes rings')"
    using ok by simp_all
qed

lemma binding_owner_in:
  "ring_owner h (binding_ring vnodes (map bc_target_id cs)) = Some u \<Longrightarrow> u \<in> bc_target_id ` set cs"
  "0 < vnodes \<Longrightarrow> cs \<noteq> [] \<Longrightarrow> ring_owner h (binding_ring vnodes (map bc_target_id cs)) \<noteq> None"
  using binding_ring_targets [of vnodes "map bc_target_id cs"] binding_ring_not_Nil [of vnodes "map bc_target_id cs"]
  by (auto simp: ring_owner_None dest!: ring_owner_in)

lemma tb_total: "by_key remaining_tokens (\<lambda>l r. bc_target_id r \<le> bc_target_id l) a b \<or>
    by_key remaining_tokens (\<lambda>l r. bc_target_id r \<le> bc_target_id l) b a"
  by (rule by_key_total) (rule linear)

lemma tb_trans:
  assumes "by_key remaining_tokens (\<lambda>l r. bc_target_id r \<le> bc_target_id l) a b"
    "by_key remaining_tokens (\<lambda>l r. bc_target_id r \<le> bc_target_id l) b c"
  shows "by_key remaining_tokens (\<lambda>l r. bc_target_id r \<le> bc_target_id l) a c"
  by (rule by_key_trans [OF _ assms]) (erule (1) order_trans [rotated])

lemma max_by_not_None: "xs \<noteq> [] \<Longrightarrow> \<exists>m. max_by le xs = Some m"
  by (cases xs) auto

lemma tb_binding_select_in:
  assumes "tb_binding_select cs = Inr t"
  shows "t = Some u \<Longrightarrow> \<exists>c\<in>set cs. u = bc_target_id c \<and> (\<forall>d\<in>set cs. remaining_tokens d \<le> remaining_tokens c)"
    "cs \<noteq> [] \<Longrightarrow> t \<noteq> None"
proof -
  let ?le = "by_key remaining_tokens (\<lambda>l r. bc_target_id r \<le> bc_target_id l)"
  have t: "t = map_option bc_target_id (max_by ?le cs)" using assms by (auto simp: tb_binding_select_def split: if_splits)
  show "\<exists>c\<in>set cs. u = bc_target_id c \<and> (\<forall>d\<in>set cs. remaining_tokens d \<le> remaining_tokens c)" if u: "t = Some u"
  proof -
    obtain c where c: "max_by ?le cs = Some c" "u = bc_target_id c" using u t by auto
    have "c \<in> set cs \<and> (\<forall>d\<in>set cs. ?le d c)" by (rule max_by_SomeD [OF tb_total tb_trans c(1)])
    then show ?thesis using c(2) by (auto dest: by_keyD(1))
  qed
  show "t \<noteq> None" if "cs \<noteq> []" using max_by_not_None [OF that, of ?le] t by auto
qed

lemma ca_binding_select_in:
  "ca_binding_select affinity identity cs routing_text = Some u \<Longrightarrow> u \<in> bc_target_id ` set cs"
  "cs \<noteq> [] \<Longrightarrow> ca_binding_select affinity identity cs routing_text \<noteq> None"
proof -
  let ?el = "if filter immediately_admissible cs = [] then cs else filter immediately_admissible cs"
  let ?cs = "map (\<lambda>c. \<lparr>target_id = bc_target_id c, kv_pressure = bc_kv_pressure c\<rparr>) ?el"
  let ?le = "placement_le affinity (id_model_pool identity) (case routing_text of Some t \<Rightarrow> t | None \<Rightarrow> [])"
  have eq: "ca_binding_select affinity identity cs routing_text = map_option target_id (max_by ?le ?cs)"
    by (simp add: ca_binding_select_def evaluate_initial_placement_def Let_def option.map_comp comp_def)
  show "u \<in> bc_target_id ` set cs" if u: "ca_binding_select affinity identity cs routing_text = Some u"
  proof -
    obtain m where m: "max_by ?le ?cs = Some m" "u = target_id m" using u eq by auto
    have "m \<in> set ?cs \<and> (\<forall>x\<in>set ?cs. ?le x m)"
      by (rule max_by_SomeD [OF placement_le_total _ m(1)]) (rule placement_le_trans)
    then show ?thesis using m(2) by (auto split: if_splits)
  qed
  show "ca_binding_select affinity identity cs routing_text \<noteq> None" if "cs \<noteq> []"
  proof -
    have "?cs \<noteq> []" using that by (simp add: filter_empty_conv)
    then show ?thesis using max_by_not_None [of ?cs ?le] eq by auto
  qed
qed

lemma policy_select_in:
  assumes "policy_ok p" "policy_select p identity cs routing_text = Inr (t, p')"
  shows "policy_ok p'" "t = Some u \<Longrightarrow> u \<in> bc_target_id ` set cs" "policy_usable p cs \<Longrightarrow> cs \<noteq> [] \<Longrightarrow> t \<noteq> None"
proof -
  have "policy_ok p' \<and> (\<forall>u. t = Some u \<longrightarrow> u \<in> bc_target_id ` set cs) \<and> (policy_usable p cs \<and> cs \<noteq> [] \<longrightarrow> t \<noteq> None)"
  proof (cases p)
    case (Consistent_Hash_Binding vnodes rings)
    then obtain rings' where S: "ch_binding_select vnodes rings identity cs = (t, rings')" "p' = Consistent_Hash_Binding vnodes rings'"
      using assms(2) by (auto split: prod.splits)
    have ok: "policy_ok (Consistent_Hash_Binding vnodes rings)" using assms(1) Consistent_Hash_Binding by simp
    note own = ch_binding_select_owner [OF ok S(1)]
    show ?thesis
      unfolding own(1) S(2) using own(2) binding_owner_in [where h = "fbi_hash (placement_hash_key identity)" and cs = cs and vnodes = vnodes]
      by (simp add: Consistent_Hash_Binding del: policy_ok.simps)
  next
    case (Round_Robin_Binding nexts)
    then show ?thesis using assms(2) by (auto simp: rr_binding_select_def Let_def split: if_splits)
  next
    case Least_Program_Count_Binding
    then show ?thesis using assms(2)
      by (cases "min_by_key (\<lambda>c. (accounted_programs c, bc_target_id c)) cs")
        (auto simp: lp_binding_select_def dest: min_by_key_SomeD)
  next
    case Reasoning_Token_Balance_Binding
    then have "tb_binding_select cs = Inr t" "p' = p" using assms(2) by (auto split: sum.splits)
    then show ?thesis using tb_binding_select_in [of cs t] assms(1) by blast
  next
    case (Cache_Aware_Binding affinity)
    then show ?thesis using assms(2) ca_binding_select_in [where affinity = affinity and identity = identity and cs = cs and routing_text = routing_text] by auto
  qed
  then show "policy_ok p'" "t = Some u \<Longrightarrow> u \<in> bc_target_id ` set cs" "policy_usable p cs \<Longrightarrow> cs \<noteq> [] \<Longrightarrow> t \<noteq> None"
    by blast+
qed

section \<open>The table\<close>

text \<open>Binding keeps a live binding and otherwise records the choice of the policy.\<close>

lemma bind_cases:
  assumes "bind b identity cs routing_text = Inr (t, b')"
  obtains (kept) u where "bindings b (key_of_identity identity) = Some u" "u \<in> bc_target_id ` set cs" "t = Some u" "b' = b"
  | (chosen) p where "policy_select (binding_policy b) identity (sort_key bc_target_id cs) routing_text = Inr (t, p)"
      "binding_policy b' = p"
      "bindings b' = (case t of None \<Rightarrow> bindings b | Some u \<Rightarrow> (bindings b)(key_of_identity identity \<mapsto> u))"
      "\<forall>u. bindings b (key_of_identity identity) = Some u \<longrightarrow> u \<notin> bc_target_id ` set cs"
  using assms unfolding bind_def Let_def
  by (cases "bindings b (key_of_identity identity)") (auto split: if_splits sum.splits option.splits)

lemma bind_in:
  assumes "policy_ok (binding_policy b)" "bind b identity cs routing_text = Inr (t, b')"
  shows "policy_ok (binding_policy b')" "t = Some u \<Longrightarrow> u \<in> bc_target_id ` set cs"
    "policy_usable (binding_policy b) cs \<Longrightarrow> cs \<noteq> [] \<Longrightarrow> t \<noteq> None"
proof -
  have us: "policy_usable p (sort_key bc_target_id cs) = policy_usable p cs" for p by (cases p) auto
  have ne: "cs \<noteq> [] \<Longrightarrow> sort_key bc_target_id cs \<noteq> []" by (metis length_0_conv length_sort)
  from assms(2) have "policy_ok (binding_policy b') \<and> (\<forall>u. t = Some u \<longrightarrow> u \<in> bc_target_id ` set cs) \<and>
    (policy_usable (binding_policy b) cs \<and> cs \<noteq> [] \<longrightarrow> t \<noteq> None)"
  proof (cases rule: bind_cases)
    case (chosen p)
    note sel = policy_select_in [OF assms(1) chosen(1), unfolded us set_sort]
    show ?thesis using sel chosen(2) ne by blast
  qed (use assms(1) in auto)
  then show "policy_ok (binding_policy b')" "t = Some u \<Longrightarrow> u \<in> bc_target_id ` set cs"
    "policy_usable (binding_policy b) cs \<Longrightarrow> cs \<noteq> [] \<Longrightarrow> t \<noteq> None"
    by blast+
qed

lemma policy_remove_ok: "policy_ok (policy_remove_target p pool t) = policy_ok p"
  by (cases p) auto

lemma policy_commit_ok: "policy_ok (policy_commit epoch p pool body t) = policy_ok p"
  by (cases p) auto

lemma new_bindings_ok: "policy_ok (binding_policy (new_bindings strategy vnodes))"
  by (cases strategy) (simp_all add: new_bindings_def)

lemma binding_step_ok:
  assumes "policy_ok (binding_policy b)"
  shows "policy_ok (binding_policy (binding_step op b))"
proof (cases op)
  case (Bind identity cs routing_text)
  then show ?thesis using assms bind_in(1) [OF assms, of identity cs routing_text] by (auto split: sum.split prod.split)
qed (use assms in \<open>simp_all add: release_binding_def release_program_binding_def remove_bound_target_def
      bindings_commit_def remove_affinity_target_def policy_remove_ok policy_commit_ok\<close>)

lemma fold_binding_ok: "policy_ok (binding_policy b) \<Longrightarrow> policy_ok (binding_policy (fold binding_step ops b))"
  by (induction ops arbitrary: b) (auto simp: binding_step_ok)

text \<open>The operations that may end the binding of a key to a target.\<close>

fun unbinds :: "runtime_key \<Rightarrow> str \<Rightarrow> binding_op \<Rightarrow> bool" where
  "unbinds key t (Bind identity cs routing_text) \<longleftrightarrow> key_of_identity identity = key \<and> t \<notin> bc_target_id ` set cs"
| "unbinds key t (Release identity) \<longleftrightarrow> key_of_identity identity = key"
| "unbinds key t (Release_Program p) \<longleftrightarrow> key_of_ref p = key"
| "unbinds key t (Remove_Target u) \<longleftrightarrow> u = t"
| "unbinds key t _ \<longleftrightarrow> False"

lemma binding_step_keeps:
  assumes "bindings b key = Some t" "\<not> unbinds key t op"
  shows "bindings (binding_step op b) key = Some t"
proof (cases op)
  case (Bind identity cs routing_text)
  show ?thesis
  proof (cases "bind b identity cs routing_text")
    case (Inr r)
    obtain u b' where r: "r = (u, b')" by (cases r)
    from Inr [unfolded r] have "bindings b' key = Some t"
    proof (cases rule: bind_cases)
      case (chosen p)
      then show ?thesis using assms Bind by (auto split: option.split)
    qed (simp add: assms)
    then show ?thesis using Bind Inr r by simp
  qed (use Bind assms in simp)
qed (use assms in \<open>auto simp: release_binding_def release_program_binding_def remove_bound_target_def
      bindings_commit_def remove_affinity_target_def\<close>)

section \<open>Properties\<close>

text \<open>C18: In every reachable table a program is bound to one of the candidates, and it is bound
  whenever there is a candidate, the ring has virtual nodes and the capacity is known to the
  strategy that needs it.  Equal sets of candidates are bound alike, in whatever order they come.\<close>

theorem bind_sound:
  assumes "b = fold binding_step ops (new_bindings strategy vnodes)"
    "strategy = Consistent_Hash \<longrightarrow> 0 < vnodes"
    "strategy = Reasoning_Token_Balance \<longrightarrow> (\<forall>c\<in>set cs. capacity_tokens c \<noteq> None)"
    "cs \<noteq> []" "distinct (map bc_target_id cs)" "set cs' = set cs" "distinct (map bc_target_id cs')"
  shows "\<exists>t b'. bind b identity cs routing_text = Inr (Some t, b') \<and> t \<in> bc_target_id ` set cs \<and>
     binding b' identity = Some t \<and> bind b identity cs' routing_text = Inr (Some t, b')"
proof -
  have ok: "policy_ok (binding_policy b)" unfolding assms(1) by (rule fold_binding_ok [OF new_bindings_ok])
  have shape: "policy_usable (binding_policy (binding_step op b)) cs = policy_usable (binding_policy b) cs \<and>
      (policy_select (binding_policy (binding_step op b)) i cs r = Inl e \<longleftrightarrow> policy_select (binding_policy b) i cs r = Inl e)"
    for op b i cs r e
    by (cases op; cases "binding_policy b")
      (auto simp: release_binding_def release_program_binding_def remove_bound_target_def bind_def Let_def
        bindings_commit_def remove_affinity_target_def split: sum.splits prod.splits option.splits)
  have fold: "policy_usable (binding_policy (fold binding_step ops b0)) cs = policy_usable (binding_policy b0) cs \<and>
      (policy_select (binding_policy (fold binding_step ops b0)) i cs r = Inl e \<longleftrightarrow> policy_select (binding_policy b0) i cs r = Inl e)"
    for b0 cs i r e by (induction ops arbitrary: b0) (simp_all add: shape)
  have us: "policy_usable (binding_policy b) cs"
    using assms(2,3) unfolding assms(1) by (simp add: fold) (cases strategy; simp add: new_bindings_def)
  have np: "policy_select (binding_policy b) identity (sort_key bc_target_id cs) routing_text \<noteq> Inl e" for e
    unfolding assms(1) using assms(3) by (simp add: fold)
      (cases strategy; auto simp: new_bindings_def tb_binding_select_def split: prod.splits)
  have sorted: "sort_key bc_target_id cs' = sort_key bc_target_id cs"
    using assms(5-7) by (intro sort_key_eq_of_sets) auto
  obtain t b' where bound: "bind b identity cs routing_text = Inr (t, b')"
    using np by (cases "bind b identity cs routing_text") (auto simp: bind_def Let_def split: option.splits if_splits sum.splits)
  obtain u where u: "t = Some u" "u \<in> bc_target_id ` set cs"
    using bind_in(2,3) [OF ok bound] us assms(4) by auto
  have "bind b identity cs' routing_text = bind b identity cs routing_text"
    unfolding bind_def sorted assms(6) ..
  moreover have "binding b' identity = Some u"
    using bound by (cases rule: bind_cases) (auto simp: binding_def u)
  ultimately show ?thesis using bound u by auto
qed

definition bind_sample :: "program_binding_candidate list" where
  "bind_sample = [\<lparr>bc_target_id = ''b'', accounted_programs = 1, accounted_tokens = 5, capacity_tokens = Some 10,
       bc_kv_pressure = 0, immediately_admissible = True\<rparr>,
     \<lparr>bc_target_id = ''a'', accounted_programs = 2, accounted_tokens = 1, capacity_tokens = Some 10,
       bc_kv_pressure = 0, immediately_admissible = True\<rparr>]"

theorem bind_sound_witness:
  "\<exists>t b'. bind (new_bindings Least_Program_Count 0) sample_identity bind_sample None = Inr (Some t, b') \<and> t \<in> {''a'', ''b''} \<and>
     bind (new_bindings Least_Program_Count 0) sample_identity (rev bind_sample) None = Inr (Some t, b')"
  using bind_sound [of "new_bindings Least_Program_Count 0" "[]" Least_Program_Count 0 bind_sample "rev bind_sample" sample_identity None]
  by (auto simp: bind_sample_def)

text \<open>C27: A binding outlives every change of load and every binding of other programs: it is kept
  until the program is released, its target is removed, or it is bound again without its target
  among the candidates; and binding the program again with its target live returns it.\<close>

theorem binding_stable:
  assumes "bindings b (key_of_identity identity) = Some t"
    "list_all (\<lambda>op. \<not> unbinds (key_of_identity identity) t op) ops" "t \<in> bc_target_id ` set cs"
  shows "bind (fold binding_step ops b) identity cs routing_text = Inr (Some t, fold binding_step ops b)"
proof -
  have "bindings (fold binding_step ops b) (key_of_identity identity) = Some t"
    using assms(1,2)
  proof (induction ops arbitrary: b)
    case (Cons op ops)
    have "bindings (binding_step op b) (key_of_identity identity) = Some t"
      by (rule binding_step_keeps) (use Cons.prems in simp_all)
    then show ?case using Cons by simp
  qed simp
  then show ?thesis using assms(3) by (simp add: bind_def)
qed

theorem binding_stable_witness:
  "bind (fold binding_step [Bind (sample_identity\<lparr>id_program_id := ''q''\<rparr>) bind_sample None, Remove_Target ''b'']
       ((new_bindings Least_Program_Count 0)\<lparr>bindings := [(''m'', ''p'') \<mapsto> ''a'']\<rparr>)) sample_identity bind_sample None =
   Inr (Some ''a'', fold binding_step [Bind (sample_identity\<lparr>id_program_id := ''q''\<rparr>) bind_sample None, Remove_Target ''b'']
       ((new_bindings Least_Program_Count 0)\<lparr>bindings := [(''m'', ''p'') \<mapsto> ''a'']\<rparr>))"
  by (rule binding_stable) (simp_all add: key_of_identity_def sample_identity_def bind_sample_def)

text \<open>What the strategies choose for a new program: the owner of its key on the ring of the
  candidates; the next candidate in target order, in turn; a candidate with the fewest programs,
  the first of them in target order; one with the most capacity left; and, with cache affinity,
  an immediately admissible candidate whenever there is one.\<close>

theorem binding_strategies:
  assumes "bindings b (key_of_identity identity) = None" "policy_ok (binding_policy b)"
    "bind b identity cs routing_text = Inr (Some t, b')"
  shows "case binding_policy b of
      Consistent_Hash_Binding vnodes rings \<Rightarrow>
        Some t = ring_owner (fbi_hash (placement_hash_key identity))
                   (binding_ring vnodes (map bc_target_id (sort_key bc_target_id cs)))
    | Round_Robin_Binding nexts \<Rightarrow>
        \<exists>nxt. nxt = (case nexts (id_model_pool identity) of None \<Rightarrow> 0 | Some n \<Rightarrow> n) \<and>
          t = bc_target_id (sort_key bc_target_id cs ! (unat nxt mod length cs)) \<and>
          binding_policy b' = Round_Robin_Binding (nexts(id_model_pool identity \<mapsto> nxt + 1))
    | Least_Program_Count_Binding \<Rightarrow>
        \<exists>c\<in>set cs. t = bc_target_id c \<and>
          (\<forall>d\<in>set cs. accounted_programs c < accounted_programs d \<or>
             accounted_programs c = accounted_programs d \<and> bc_target_id c \<le> bc_target_id d)
    | Reasoning_Token_Balance_Binding \<Rightarrow>
        \<exists>c\<in>set cs. t = bc_target_id c \<and> (\<forall>d\<in>set cs. remaining_tokens d \<le> remaining_tokens c)
    | Cache_Aware_Binding affinity \<Rightarrow>
        \<exists>c\<in>set cs. t = bc_target_id c \<and> (immediately_admissible c \<or> (\<forall>d\<in>set cs. \<not> immediately_admissible d))"
proof -
  obtain p where sel: "policy_select (binding_policy b) identity (sort_key bc_target_id cs) routing_text = Inr (Some t, p)"
    "binding_policy b' = p"
    using assms(3) by (cases rule: bind_cases) (auto simp: assms(1))
  show ?thesis
  proof (cases "binding_policy b")
    case (Consistent_Hash_Binding vnodes rings)
    then obtain rings' where S: "ch_binding_select vnodes rings identity (sort_key bc_target_id cs) = (Some t, rings')"
      using sel by (auto split: prod.splits)
    have "policy_ok (Consistent_Hash_Binding vnodes rings)" using assms(2) Consistent_Hash_Binding by simp
    from ch_binding_select_owner(1) [OF this S] show ?thesis by (simp add: Consistent_Hash_Binding)
  next
    case (Round_Robin_Binding nexts)
    then show ?thesis using sel by (auto simp: rr_binding_select_def Let_def split: if_splits)
  next
    case Least_Program_Count_Binding
    then obtain c where c: "min_by_key (\<lambda>c. (accounted_programs c, bc_target_id c)) (sort_key bc_target_id cs) = Some c"
      "t = bc_target_id c" using sel by (auto simp: lp_binding_select_def)
    then show ?thesis using min_by_key_SomeD [OF c(1)] Least_Program_Count_Binding
      by (auto simp: less_eq_prod_def order_le_less intro!: bexI [of _ c])
  next
    case Reasoning_Token_Balance_Binding
    then have "tb_binding_select (sort_key bc_target_id cs) = Inr (Some t)" using sel by (auto split: sum.splits)
    then show ?thesis using tb_binding_select_in(1) [of _ "Some t" t] Reasoning_Token_Balance_Binding by fastforce
  next
    case (Cache_Aware_Binding affinity)
    let ?cs = "sort_key bc_target_id cs"
    have "ca_binding_select affinity identity (if filter immediately_admissible ?cs = [] then ?cs else filter immediately_admissible ?cs)
        routing_text = Some t"
      using sel Cache_Aware_Binding by (auto simp: ca_binding_select_def Let_def)
    from ca_binding_select_in(1) [OF this] show ?thesis using Cache_Aware_Binding by (auto simp: filter_empty_conv split: if_splits)
  qed
qed

theorem binding_strategies_witness:
  "bind (new_bindings Least_Program_Count 0) sample_identity bind_sample None =
     Inr (Some ''b'', (new_bindings Least_Program_Count 0)\<lparr>bindings := [(''m'', ''p'') \<mapsto> ''b'']\<rparr>) \<and>
   (\<exists>c\<in>set bind_sample. ''b'' = bc_target_id c \<and> (\<forall>d\<in>set bind_sample. accounted_programs c \<le> accounted_programs d))"
proof -
  have B: "bind (new_bindings Least_Program_Count 0) sample_identity bind_sample None =
     Inr (Some ''b'', (new_bindings Least_Program_Count 0)\<lparr>bindings := [(''m'', ''p'') \<mapsto> ''b'']\<rparr>)"
    by (simp add: bind_def new_bindings_def lp_binding_select_def bind_sample_def key_of_identity_def sample_identity_def)
  show ?thesis using binding_strategies [OF _ _ B] B by (fastforce simp: new_bindings_def)
qed

end
