(* ===== verification/Program_Lineage.thy ===== *)
theory Program_Lineage
  imports Rust_Str "HOL-Library.Monad_Syntax"
begin

text \<open>
  The parent forest of programs of \<^verbatim>\<open>program_scheduling/lineage.rs\<close>: a directed union-find
  with path compression.  Programs of a model point towards their declared parent or root.

  The hash map is an association list with distinct keys.  The loop of \<^verbatim>\<open>root\<close> has no bound
  of its own; it is a partial function, and that it returns is a lemma.  In every
  forest that observations build, the parent edges are acyclic, so the loop ends, the bounded
  read-only lookup has enough iterations, both give the same root, and compression keeps the
  root of every program.
\<close>

type_synonym lineage_key = "str \<times> str"
type_synonym 'k parents = "('k \<times> 'k) list"
type_synonym lineage = "lineage_key parents"

definition or_insert_self :: "'k parents \<Rightarrow> 'k \<Rightarrow> 'k parents" where
  "or_insert_self m k = (if map_of m k = None then AList.update k k m else m)"

partial_function (option) root_walk :: "'k parents \<Rightarrow> 'k \<Rightarrow> 'k list \<Rightarrow> ('k list \<times> 'k) option" where
  "root_walk m cur path =
     (case map_of m cur of
        None \<Rightarrow> Some (path, cur)
      | Some parent \<Rightarrow> if parent = cur then Some (path, cur) else root_walk m parent (path @ [cur]))"

declare root_walk.simps [code]

definition root :: "lineage \<Rightarrow> str \<Rightarrow> str \<Rightarrow> (str \<times> lineage) option" where
  "root m model_pool program_id =
     (let start = (model_pool, program_id); m1 = or_insert_self m start in
      case root_walk m1 start [] of
        None \<Rightarrow> None
      | Some (path, cur) \<Rightarrow> Some (snd cur, fold (\<lambda>node. AList.update node cur) path m1))"

fun climb :: "'k parents \<Rightarrow> nat \<Rightarrow> 'k \<Rightarrow> 'k" where
  "climb m 0 cur = cur"
| "climb m (Suc n) cur =
     (case map_of m cur of
        None \<Rightarrow> cur
      | Some parent \<Rightarrow> if parent = cur then cur else climb m n parent)"

definition root_readonly :: "lineage \<Rightarrow> str \<Rightarrow> str \<Rightarrow> str" where
  "root_readonly m model_pool program_id = snd (climb m (Suc (length m)) (model_pool, program_id))"

fun cycle_loop :: "'k parents \<Rightarrow> 'k \<Rightarrow> nat \<Rightarrow> 'k \<Rightarrow> bool" where
  "cycle_loop m child 0 cur = True"
| "cycle_loop m child (Suc n) cur =
     (if cur = child then True
      else case map_of m cur of
             None \<Rightarrow> False
           | Some parent \<Rightarrow> if parent = cur then False else cycle_loop m child n parent)"

definition would_cycle :: "'k parents \<Rightarrow> 'k \<Rightarrow> 'k \<Rightarrow> bool" where
  "would_cycle m child proposed_parent = cycle_loop m child (Suc (length m)) proposed_parent"

text \<open>One declared parent or root, unless it is the program itself.\<close>

definition link :: "lineage_key \<Rightarrow> str option \<Rightarrow> lineage \<Rightarrow> lineage" where
  "link program declared m =
     (case declared of
        None \<Rightarrow> m
      | Some other \<Rightarrow>
          if other = snd program then m
          else let parent = (fst program, other); m1 = or_insert_self m parent
               in if would_cycle m1 program parent then m1 else AList.update program parent m1)"

definition observe :: "lineage \<Rightarrow> str \<Rightarrow> str \<Rightarrow> str option \<Rightarrow> str option \<Rightarrow> (str \<times> lineage) option" where
  "observe m model_pool program_id parent_program_id root_program_id =
     (let program = (model_pool, program_id) in
      root (link program root_program_id (link program parent_program_id (or_insert_self m program))) model_pool program_id)"

section \<open>The parent edges\<close>

definition edges :: "'k parents \<Rightarrow> ('k \<times> 'k) set" where
  "edges m = {(k, p). map_of m k = Some p \<and> p \<noteq> k}"

definition terminal :: "'k parents \<Rightarrow> 'k \<Rightarrow> bool" where
  "terminal m k \<longleftrightarrow> k \<notin> Domain (edges m)"

definition forest :: "'k parents \<Rightarrow> bool" where
  "forest m \<longleftrightarrow> distinct (map fst m) \<and> acyclic (edges m)"

lemma edges_subset: "edges m \<subseteq> set m"
  by (auto simp: edges_def dest: map_of_SomeD)

lemma finite_edges [simp]: "finite (edges m)"
  using edges_subset finite_subset by blast

lemma edges_det: "(k, p) \<in> edges m \<Longrightarrow> (k, q) \<in> edges m \<Longrightarrow> p = q"
  by (simp add: edges_def)

lemma terminal_unique:
  assumes "(k, y) \<in> (edges m)\<^sup>*" "terminal m y" "(k, z) \<in> (edges m)\<^sup>*" "terminal m z"
  shows "y = z"
  using assms(1,3)
proof (induction rule: converse_rtrancl_induct)
  case base
  then show ?case using assms(2) by (auto simp: terminal_def elim: converse_rtranclE)
next
  case (step k p)
  show ?case
  proof (cases "k = z")
    case True
    then show ?thesis using step.hyps(1) assms(4) by (auto simp: terminal_def)
  next
    case False
    then obtain q where "(k, q) \<in> edges m" "(q, z) \<in> (edges m)\<^sup>*" using step.prems by (auto elim: converse_rtranclE)
    then show ?thesis using step edges_det by metis
  qed
qed

text \<open>The number of programs above a program bounds every walk.\<close>

definition height :: "'k parents \<Rightarrow> 'k \<Rightarrow> nat" where
  "height m k = card ((edges m)\<^sup>+ `` {k})"

lemma height_less:
  assumes "forest m" "(k, p) \<in> edges m"
  shows "height m p < height m k"
  unfolding height_def
proof (rule psubset_card_mono)
  show "finite ((edges m)\<^sup>+ `` {k})" by (simp add: finite_Image)
  have "p \<in> (edges m)\<^sup>+ `` {k}" using assms(2) by auto
  moreover have "p \<notin> (edges m)\<^sup>+ `` {p}" using assms(1) by (auto simp: forest_def acyclic_def)
  moreover have "(edges m)\<^sup>+ `` {p} \<subseteq> (edges m)\<^sup>+ `` {k}" using assms(2) by (auto intro: trancl_into_trancl2)
  ultimately show "(edges m)\<^sup>+ `` {p} \<subset> (edges m)\<^sup>+ `` {k}" by blast
qed

lemma height_bound: "height m k \<le> length m"
proof -
  have "(edges m)\<^sup>+ `` {k} \<subseteq> snd ` set m"
  proof
    fix z assume "z \<in> (edges m)\<^sup>+ `` {k}"
    then have "z \<in> Range (edges m)" by (auto elim: tranclE)
    then show "z \<in> snd ` set m" using edges_subset [of m] by force
  qed
  then have "height m k \<le> card (snd ` set m)" unfolding height_def by (rule card_mono [rotated]) simp
  also have "\<dots> \<le> length m" by (metis card_image_le card_length finite_set le_trans)
  finally show ?thesis .
qed

lemma edge_cases: "map_of m k = Some p \<Longrightarrow> p \<noteq> k \<Longrightarrow> (k, p) \<in> edges m"
  by (simp add: edges_def)

lemma terminal_iff: "terminal m k \<longleftrightarrow> map_of m k = None \<or> map_of m k = Some k"
  unfolding terminal_def edges_def Domain_iff by (cases "map_of m k") auto

lemma climb_root:
  assumes "forest m" "height m k < n"
  shows "(k, climb m n k) \<in> (edges m)\<^sup>* \<and> terminal m (climb m n k)"
  using assms(2)
proof (induction n arbitrary: k)
  case (Suc n)
  show ?case
  proof (cases "terminal m k")
    case True
    then show ?thesis by (auto simp: terminal_iff)
  next
    case False
    then obtain p where p: "map_of m k = Some p" "p \<noteq> k" by (auto simp: terminal_iff)
    then have e: "(k, p) \<in> edges m" by (rule edge_cases)
    then have "height m p < n" using height_less [OF assms(1) e] Suc.prems by simp
    from Suc.IH [OF this] show ?thesis using p e by (auto intro: converse_rtrancl_into_rtrancl)
  qed
qed simp

definition root_of :: "'k parents \<Rightarrow> 'k \<Rightarrow> 'k" where
  "root_of m k = climb m (Suc (length m)) k"

lemma climb_eq:
  assumes "forest m" "(k, z) \<in> (edges m)\<^sup>*" "terminal m z"
  shows "root_of m k = z"
  unfolding root_of_def using climb_root [OF assms(1), of k "Suc (length m)"] terminal_unique [OF _ _ assms(2,3)] height_bound [of m k] by simp

lemma root_walk_returns:
  assumes "forest m"
  shows "\<exists>p z. root_walk m k path = Some (path @ p, z) \<and> (k, z) \<in> (edges m)\<^sup>* \<and> terminal m z \<and>
    (\<forall>x\<in>set p. (x, z) \<in> (edges m)\<^sup>+)"
proof (induction "height m k" arbitrary: k path rule: less_induct)
  case less
  show ?case
  proof (cases "terminal m k")
    case True
    then have "root_walk m k path = Some (path @ [], k)" by (auto simp: terminal_iff root_walk.simps [of m k])
    then show ?thesis using True by (metis empty_iff empty_set rtrancl.rtrancl_refl)
  next
    case False
    then obtain q where q: "map_of m k = Some q" "q \<noteq> k" by (auto simp: terminal_iff)
    then have e: "(k, q) \<in> edges m" by (rule edge_cases)
    from less [OF height_less [OF assms e], of "path @ [k]"] obtain p z where
      pz: "root_walk m q (path @ [k]) = Some ((path @ [k]) @ p, z)" "(q, z) \<in> (edges m)\<^sup>*" "terminal m z"
        "\<forall>x\<in>set p. (x, z) \<in> (edges m)\<^sup>+" by blast
    have "(k, z) \<in> (edges m)\<^sup>+" using e pz(2) by (rule rtrancl_into_trancl2)
    then show ?thesis using pz q
      by (intro exI [of _ "k # p"] exI [of _ z]) (simp add: root_walk.simps [of m k] trancl_into_rtrancl)
  qed
qed

section \<open>Updates\<close>

lemma root_of_spec: "forest m \<Longrightarrow> (k, root_of m k) \<in> (edges m)\<^sup>* \<and> terminal m (root_of m k)"
  unfolding root_of_def using climb_root [of m k "Suc (length m)"] height_bound [of m k] by simp

lemma map_of_update [simp]: "map_of (AList.update k v m) = (map_of m)(k \<mapsto> v)"
  by (rule ext) (simp add: update_conv')

lemma edges_update: "edges (AList.update k p m) = {(x, y) \<in> edges m. x \<noteq> k} \<union> (if p = k then {} else {(k, p)})"
  by (auto simp: edges_def split: if_splits)

lemma forest_or_insert: "forest m \<Longrightarrow> forest (or_insert_self m k) \<and> edges (or_insert_self m k) = edges m"
proof -
  assume f: "forest m"
  have "edges (AList.update k k m) = edges m" if "map_of m k = None"
    using that by (auto simp: edges_update) (auto simp: edges_def)
  then show ?thesis using f by (simp add: or_insert_self_def forest_def distinct_update)
qed

lemma terminal_edges: "edges m = edges m' \<Longrightarrow> terminal m k \<longleftrightarrow> terminal m' k"
  by (simp add: terminal_def)

lemma root_of_edges: "forest m \<Longrightarrow> forest m' \<Longrightarrow> edges m' = edges m \<Longrightarrow> root_of m' k = root_of m k"
  using root_of_spec [of m k] climb_eq [of m' k "root_of m k"] terminal_edges [of m' m] by simp

lemma cycle_loop_iff:
  assumes "forest m" "height m k < n"
  shows "cycle_loop m c n k \<longleftrightarrow> (k, c) \<in> (edges m)\<^sup>*"
  using assms(2)
proof (induction n arbitrary: k)
  case (Suc n)
  show ?case
  proof (cases "k = c")
    case False
    note ne = False
    show ?thesis
    proof (cases "terminal m k")
      case True
      then have "(k, c) \<notin> (edges m)\<^sup>*" using ne unfolding terminal_def by (meson Domain.DomainI converse_rtranclE)
      moreover have "\<not> cycle_loop m c (Suc n) k" using True ne by (auto simp: terminal_iff)
      ultimately show ?thesis by blast
    next
      case False
      then obtain p where p: "map_of m k = Some p" "p \<noteq> k" by (auto simp: terminal_iff)
      then have e: "(k, p) \<in> edges m" by (rule edge_cases)
      then have "height m p < n" using height_less [OF assms(1) e] Suc.prems by simp
      moreover have "(k, c) \<in> (edges m)\<^sup>* \<longleftrightarrow> (p, c) \<in> (edges m)\<^sup>*"
      proof
        assume "(k, c) \<in> (edges m)\<^sup>*"
        then obtain q where "(k, q) \<in> edges m" "(q, c) \<in> (edges m)\<^sup>*" using ne by (meson converse_rtranclE)
        then show "(p, c) \<in> (edges m)\<^sup>*" using edges_det [OF e] by simp
      qed (rule converse_rtrancl_into_rtrancl [OF e])
      ultimately show ?thesis using Suc.IH p ne by simp
    qed
  qed simp
qed simp

lemma would_cycle_iff: "forest m \<Longrightarrow> would_cycle m c p \<longleftrightarrow> (p, c) \<in> (edges m)\<^sup>*"
  unfolding would_cycle_def by (rule cycle_loop_iff) (simp_all add: height_bound le_imp_less_Suc)

lemma forest_update:
  assumes "forest m" "(p, k) \<notin> (edges m)\<^sup>*"
  shows "forest (AList.update k p m)"
proof -
  have "acyclic (insert (k, p) (edges m))" using assms by (simp add: forest_def acyclic_insert)
  moreover have "edges (AList.update k p m) \<subseteq> insert (k, p) (edges m)" by (auto simp: edges_update)
  ultimately have "acyclic (edges (AList.update k p m))" by (rule acyclic_subset)
  then show ?thesis using assms(1) by (simp add: forest_def distinct_update)
qed

lemma forest_link: "forest m \<Longrightarrow> forest (link k declared m)"
  by (auto simp: link_def Let_def forest_or_insert would_cycle_iff intro!: forest_update split: option.split)

section \<open>Compression\<close>

lemma compress_step:
  assumes f: "forest m" and x: "(x, z) \<in> (edges m)\<^sup>+" and z: "terminal m z"
  shows "forest (AList.update x z m) \<and> (\<forall>k. root_of (AList.update x z m) k = root_of m k)"
proof -
  let ?m = "AList.update x z m"
  have xz: "x \<noteq> z" using x f by (auto simp: forest_def acyclic_def)
  have sub: "edges ?m \<subseteq> (edges m)\<^sup>+" using x by (auto simp: edges_update)
  have "x \<in> Domain (edges m)" using x by (meson Domain.DomainI tranclD)
  then have trm: "terminal ?m k \<longleftrightarrow> terminal m k" for k
    using xz by (auto simp: terminal_def edges_update split: if_splits)
  have "(edges ?m)\<^sup>+ \<subseteq> (edges m)\<^sup>+" using trancl_mono_subset [OF sub] by simp
  then have f': "forest ?m" using f by (auto simp: forest_def acyclic_def distinct_update)
  have "root_of ?m k = root_of m k" for k
  proof -
    have "(k, root_of ?m k) \<in> (edges ?m)\<^sup>*" "terminal m (root_of ?m k)" using root_of_spec [OF f', of k] trm by auto
    moreover have "(edges ?m)\<^sup>* \<subseteq> (edges m)\<^sup>*" using rtrancl_mono [OF sub] by simp
    ultimately show ?thesis using climb_eq [OF f, of k "root_of ?m k"] by auto
  qed
  then show ?thesis using f' by blast
qed

lemma trancl_root:
  assumes f: "forest m" and x: "\<not> terminal m x" and z: "root_of m x = z"
  shows "(x, z) \<in> (edges m)\<^sup>+ \<and> terminal m z"
  using root_of_spec [OF f, of x] x z by (metis rtranclD)

lemma compress_path:
  assumes "forest m" "\<forall>x\<in>set path. \<not> terminal m x \<and> root_of m x = z"
  shows "forest (fold (\<lambda>node. AList.update node z) path m) \<and>
    (\<forall>k. root_of (fold (\<lambda>node. AList.update node z) path m) k = root_of m k)"
  using assms
proof (induction path arbitrary: m)
  case (Cons x path)
  let ?m = "AList.update x z m"
  have xz: "(x, z) \<in> (edges m)\<^sup>+" "terminal m z" using trancl_root [OF Cons.prems(1), of x z] Cons.prems(2) by auto
  note step = compress_step [OF Cons.prems(1) xz]
  have "x \<noteq> z" using xz Cons.prems(2) by auto
  then have "\<not> terminal ?m k" if "\<not> terminal m k" for k
    using that by (auto simp: terminal_def edges_update split: if_splits)
  then have "\<forall>y\<in>set path. \<not> terminal ?m y \<and> root_of ?m y = z" using Cons.prems(2) step by auto
  from Cons.IH [OF _ this] step show ?case by simp
qed simp

lemma root_correct:
  assumes f: "forest m"
  shows "\<exists>m'. root m pool i = Some (root_readonly m pool i, m') \<and> forest m' \<and> (\<forall>k. root_of m' k = root_of m k)"
proof -
  let ?k = "(pool, i)"
  define m1 where "m1 = or_insert_self m ?k"
  have f1: "forest m1" "edges m1 = edges m" using forest_or_insert [OF f, of ?k] by (simp_all add: m1_def)
  have same: "root_of m1 k = root_of m k" for k by (rule root_of_edges [OF f f1])
  obtain p z where w: "root_walk m1 ?k [] = Some (p, z)" "(?k, z) \<in> (edges m1)\<^sup>*" "terminal m1 z"
      "\<forall>x\<in>set p. (x, z) \<in> (edges m1)\<^sup>+"
    using root_walk_returns [OF f1(1), of ?k "[]"] by auto
  have z: "z = root_of m1 ?k" using climb_eq [OF f1(1) w(2,3)] by simp
  have "\<forall>x\<in>set p. \<not> terminal m1 x \<and> root_of m1 x = z"
  proof
    fix x assume "x \<in> set p"
    then have x: "(x, z) \<in> (edges m1)\<^sup>+" using w(4) by blast
    then have "x \<in> Domain (edges m1)" by (meson Domain.DomainI tranclD)
    then show "\<not> terminal m1 x \<and> root_of m1 x = z"
      using climb_eq [OF f1(1) trancl_into_rtrancl [OF x] w(3)] by (simp add: terminal_def)
  qed
  from compress_path [OF f1(1) this] same w(1) z show ?thesis
    by (simp add: root_def Let_def m1_def [symmetric] root_readonly_def root_of_def [symmetric] del: climb.simps)
qed

lemma observe_correct:
  assumes "forest m"
  shows "\<exists>r m'. observe m pool i parent rt = Some (r, m') \<and> forest m' \<and> r = root_readonly m' pool i"
proof -
  let ?k = "(pool, i)"
  let ?m = "link ?k rt (link ?k parent (or_insert_self m ?k))"
  have f: "forest ?m" using forest_or_insert [OF assms] forest_link by blast
  from root_correct [OF f, of pool i] obtain m' where
    m': "root ?m pool i = Some (root_readonly ?m pool i, m')" "forest m'" "\<forall>k. root_of m' k = root_of ?m k" by blast
  have "root_readonly m' pool i = root_readonly ?m pool i"
    using m'(3) by (simp add: root_readonly_def root_of_def [symmetric] del: climb.simps)
  then show ?thesis using m' by (simp add: observe_def Let_def)
qed

section \<open>Reachable forests\<close>

datatype lineage_op =
    Observe str str "str option" "str option"
  | Root str str

fun lineage_step :: "lineage_op \<Rightarrow> lineage \<Rightarrow> lineage option" where
  "lineage_step (Observe pool i parent rt) m = map_option snd (observe m pool i parent rt)"
| "lineage_step (Root pool i) m = map_option snd (root m pool i)"

fun lineage_run :: "lineage_op list \<Rightarrow> lineage \<Rightarrow> lineage option" where
  "lineage_run [] m = Some m"
| "lineage_run (p # ps) m = Option.bind (lineage_step p m) (lineage_run ps)"

lemma lineage_step_forest: "forest m \<Longrightarrow> \<exists>m'. lineage_step p m = Some m' \<and> forest m'"
  using observe_correct root_correct by (cases p) fastforce+

lemma lineage_run_forest: "forest m \<Longrightarrow> \<exists>m'. lineage_run ps m = Some m' \<and> forest m'"
proof (induction ps arbitrary: m)
  case (Cons p ps)
  from lineage_step_forest [OF Cons.prems, of p] Cons.IH show ?case by fastforce
qed simp

lemma forest_Nil: "forest []"
  by (simp add: forest_def edges_def acyclic_def)

section \<open>Properties\<close>

text \<open>C19: Resolving the root of a program always ends and agrees with the read-only lookup.
  After any observations and lookups, which all return, the unbounded walk returns the
  program that the bounded walk finds, that program has no parent, and compressing the path
  leaves the root of every program as it was.\<close>

theorem lineage_root_total:
  "\<exists>m. lineage_run ps [] = Some m \<and>
     (\<exists>m'. root m pool i = Some (root_readonly m pool i, m') \<and>
        (\<forall>pool' i'. root_readonly m' pool' i' = root_readonly m pool' i')) \<and>
     (\<exists>z. terminal m z \<and> snd z = root_readonly m pool i \<and> ((pool, i), z) \<in> (edges m)\<^sup>*)"
proof -
  from lineage_run_forest [OF forest_Nil, of ps] obtain m where m: "lineage_run ps [] = Some m" "forest m" by blast
  have rr: "root_readonly x pool' i' = snd (root_of x (pool', i'))" for x pool' i'
    by (simp add: root_readonly_def root_of_def)
  show ?thesis using m root_correct [OF m(2), of pool i] root_of_spec [OF m(2), of "(pool, i)"] unfolding rr by fastforce
qed

text \<open>Error: looking up a root changes later answers.  With the same observations, a
  program whose path was compressed keeps its old root when a program above it is given a
  new parent, while without the lookup it follows.\<close>

theorem lineage_lookup_not_transparent:
  "map_option (\<lambda>m. root_readonly m ''m'' ''a'')
     (lineage_run [Observe ''m'' ''a'' (Some ''b'') None, Observe ''m'' ''b'' (Some ''c'') None,
        Observe ''m'' ''b'' (Some ''d'') None] []) = Some ''d'' \<and>
   map_option (\<lambda>m. root_readonly m ''m'' ''a'')
     (lineage_run [Observe ''m'' ''a'' (Some ''b'') None, Observe ''m'' ''b'' (Some ''c'') None, Root ''m'' ''a'',
        Observe ''m'' ''b'' (Some ''d'') None] []) = Some ''c''"
  by code_simp

end
