(* ===== verification/Progress_Ttl.thy ===== *)
theory Progress_Ttl
  imports Complex_Main Router_Prelude
begin

text \<open>
  The measurements and formulas behind program scheduling: the bounded windows of recent
  samples of \<^verbatim>\<open>program_scheduling/factors.rs\<close> and the calculations of
  \<^verbatim>\<open>program_scheduling/policy.rs\<close>.

  An \<^verbatim>\<open>f64\<close> is a real number, so it is always finite; the one place where the code stores an
  infinite cost is an option.  A window is the list of its samples, the oldest first.
  \<^verbatim>\<open>Duration::from_secs_f64\<close> rounds to the nearest nanosecond.

  Shown: a window holds exactly the latest samples; the fitted time to live is bounded by the
  configuration and by the cost of a miss, and no candidate has a higher utility; the number of
  target rounds stays within its limits; batch gain leaves room for growth.
\<close>

section \<open>Durations in seconds\<close>

definition as_secs_f64 :: "duration \<Rightarrow> real" where
  "as_secs_f64 d = real d / 10 ^ 9"

definition from_secs_f64 :: "real \<Rightarrow> duration" where
  "from_secs_f64 x = nat (round (x * 10 ^ 9))"

section \<open>Windows\<close>

record request_sample =
  rs_prompt_tokens :: nat
  rs_completion_tokens :: nat
  rs_cached_prompt_tokens :: nat
  rs_context_growth_tokens :: "nat option"
  rs_e2e_seconds :: real
  rs_decode_seconds :: "real option"
  rs_queue_seconds :: real
  rs_rounds_since_ttl_pause :: nat
  rs_finished_at :: instant

record continuity_sample =
  interval_seconds :: real
  cs_cache_miss_impact_seconds :: real

record progress_ttl_factors =
  f_requests :: "request_sample list"
  continuities :: "continuity_sample list"
  ttl_pause_rounds :: "nat list"

definition default_factors :: progress_ttl_factors where
  "default_factors = \<lparr>f_requests = [], continuities = [], ttl_pause_rounds = []\<rparr>"

definition push_bounded :: "'a list \<Rightarrow> 'a \<Rightarrow> nat \<Rightarrow> 'a list" where
  "push_bounded window sample limit =
     (if limit = 0 then window
      else (if length window = limit then tl window else window) @ [sample])"

definition push_request :: "request_sample \<Rightarrow> nat \<Rightarrow> progress_ttl_factors \<Rightarrow> progress_ttl_factors" where
  "push_request sample limit f = f\<lparr>f_requests := push_bounded (f_requests f) sample limit\<rparr>"

definition push_continuity :: "continuity_sample \<Rightarrow> nat \<Rightarrow> progress_ttl_factors \<Rightarrow> progress_ttl_factors" where
  "push_continuity sample limit f = f\<lparr>continuities := push_bounded (continuities f) sample limit\<rparr>"

definition push_ttl_pause_rounds :: "nat \<Rightarrow> nat \<Rightarrow> progress_ttl_factors \<Rightarrow> progress_ttl_factors" where
  "push_ttl_pause_rounds rounds limit f = f\<lparr>ttl_pause_rounds := push_bounded (ttl_pause_rounds f) rounds limit\<rparr>"

definition request_window_complete :: "progress_ttl_factors \<Rightarrow> nat \<Rightarrow> bool" where
  "request_window_complete f limit \<longleftrightarrow> 0 < limit \<and> limit \<le> length (f_requests f)"

definition continuity_window_complete :: "progress_ttl_factors \<Rightarrow> nat \<Rightarrow> bool" where
  "continuity_window_complete f limit \<longleftrightarrow> 0 < limit \<and> limit \<le> length (continuities f)"

definition optional_average :: "real list \<Rightarrow> real option" where
  "optional_average values =
     (let (total, count) = fold (\<lambda>value (total, count). (total + value, count + 1)) values (0, 0::nat)
      in if 0 < count then Some (total / real count) else None)"

definition average :: "real list \<Rightarrow> real" where
  "average values = (case optional_average values of Some a \<Rightarrow> a | None \<Rightarrow> 0)"

definition average_context_growth_tokens :: "progress_ttl_factors \<Rightarrow> real" where
  "average_context_growth_tokens f = average (map real (List.map_filter rs_context_growth_tokens (f_requests f)))"

definition average_prompt_tokens :: "progress_ttl_factors \<Rightarrow> real" where
  "average_prompt_tokens f = average (map (\<lambda>s. real (rs_prompt_tokens s)) (f_requests f))"

definition average_completion_tokens :: "progress_ttl_factors \<Rightarrow> real" where
  "average_completion_tokens f = average (map (\<lambda>s. real (rs_completion_tokens s)) (f_requests f))"

definition average_e2e_seconds :: "progress_ttl_factors \<Rightarrow> real" where
  "average_e2e_seconds f = average (map rs_e2e_seconds (f_requests f))"

definition average_decode_seconds :: "progress_ttl_factors \<Rightarrow> real option" where
  "average_decode_seconds f =
     optional_average (filter (\<lambda>seconds. 0 \<le> seconds) (List.map_filter rs_decode_seconds (f_requests f)))"

definition average_queue_seconds :: "progress_ttl_factors \<Rightarrow> real" where
  "average_queue_seconds f = average (map rs_queue_seconds (f_requests f))"

definition average_cached_prompt_tokens :: "progress_ttl_factors \<Rightarrow> real" where
  "average_cached_prompt_tokens f = average (map (\<lambda>s. real (rs_cached_prompt_tokens s)) (f_requests f))"

definition average_uncached_prompt_tokens :: "progress_ttl_factors \<Rightarrow> real" where
  "average_uncached_prompt_tokens f =
     average (map (\<lambda>s. real (rs_prompt_tokens s - rs_cached_prompt_tokens s)) (f_requests f))"

definition average_cached_prompt_ratio :: "progress_ttl_factors \<Rightarrow> real" where
  "average_cached_prompt_ratio f =
     (let prompt = sum_list (map rs_prompt_tokens (f_requests f)) in
      if prompt = 0 then 0
      else real (sum_list (map rs_cached_prompt_tokens (f_requests f))) / real prompt)"

definition request_throughput_per_second :: "progress_ttl_factors \<Rightarrow> real" where
  "request_throughput_per_second f =
     (if length (f_requests f) < 2 then 0
      else let elapsed = rs_finished_at (last (f_requests f)) - rs_finished_at (hd (f_requests f)) in
           if elapsed = 0 then 0
           else real (length (f_requests f) - 1) / as_secs_f64 elapsed)"

definition average_rounds_since_ttl_pause :: "progress_ttl_factors \<Rightarrow> real" where
  "average_rounds_since_ttl_pause f = average (map (\<lambda>s. real (rs_rounds_since_ttl_pause s)) (f_requests f))"

definition average_ttl_pause_rounds :: "progress_ttl_factors \<Rightarrow> real" where
  "average_ttl_pause_rounds f = average (map real (ttl_pause_rounds f))"

section \<open>Configuration\<close>

record prefill_cost_model =
  intercept_seconds :: real
  linear_seconds_per_1k_tokens :: real
  quadratic_seconds_per_1k_tokens_squared :: real
  decode_throughput_alpha :: real

record decode_throughput_model =
  fixed_step_seconds :: real
  batch_step_seconds_per_request :: real
  context_step_seconds_per_token :: real

record progress_ttl_config =
  token_capacity :: "nat option"
  decode_buffer_tokens :: nat
  max_acting_ttl :: duration
  high_watermark_ratio :: real
  low_watermark_ratio :: real
  max_segment_rounds :: nat
  stats_window_size :: nat
  enable_batch_gain_admission :: bool
  prefill :: prefill_cost_model
  decode :: decode_throughput_model

definition default_prefill :: prefill_cost_model where
  "default_prefill = \<lparr>intercept_seconds = 0.06600061907132926,
     linear_seconds_per_1k_tokens = 0.05702024012166613,
     quadratic_seconds_per_1k_tokens_squared = 0.0044057347937978475, decode_throughput_alpha = 0.15\<rparr>"

definition default_decode :: decode_throughput_model where
  "default_decode = \<lparr>fixed_step_seconds = 0.010635218423115973,
     batch_step_seconds_per_request = 0.0004192803698834784,
     context_step_seconds_per_token = 1.420458414996201 / 10 ^ 7\<rparr>"

definition default_progress_ttl :: progress_ttl_config where
  "default_progress_ttl = \<lparr>token_capacity = None, decode_buffer_tokens = 100, max_acting_ttl = 10 * 10 ^ 9,
     high_watermark_ratio = 1, low_watermark_ratio = 1, max_segment_rounds = 14, stats_window_size = 100,
     enable_batch_gain_admission = True, prefill = default_prefill, decode = default_decode\<rparr>"

section \<open>Formulas\<close>

definition cache_miss_impact_seconds :: "progress_ttl_config \<Rightarrow> nat \<Rightarrow> real" where
  "cache_miss_impact_seconds c uncached =
     (if uncached = 0 then 0
      else let x = real uncached / 1000;
               cost = intercept_seconds (prefill c) + linear_seconds_per_1k_tokens (prefill c) * x +
                      quadratic_seconds_per_1k_tokens_squared (prefill c) * x * x
           in cost * (2 - decode_throughput_alpha (prefill c)))"

definition normal_cdf :: "real \<Rightarrow> real" where
  "normal_cdf v =
     (let x0 = v / sqrt 2; sign = (if x0 < 0 then - 1 else 1); x = \<bar>x0\<bar>; t = 1 / (1 + 0.3275911 * x);
          polynomial = (((((1.061405429 * t - 1.453152027) * t) + 1.421413741) * t - 0.284496736) * t + 0.254829592) * t;
          erf = sign * (1 - polynomial * exp (- x * x))
      in max 0 (min 1 (0.5 * (1 + erf))))"

text \<open>
  The fitted time to live, with the candidates, the utility and the scan over the candidates as
  functions of their own.  The scan starts below every utility and takes the last best one.
\<close>

definition ttl_candidates :: "real \<Rightarrow> real list" where
  "ttl_candidates max_ttl =
     (let min_ttl = min 0.05 max_ttl in
      [0, min_ttl, max_ttl] @
      (if min_ttl < max_ttl
       then map (\<lambda>index. exp (ln min_ttl + (ln max_ttl - ln min_ttl) * (real index / 31))) [0..<32]
       else []))"

definition ttl_utility :: "real \<Rightarrow> real \<Rightarrow> real \<Rightarrow> real \<Rightarrow> real" where
  "ttl_utility impact log_mean log_sigma ttl =
     (if ttl \<le> 0 then 0
      else let z = (ln ttl - log_mean) / log_sigma;
               hit_probability = normal_cdf z;
               lognormal_mean = exp (log_mean + log_sigma * log_sigma / 2);
               truncated_interval = lognormal_mean * normal_cdf ((ln ttl - log_mean - log_sigma * log_sigma) / log_sigma)
           in impact * hit_probability - truncated_interval - ttl * (1 - hit_probability))"

fun best_ttl :: "(real \<Rightarrow> real) \<Rightarrow> real list \<Rightarrow> real \<times> real option \<Rightarrow> real \<times> real option" where
  "best_ttl utility [] best = best"
| "best_ttl utility (ttl # ttls) best =
     best_ttl utility ttls
       (if (case snd best of None \<Rightarrow> True | Some u \<Rightarrow> u \<le> utility ttl) then (ttl, Some (utility ttl)) else best)"

definition fit_intervals :: "progress_ttl_factors \<Rightarrow> real list" where
  "fit_intervals f = filter (\<lambda>interval. 0 < interval) (map interval_seconds (continuities f))"

definition fit_log_mean :: "real list \<Rightarrow> real" where
  "fit_log_mean intervals = sum_list (map ln intervals) / real (length intervals)"

definition fit_log_sigma :: "real list \<Rightarrow> real" where
  "fit_log_sigma intervals =
     (let log_variance = sum_list (map (\<lambda>interval. (ln interval - fit_log_mean intervals)\<^sup>2) intervals) / real (length intervals)
      in max (sqrt log_variance) (1 / 10 ^ 6))"

definition fitted_acting_ttl :: "progress_ttl_config \<Rightarrow> progress_ttl_factors \<Rightarrow> real \<Rightarrow> duration" where
  "fitted_acting_ttl c f impact =
     (if \<not> continuity_window_complete f (stats_window_size c) then 0
      else
        let intervals = fit_intervals f in
        if intervals = [] then 0
        else
          let log_mean = fit_log_mean intervals; log_sigma = fit_log_sigma intervals;
              max_ttl = min (as_secs_f64 (max_acting_ttl c)) impact
          in if max_ttl \<le> 0 \<or> impact \<le> 0 then 0
             else
               let best = best_ttl (ttl_utility impact log_mean log_sigma) (ttl_candidates max_ttl) (0, None)
               in if (case snd best of None \<Rightarrow> True | Some u \<Rightarrow> u < 0) then 0 else from_secs_f64 (fst best))"

text \<open>\<^verbatim>\<open>clamp\<close> needs its lower bound not to exceed its upper one; a valid configuration has at
  least one segment round.\<close>

definition clamp :: "real \<Rightarrow> real \<Rightarrow> real \<Rightarrow> real" where
  "clamp x lo hi = (if x < lo then lo else if hi < x then hi else x)"

definition target_rounds :: "progress_ttl_config \<Rightarrow> progress_ttl_factors \<Rightarrow> real" where
  "target_rounds c f =
     (if \<not> request_window_complete f (stats_window_size c) then 0
      else clamp (of_int \<lceil>2 * average_rounds_since_ttl_pause f\<rceil>) 1 (real (max_segment_rounds c)))"

definition continuous_growth_reserve_tokens :: "progress_ttl_config \<Rightarrow> progress_ttl_factors \<Rightarrow> real list \<Rightarrow> real" where
  "continuous_growth_reserve_tokens c f active_remaining_rounds =
     (let rounds = target_rounds c f; growth = average_context_growth_tokens f in
      if rounds \<le> 0 \<or> growth \<le> 0 then 0 else growth * (rounds + sum_list active_remaining_rounds))"

definition decode_throughput :: "progress_ttl_config \<Rightarrow> nat \<Rightarrow> nat \<Rightarrow> real" where
  "decode_throughput c batch_size total_context_tokens =
     (let batch = real batch_size in
      batch / (fixed_step_seconds (decode c) + batch_step_seconds_per_request (decode c) * batch +
               context_step_seconds_per_token (decode c) * real total_context_tokens))"

record batch_gain_inputs =
  bi_factors :: progress_ttl_factors
  batch_size_before :: nat
  total_context_tokens_before :: nat
  candidate_context_tokens :: nat
  bi_used_tokens :: real
  bi_required_tokens :: real
  protected_remaining_rounds :: "real list"
  protected_recovery_cost_seconds :: "real list"
  bi_candidate_recovery_cost_seconds :: real

record batch_gain_estimate =
  batch_gain_seconds :: real
  be_candidate_recovery_cost_seconds :: real
  continuity_loss_seconds :: "real option"
  admits :: bool

definition f64_epsilon :: real where
  "f64_epsilon = 1 / 2 ^ 52"

definition rounds_before :: "progress_ttl_config \<Rightarrow> nat \<Rightarrow> batch_gain_inputs \<Rightarrow> real" where
  "rounds_before c capacity i =
     (let remaining = max (real capacity * low_watermark_ratio c - bi_used_tokens i) 0
      in min (sum_list (protected_remaining_rounds i)) (remaining / average_context_growth_tokens (bi_factors i)))"

definition rounds_after :: "progress_ttl_config \<Rightarrow> nat \<Rightarrow> batch_gain_inputs \<Rightarrow> real" where
  "rounds_after c capacity i =
     (let remaining = max (real capacity * low_watermark_ratio c - bi_used_tokens i) 0;
          growth = average_context_growth_tokens (bi_factors i)
      in min (sum_list (protected_remaining_rounds i))
           (max (remaining - bi_required_tokens i - growth * target_rounds c (bi_factors i)) 0 / growth))"

text \<open>The loss of continuity; nothing stands for an infinite loss.\<close>

definition continuity_loss :: "progress_ttl_config \<Rightarrow> nat \<Rightarrow> batch_gain_inputs \<Rightarrow> real option" where
  "continuity_loss c capacity i =
     (if average_context_growth_tokens (bi_factors i) \<le> 0 then Some 0
      else
        let before = rounds_before c capacity i; after = rounds_after c capacity i in
        if 0 < before \<and> after \<le> f64_epsilon then None
        else if protected_recovery_cost_seconds i = [] \<or> after \<le> f64_epsilon then Some 0
        else Some (max (before - after) 0 / after * average (protected_recovery_cost_seconds i)))"

definition disabled_gain :: "batch_gain_inputs \<Rightarrow> batch_gain_estimate" where
  "disabled_gain i = \<lparr>batch_gain_seconds = 0, be_candidate_recovery_cost_seconds = bi_candidate_recovery_cost_seconds i,
     continuity_loss_seconds = Some 0, admits = False\<rparr>"

definition estimate_batch_gain :: "progress_ttl_config \<Rightarrow> batch_gain_inputs \<Rightarrow> batch_gain_estimate" where
  "estimate_batch_gain c i =
     (case token_capacity c of
        None \<Rightarrow> disabled_gain i
      | Some capacity \<Rightarrow>
          if \<not> enable_batch_gain_admission c \<or> \<not> request_window_complete (bi_factors i) (stats_window_size c) \<or>
             batch_size_before i = 0
          then disabled_gain i
          else
            let throughput_before = decode_throughput c (batch_size_before i) (total_context_tokens_before i);
                throughput_after = decode_throughput c (batch_size_before i + 1)
                                     (min (total_context_tokens_before i + candidate_context_tokens i) (2 ^ 64 - 1))
            in if throughput_before \<le> 0 then disabled_gain i
               else
                 let relative_batch_gain = max (throughput_after / throughput_before - 1) 0;
                     average_decode =
                       (case average_decode_seconds (bi_factors i) of
                          Some s \<Rightarrow> s
                        | None \<Rightarrow> real (batch_size_before i) * average_completion_tokens (bi_factors i) / throughput_before)
                 in if average_decode \<le> 0 then disabled_gain i
                    else
                      let gain = average_decode * relative_batch_gain; loss = continuity_loss c capacity i
                      in \<lparr>batch_gain_seconds = gain,
                          be_candidate_recovery_cost_seconds = bi_candidate_recovery_cost_seconds i,
                          continuity_loss_seconds = loss,
                          admits = (case loss of None \<Rightarrow> False
                                    | Some l \<Rightarrow> bi_candidate_recovery_cost_seconds i + l \<le> gain)\<rparr>)"

section \<open>Windows hold the latest samples\<close>

datatype factor_sample = Request_Sample request_sample | Continuity_Sample continuity_sample | Ttl_Pause nat

fun record_sample :: "nat \<Rightarrow> factor_sample \<Rightarrow> progress_ttl_factors \<Rightarrow> progress_ttl_factors" where
  "record_sample limit (Request_Sample s) f = push_request s limit f"
| "record_sample limit (Continuity_Sample s) f = push_continuity s limit f"
| "record_sample limit (Ttl_Pause r) f = push_ttl_pause_rounds r limit f"

definition latest :: "nat \<Rightarrow> 'a list \<Rightarrow> 'a list" where
  "latest limit xs = drop (length xs - limit) xs"

lemma push_bounded_latest: "push_bounded (latest limit xs) s limit = latest limit (xs @ [s])"
proof (cases "limit \<le> length xs")
  case True
  have "tl (drop (length xs - limit) xs) @ [s] = drop (Suc (length xs - limit)) xs @ [s]" by (simp add: drop_Suc tl_drop)
  moreover have "Suc (length xs) - limit = Suc (length xs - limit)" using True by simp
  ultimately show ?thesis using True by (cases "limit = 0") (auto simp: latest_def push_bounded_def)
next
  case False
  then show ?thesis by (auto simp: latest_def push_bounded_def)
qed

fun requests_in :: "factor_sample list \<Rightarrow> request_sample list" where
  "requests_in [] = []"
| "requests_in (Request_Sample s # es) = s # requests_in es"
| "requests_in (_ # es) = requests_in es"

fun continuities_in :: "factor_sample list \<Rightarrow> continuity_sample list" where
  "continuities_in [] = []"
| "continuities_in (Continuity_Sample s # es) = s # continuities_in es"
| "continuities_in (_ # es) = continuities_in es"

fun pauses_in :: "factor_sample list \<Rightarrow> nat list" where
  "pauses_in [] = []"
| "pauses_in (Ttl_Pause r # es) = r # pauses_in es"
| "pauses_in (_ # es) = pauses_in es"

lemma requests_in_append [simp]: "requests_in (es @ es') = requests_in es @ requests_in es'"
  by (induction es rule: requests_in.induct) auto

lemma continuities_in_append [simp]: "continuities_in (es @ es') = continuities_in es @ continuities_in es'"
  by (induction es rule: continuities_in.induct) auto

lemma pauses_in_append [simp]: "pauses_in (es @ es') = pauses_in es @ pauses_in es'"
  by (induction es rule: pauses_in.induct) auto

section \<open>Averages\<close>

lemma average_fold: "fold (\<lambda>v (t, n). (t + v, Suc n)) vs (t, n) = (t + sum_list vs, n + length vs)" for t :: real
  by (induction vs arbitrary: t n) auto

lemma average_eq: "average vs = (if vs = [] then 0 else sum_list vs / real (length vs))"
  by (simp add: average_def optional_average_def average_fold)

lemma sum_list_nonneg_real: "\<forall>v\<in>set vs. 0 \<le> v \<Longrightarrow> 0 \<le> sum_list vs" for vs :: "real list"
  by (induction vs) auto

lemma average_nonneg: "\<forall>v\<in>set vs. 0 \<le> v \<Longrightarrow> 0 \<le> average vs"
  by (simp add: average_eq sum_list_nonneg_real)

lemma average_growth_nonneg: "0 \<le> average_context_growth_tokens f"
  unfolding average_context_growth_tokens_def by (rule average_nonneg) auto

section \<open>The best candidate\<close>

lemma best_ttl_spec:
  assumes "best_ttl utility ttls (b, Some u) = (b', u')"
  shows "\<exists>v. u' = Some v \<and> u \<le> v \<and> (\<forall>t\<in>set ttls. utility t \<le> v) \<and> (b' = b \<and> v = u \<or> b' \<in> set ttls \<and> v = utility b')"
  using assms
proof (induction ttls arbitrary: b u)
  case (Cons t ttls)
  show ?case
  proof (cases "u \<le> utility t")
    case True
    then obtain v where "u' = Some v" "utility t \<le> v" "\<forall>t\<in>set ttls. utility t \<le> v"
      "b' = t \<and> v = utility t \<or> b' \<in> set ttls \<and> v = utility b'"
      using Cons.IH [of t "utility t"] Cons.prems by auto
    then show ?thesis using True by auto
  next
    case False
    then obtain v where "u' = Some v" "u \<le> v" "\<forall>t\<in>set ttls. utility t \<le> v"
      "b' = b \<and> v = u \<or> b' \<in> set ttls \<and> v = utility b'"
      using Cons.IH [of b u] Cons.prems by auto
    then show ?thesis using False by auto
  qed
qed simp

lemma best_ttl_max:
  assumes "best_ttl utility ttls (0, None) = (b, u)" "ttls \<noteq> []"
  shows "b \<in> set ttls" "u = Some (utility b)" "\<forall>t\<in>set ttls. utility t \<le> utility b"
proof -
  obtain t ts where ttls: "ttls = t # ts" using assms(2) by (cases ttls) auto
  then have "best_ttl utility ts (t, Some (utility t)) = (b, u)" using assms(1) by simp
  from best_ttl_spec [OF this] show "b \<in> set ttls" "u = Some (utility b)" "\<forall>t\<in>set ttls. utility t \<le> utility b"
    using ttls by auto
qed

lemma ttl_candidates_range:
  assumes "0 < m" "t \<in> set (ttl_candidates m)"
  shows "0 \<le> t \<and> t \<le> m"
proof -
  let ?l = "min 0.05 m"
  have "exp (ln ?l + (ln m - ln ?l) * (real i / 31)) \<le> m" if "?l < m" "i < 32" for i
  proof -
    have "ln ?l \<le> ln m" using that assms(1) by (subst ln_le_cancel_iff) auto
    moreover have "real i / 31 \<le> 1" using that by simp
    ultimately have "(ln m - ln ?l) * (real i / 31) \<le> (ln m - ln ?l) * 1" by (intro mult_left_mono) auto
    then have "ln ?l + (ln m - ln ?l) * (real i / 31) \<le> ln m" unfolding mult_1_right by (simp only: le_diff_eq add.commute)
    then have "exp (ln ?l + (ln m - ln ?l) * (real i / 31)) \<le> exp (ln m)" by (simp only: exp_le_cancel_iff)
    then show ?thesis using assms(1) by simp
  qed
  then show ?thesis using assms by (auto simp: ttl_candidates_def Let_def split: if_splits)
qed

lemma from_secs_mono: "x \<le> y \<Longrightarrow> from_secs_f64 x \<le> from_secs_f64 y"
  unfolding from_secs_f64_def by (intro nat_mono round_mono mult_right_mono) auto

lemma from_secs_as_secs [simp]: "from_secs_f64 (as_secs_f64 d) = d"
  by (simp add: from_secs_f64_def as_secs_f64_def)

lemma from_secs_zero [simp]: "from_secs_f64 0 = 0"
  by (simp add: from_secs_f64_def)

definition fits :: "progress_ttl_config \<Rightarrow> progress_ttl_factors \<Rightarrow> real \<Rightarrow> bool" where
  "fits c f impact \<longleftrightarrow> continuity_window_complete f (stats_window_size c) \<and> fit_intervals f \<noteq> [] \<and>
     0 < max_acting_ttl c \<and> 0 < impact"

lemma fitted_cold: "\<not> fits c f impact \<Longrightarrow> fitted_acting_ttl c f impact = 0"
  by (auto simp: fits_def fitted_acting_ttl_def as_secs_f64_def Let_def)

lemma fitted_best:
  assumes "fits c f impact"
  obtains ttl where
    "ttl \<in> set (ttl_candidates (min (as_secs_f64 (max_acting_ttl c)) impact))"
    "fitted_acting_ttl c f impact = from_secs_f64 ttl"
    "\<forall>t\<in>set (ttl_candidates (min (as_secs_f64 (max_acting_ttl c)) impact)).
       ttl_utility impact (fit_log_mean (fit_intervals f)) (fit_log_sigma (fit_intervals f)) t
       \<le> ttl_utility impact (fit_log_mean (fit_intervals f)) (fit_log_sigma (fit_intervals f)) ttl"
proof -
  let ?m = "min (as_secs_f64 (max_acting_ttl c)) impact"
  let ?u = "ttl_utility impact (fit_log_mean (fit_intervals f)) (fit_log_sigma (fit_intervals f))"
  obtain b u where B: "best_ttl ?u (ttl_candidates ?m) (0, None) = (b, u)" by fastforce
  have ne: "ttl_candidates ?m \<noteq> []" "0 \<in> set (ttl_candidates ?m)" by (simp_all add: ttl_candidates_def Let_def)
  note best = best_ttl_max [OF B ne(1)]
  have "?u 0 \<le> ?u b" using best(3) ne(2) by blast
  then have pos: "0 \<le> ?u b" by (simp add: ttl_utility_def)
  have "0 < ?m" using assms by (simp add: fits_def as_secs_f64_def)
  then have "fitted_acting_ttl c f impact = from_secs_f64 b"
    using assms B best(2) pos by (simp add: fitted_acting_ttl_def fits_def Let_def not_le min_le_iff_disj)
  then show thesis using that best by blast
qed

section \<open>Properties\<close>

text \<open>After any sequence of samples each of the three windows holds exactly the latest
  samples of its kind, as many as its limit, in the order in which they were recorded.\<close>

theorem factor_windows_latest:
  "f_requests (fold (record_sample limit) es default_factors) = latest limit (requests_in es) \<and>
   continuities (fold (record_sample limit) es default_factors) = latest limit (continuities_in es) \<and>
   ttl_pause_rounds (fold (record_sample limit) es default_factors) = latest limit (pauses_in es)"
proof (induction es rule: rev_induct)
  case Nil
  then show ?case by (simp add: default_factors_def latest_def)
next
  case (snoc e es)
  then show ?case
    by (cases e) (simp_all add: push_request_def push_continuity_def push_ttl_pause_rounds_def push_bounded_latest)
qed

text \<open>C28: The fitted time to live is zero until there is a full window of intervals and a cost to
  save.  Then it is a candidate between zero and both the configured maximum and the cost of
  a miss, no candidate has a higher utility, and its utility is not negative.\<close>

theorem fitted_ttl_optimal:
  "(\<not> fits c f impact \<longrightarrow> fitted_acting_ttl c f impact = 0) \<and>
   fitted_acting_ttl c f impact \<le> max_acting_ttl c \<and>
   (0 \<le> impact \<longrightarrow> fitted_acting_ttl c f impact \<le> from_secs_f64 impact) \<and>
   (fits c f impact \<longrightarrow>
     (\<exists>ttl\<in>set (ttl_candidates (min (as_secs_f64 (max_acting_ttl c)) impact)).
        fitted_acting_ttl c f impact = from_secs_f64 ttl \<and>
        0 \<le> ttl_utility impact (fit_log_mean (fit_intervals f)) (fit_log_sigma (fit_intervals f)) ttl \<and>
        (\<forall>t\<in>set (ttl_candidates (min (as_secs_f64 (max_acting_ttl c)) impact)).
          ttl_utility impact (fit_log_mean (fit_intervals f)) (fit_log_sigma (fit_intervals f)) t
          \<le> ttl_utility impact (fit_log_mean (fit_intervals f)) (fit_log_sigma (fit_intervals f)) ttl)))"
proof (cases "fits c f impact")
  case True
  let ?m = "min (as_secs_f64 (max_acting_ttl c)) impact"
  let ?u = "ttl_utility impact (fit_log_mean (fit_intervals f)) (fit_log_sigma (fit_intervals f))"
  obtain ttl where ttl: "ttl \<in> set (ttl_candidates ?m)" "fitted_acting_ttl c f impact = from_secs_f64 ttl"
    "\<forall>t\<in>set (ttl_candidates ?m). ?u t \<le> ?u ttl"
    by (rule fitted_best [OF True])
  have "0 \<in> set (ttl_candidates ?m)" by (simp add: ttl_candidates_def Let_def)
  then have "?u 0 \<le> ?u ttl" using ttl(3) by blast
  then have pos: "0 \<le> ?u ttl" by (simp add: ttl_utility_def)
  have "0 < ?m" using True by (simp add: fits_def as_secs_f64_def)
  then have "ttl \<le> as_secs_f64 (max_acting_ttl c)" "ttl \<le> impact" using ttl_candidates_range [OF _ ttl(1)] by auto
  then have "from_secs_f64 ttl \<le> max_acting_ttl c" "from_secs_f64 ttl \<le> from_secs_f64 impact"
    using from_secs_mono [of ttl "as_secs_f64 (max_acting_ttl c)"] from_secs_mono [of ttl impact] by simp_all
  then show ?thesis using True ttl pos by auto
qed (simp add: fitted_cold)

definition sample_factors :: progress_ttl_factors where
  "sample_factors = push_continuity \<lparr>interval_seconds = 1, cs_cache_miss_impact_seconds = 6\<rparr> 1 default_factors"

theorem fitted_ttl_optimal_witness:
  "fitted_acting_ttl (default_progress_ttl\<lparr>stats_window_size := 1\<rparr>) sample_factors 6 \<le> 6 * 10 ^ 9"
  using fitted_ttl_optimal [of "default_progress_ttl\<lparr>stats_window_size := 1\<rparr>" sample_factors 6]
  by (simp add: from_secs_f64_def)

text \<open>With a valid configuration the target rounds are zero until the window is full and then
  lie between one and the configured maximum, and the growth reserve is never negative.\<close>

theorem target_rounds_bounded:
  assumes "1 \<le> max_segment_rounds c"
  shows "(if request_window_complete f (stats_window_size c)
          then 1 \<le> target_rounds c f \<and> target_rounds c f \<le> real (max_segment_rounds c)
          else target_rounds c f = 0) \<and>
     (list_all (\<lambda>r. 0 \<le> r) remaining \<longrightarrow> 0 \<le> continuous_growth_reserve_tokens c f remaining)"
  using assms sum_list_nonneg_real [of remaining] average_growth_nonneg [of f]
  by (auto simp: target_rounds_def clamp_def continuous_growth_reserve_tokens_def Let_def list_all_iff)

theorem target_rounds_bounded_witness:
  "target_rounds (default_progress_ttl\<lparr>stats_window_size := 0\<rparr>) sample_factors = 0"
  using target_rounds_bounded [of "default_progress_ttl\<lparr>stats_window_size := 0\<rparr>" sample_factors "[]"]
  by (simp add: default_progress_ttl_def request_window_complete_def)

text \<open>Batch gain admits a program only when the gain covers both costs; and when programs with
  protected rounds have growth room before the admission, room for their growth is left after
  the candidate's context and its growth over the target rounds are taken.\<close>

theorem batch_gain_leaves_room:
  assumes "admits (estimate_batch_gain c i)"
  shows "\<exists>capacity loss. token_capacity c = Some capacity \<and>
     continuity_loss_seconds (estimate_batch_gain c i) = Some loss \<and>
     bi_candidate_recovery_cost_seconds i + loss \<le> batch_gain_seconds (estimate_batch_gain c i) \<and>
     (0 < average_context_growth_tokens (bi_factors i) \<and> 0 < sum_list (protected_remaining_rounds i) \<and>
      bi_used_tokens i < real capacity * low_watermark_ratio c \<longrightarrow>
        bi_used_tokens i + bi_required_tokens i +
          average_context_growth_tokens (bi_factors i) * target_rounds c (bi_factors i)
        < real capacity * low_watermark_ratio c)"
proof -
  obtain capacity where cap: "token_capacity c = Some capacity"
    using assms by (auto simp: estimate_batch_gain_def disabled_gain_def split: option.splits)
  have est: "continuity_loss_seconds (estimate_batch_gain c i) = continuity_loss c capacity i \<and>
      (\<exists>loss. continuity_loss c capacity i = Some loss \<and>
         bi_candidate_recovery_cost_seconds i + loss \<le> batch_gain_seconds (estimate_batch_gain c i))"
    using assms cap by (simp add: estimate_batch_gain_def disabled_gain_def Let_def split: if_splits option.splits)
  then obtain loss where loss: "continuity_loss c capacity i = Some loss" by blast
  have "bi_used_tokens i + bi_required_tokens i + average_context_growth_tokens (bi_factors i) * target_rounds c (bi_factors i)
        < real capacity * low_watermark_ratio c"
    if "0 < average_context_growth_tokens (bi_factors i)" "0 < sum_list (protected_remaining_rounds i)"
      "bi_used_tokens i < real capacity * low_watermark_ratio c"
  proof -
    have "0 < rounds_before c capacity i" using that by (simp add: rounds_before_def Let_def)
    then have "f64_epsilon < rounds_after c capacity i"
      using loss that(1) by (simp add: continuity_loss_def Let_def split: if_splits)
    then have "0 < rounds_after c capacity i" by (rule less_trans [rotated]) (simp add: f64_epsilon_def)
    then have "0 < max (max (real capacity * low_watermark_ratio c - bi_used_tokens i) 0 - bi_required_tokens i -
        average_context_growth_tokens (bi_factors i) * target_rounds c (bi_factors i)) 0"
      using that(1) by (simp add: rounds_after_def Let_def zero_less_divide_iff)
    then show ?thesis using that(3) by (simp add: max_def split: if_splits)
  qed
  then show ?thesis using cap est loss by auto
qed

definition gain_config :: progress_ttl_config where
  "gain_config = default_progress_ttl\<lparr>token_capacity := Some 100, stats_window_size := 1,
     decode := \<lparr>fixed_step_seconds = 1, batch_step_seconds_per_request = 0, context_step_seconds_per_token = 0\<rparr>\<rparr>"

definition gain_inputs :: batch_gain_inputs where
  "gain_inputs = \<lparr>bi_factors = push_request \<lparr>rs_prompt_tokens = 10, rs_completion_tokens = 10, rs_cached_prompt_tokens = 0,
       rs_context_growth_tokens = Some 2, rs_e2e_seconds = 1, rs_decode_seconds = Some 1, rs_queue_seconds = 0,
       rs_rounds_since_ttl_pause = 1, rs_finished_at = 0\<rparr> 1 default_factors,
     batch_size_before = 1, total_context_tokens_before = 10, candidate_context_tokens = 10, bi_used_tokens = 10,
     bi_required_tokens = 10, protected_remaining_rounds = [1], protected_recovery_cost_seconds = [1],
     bi_candidate_recovery_cost_seconds = 0\<rparr>"

lemma gain_growth: "average_context_growth_tokens (bi_factors gain_inputs) = 2"
  by (simp add: gain_inputs_def push_request_def push_bounded_def default_factors_def
      average_context_growth_tokens_def average_eq map_filter_simps)

lemma gain_rounds: "target_rounds gain_config (bi_factors gain_inputs) = 2"
  by (simp add: gain_inputs_def gain_config_def push_request_def push_bounded_def default_factors_def target_rounds_def
      request_window_complete_def default_progress_ttl_def average_rounds_since_ttl_pause_def average_eq clamp_def)

lemma gain_loss: "continuity_loss gain_config 100 gain_inputs = Some 0"
proof -
  have f: "low_watermark_ratio gain_config = 1" "bi_used_tokens gain_inputs = 10" "bi_required_tokens gain_inputs = 10"
    "protected_remaining_rounds gain_inputs = [1]"
    by (simp_all add: gain_inputs_def gain_config_def default_progress_ttl_def)
  have "rounds_before gain_config 100 gain_inputs = 1" "rounds_after gain_config 100 gain_inputs = 1"
    by (simp_all add: rounds_before_def rounds_after_def gain_growth gain_rounds f)
  then show ?thesis by (simp add: continuity_loss_def gain_growth f64_epsilon_def gain_inputs_def)
qed

lemma gain_admits: "admits (estimate_batch_gain gain_config gain_inputs)"
  using gain_loss
  by (simp add: estimate_batch_gain_def gain_config_def default_progress_ttl_def gain_inputs_def push_request_def
      push_bounded_def default_factors_def request_window_complete_def decode_throughput_def average_decode_seconds_def
      optional_average_def map_filter_simps)

theorem batch_gain_leaves_room_witness:
  "token_capacity gain_config = Some 100 \<and> admits (estimate_batch_gain gain_config gain_inputs) \<and>
   bi_used_tokens gain_inputs + bi_required_tokens gain_inputs + 2 * 2 < 100 * low_watermark_ratio gain_config"
proof -
  have f: "low_watermark_ratio gain_config = 1" "bi_used_tokens gain_inputs = 10" "token_capacity gain_config = Some 100"
    "protected_remaining_rounds gain_inputs = [1]"
    by (simp_all add: gain_inputs_def gain_config_def default_progress_ttl_def)
  show ?thesis using batch_gain_leaves_room [OF gain_admits] gain_admits by (auto simp: gain_growth gain_rounds f)
qed

end
