(* ===== verification/Scheduler_State.thy ===== *)
theory Scheduler_State
  imports Program_Binding Program_Lineage Progress_Ttl "HOL-Library.Option_ord"
begin

text \<open>
  The state of the program scheduler, \<^verbatim>\<open>program_scheduling/scheduler_state.rs\<close>, and the operations
  of \<^verbatim>\<open>program_scheduling/scheduler.rs\<close> that read it or install observations: the usage of a
  target, the candidates for a binding, the decision state of a program, and the observations
  of the backends.  All of them run under the scheduler's one lock.

  \<^item> The iteration order of a \<^verbatim>\<open>HashMap\<close> is arbitrary: the orders the scheduler observes, those of
    the programs, of the queues and of the model pools, are fields of \<open>program_scheduler\<close>.
  \<^item> A \<^verbatim>\<open>BTreeSet\<close> is its sorted list of elements and a \<^verbatim>\<open>BTreeMap\<close> its list of entries in key order.
  \<^item> A target snapshot is shared by reference; its \<open>address\<close> is what \<^verbatim>\<open>Arc::ptr_eq\<close> compares.
  \<^item> Token counts are naturals with \<^verbatim>\<open>usize\<close> saturation written out; \<^verbatim>\<open>f64\<close> values are reals.
  \<^item> Metrics and log events are not modelled.
\<close>

section \<open>Configuration\<close>

datatype program_scheduling_enable_key = Agentic_Context | Auto

datatype program_resume_order = Fcfs | Mru

record program_scheduler_config =
  enable_key :: program_scheduling_enable_key
  binding_only :: bool
  global_queue :: bool
  resume_order :: program_resume_order
  cross_rank_headroom_ratio :: real
  binding_strategy :: program_binding_strategy
  hash_virtual_nodes :: nat
  max_active_programs_per_target :: nat
  metrics_interval :: duration
  admission_waiting_request_threshold :: nat
  queue_timeout :: duration
  cfg_force_resume_timeout :: duration
  paused_retention_ttl :: duration
  shared_prefix_freshness_warmup :: duration
  shared_prefix_freshness_kv_turnovers :: real
  progress_ttl :: progress_ttl_config

definition default_scheduler_config :: program_scheduler_config where
  "default_scheduler_config = \<lparr>enable_key = Agentic_Context, binding_only = False, global_queue = False,
     resume_order = Mru, cross_rank_headroom_ratio = 1.2, binding_strategy = Consistent_Hash,
     hash_virtual_nodes = 160, max_active_programs_per_target = 64, metrics_interval = 10 ^ 9,
     admission_waiting_request_threshold = 1, queue_timeout = 600 * 10 ^ 9,
     cfg_force_resume_timeout = 300 * 10 ^ 9, paused_retention_ttl = 1800 * 10 ^ 9,
     shared_prefix_freshness_warmup = 100 * 10 ^ 9, shared_prefix_freshness_kv_turnovers = 2,
     progress_ttl = default_progress_ttl\<rparr>"

section \<open>Decision state\<close>

datatype program_pause_reason =
  Ttl_Expired | Capacity_Repair | Max_Segment_Yield | Request_Failed | Request_Cancelled

record program_decision_state =
  ds_placement_key :: str
  ds_placement_hash_key :: str
  ds_task_id :: "str option"
  ds_session_id :: "str option"
  ds_agent_id :: "str option"
  ds_parent_program_id :: "str option"
  ds_blocks_parent :: bool
  ds_agent_role :: "str option"
  ds_spawn_reason :: "str option"
  ds_step_id :: nat
  home_target :: "str option"
  last_target :: "str option"
  ds_estimated_context_tokens :: nat
  output_token_reservation :: "nat option"
  context_shrink_observations :: nat
  completed_requests :: nat
  segment_served_rounds :: nat
  rounds_since_activation :: nat
  ttl_pause_sampled_segment_rounds :: nat
  rounds_since_ttl_pause :: nat
  segment_started_at :: "instant option"
  last_context_tokens :: "nat option"
  last_completion_tokens :: nat
  shared_prefix_tokens :: nat
  shared_prefix_observed :: bool
  shared_prefix_freshness_anchor_at :: instant
  shared_prefix_fresh_until :: "instant option"
  lifetime_generated_tokens :: nat
  last_request_finished_at :: "instant option"
  last_cache_miss_impact_seconds :: real
  acting_since :: "instant option"
  ttl_deadline :: "instant option"
  queued_at :: "instant option"
  force_resume_deadline :: "instant option"
  ds_force_resume_timeout :: "duration option"
  force_resume_active_remaining_rounds :: real
  force_resume_pool_remaining_rounds :: real
  force_resume_request_throughput_per_second :: real
  paused_at :: "instant option"
  last_pause_reason :: "program_pause_reason option"
  pause_when_idle :: bool
  terminate_when_idle :: bool

definition new_decision :: "str \<Rightarrow> str \<Rightarrow> str option \<Rightarrow> nat \<Rightarrow> instant \<Rightarrow> program_decision_state" where
  "new_decision key hash_key home tokens now = \<lparr>
     ds_placement_key = key, ds_placement_hash_key = hash_key, ds_task_id = None, ds_session_id = None,
     ds_agent_id = None, ds_parent_program_id = None, ds_blocks_parent = False, ds_agent_role = None,
     ds_spawn_reason = None, ds_step_id = 0, home_target = home, last_target = home,
     ds_estimated_context_tokens = tokens, output_token_reservation = None, context_shrink_observations = 0,
     completed_requests = 0, segment_served_rounds = 0, rounds_since_activation = 0,
     ttl_pause_sampled_segment_rounds = 0, rounds_since_ttl_pause = 0, segment_started_at = None,
     last_context_tokens = None, last_completion_tokens = 0, shared_prefix_tokens = 0,
     shared_prefix_observed = False, shared_prefix_freshness_anchor_at = now, shared_prefix_fresh_until = None,
     lifetime_generated_tokens = 0, last_request_finished_at = None, last_cache_miss_impact_seconds = 0,
     acting_since = None, ttl_deadline = None, queued_at = Some now, force_resume_deadline = None,
     ds_force_resume_timeout = None, force_resume_active_remaining_rounds = 0,
     force_resume_pool_remaining_rounds = 0, force_resume_request_throughput_per_second = 0,
     paused_at = Some now, last_pause_reason = None, pause_when_idle = False, terminate_when_idle = False\<rparr>"

definition sat_add :: "nat \<Rightarrow> nat \<Rightarrow> nat" where
  "sat_add a b = min (a + b) (2 ^ 64 - 1)"

definition private_tokens_with_output :: "program_decision_state \<Rightarrow> nat \<Rightarrow> nat option \<Rightarrow> real" where
  "private_tokens_with_output d decode_buffer expected_output =
     real (sat_add (ds_estimated_context_tokens d - shared_prefix_tokens d)
       (case expected_output of Some n \<Rightarrow> n
        | None \<Rightarrow> (case output_token_reservation d of Some n \<Rightarrow> n | None \<Rightarrow> decode_buffer)))"

definition private_tokens :: "program_decision_state \<Rightarrow> nat \<Rightarrow> real" where
  "private_tokens d decode_buffer = private_tokens_with_output d decode_buffer None"

definition observe_completed_context :: "nat \<Rightarrow> program_decision_state \<Rightarrow> program_decision_state" where
  "observe_completed_context observed d =
     (if ds_estimated_context_tokens d \<le> observed
      then d\<lparr>ds_estimated_context_tokens := observed, context_shrink_observations := 0\<rparr>
      else
        let n = min (context_shrink_observations d + 1) 255 in
        if 2 \<le> n then d\<lparr>ds_estimated_context_tokens := observed, context_shrink_observations := 0\<rparr>
        else d\<lparr>context_shrink_observations := n\<rparr>)"

section \<open>Observations and state\<close>

datatype capacity_accounting_source =
  Backend_Observation | Router_Ledger_Missing_Observation | Router_Ledger_Stale_Observation
| Router_Ledger_Missing_Token_Estimate

record rank_observation_state =
  kv_cache_usage :: "real option"
  running_requests :: "nat option"
  waiting_requests :: "nat option"
  router_active_reasoning_programs :: nat
  router_active_reasoning_requests :: nat
  estimated_active_reasoning_tokens :: "real option"
  estimated_active_program_tokens :: "real option"
  observed_at :: "instant option"
  active_program_token_delta :: real
  reported_capacity_source :: "capacity_accounting_source option"

definition default_observation :: rank_observation_state where
  "default_observation = \<lparr>kv_cache_usage = None, running_requests = None, waiting_requests = None,
     router_active_reasoning_programs = 0, router_active_reasoning_requests = 0,
     estimated_active_reasoning_tokens = None, estimated_active_program_tokens = None, observed_at = None,
     active_program_token_delta = 0, reported_capacity_source = None\<rparr>"

record program_target =
  t_id :: str
  base_url :: str
  t_dp_rank :: "nat option"

record target_snapshot =
  address :: nat
  snapshot_targets :: "program_target list"

record program_scheduler_state =
  runtime :: program_runtime
  sc_bindings :: program_bindings
  decisions :: "program_ref \<rightharpoonup> program_decision_state"
  targets :: "(str \<times> program_target) list"
  model_targets :: "str \<rightharpoonup> str list"
  model_target_snapshots :: "str \<rightharpoonup> target_snapshot"
  target_snapshot_revision :: nat
  rank_queues :: "str \<rightharpoonup> program_ref list"
  global_queues :: "str \<rightharpoonup> program_ref list"
  observations :: "str \<rightharpoonup> rank_observation_state"
  rank_factors :: "str \<rightharpoonup> progress_ttl_factors"
  sc_lineage :: lineage

record program_scheduler =
  sch_config :: program_scheduler_config
  hash_programs :: "(runtime_key \<rightharpoonup> runtime_program) \<Rightarrow> runtime_program list"
  hash_keys :: "(str \<rightharpoonup> program_ref list) \<Rightarrow> str list"
  hash_models :: "(str \<rightharpoonup> str list) \<Rightarrow> str list"

definition new_state :: "program_scheduler_config \<Rightarrow> program_scheduler_state" where
  "new_state c = \<lparr>runtime = empty_runtime, sc_bindings = new_bindings (binding_strategy c) (hash_virtual_nodes c),
     decisions = Map.empty, targets = [], model_targets = Map.empty, model_target_snapshots = Map.empty,
     target_snapshot_revision = 0, rank_queues = Map.empty, global_queues = Map.empty,
     observations = Map.empty, rank_factors = Map.empty, sc_lineage = []\<rparr>"

abbreviation decode_buffer :: "program_scheduler \<Rightarrow> nat" where
  "decode_buffer sch \<equiv> decode_buffer_tokens (progress_ttl (sch_config sch))"

abbreviation window_size :: "program_scheduler \<Rightarrow> nat" where
  "window_size sch \<equiv> stats_window_size (progress_ttl (sch_config sch))"

abbreviation capacity_of :: "program_scheduler \<Rightarrow> nat option" where
  "capacity_of sch \<equiv> token_capacity (progress_ttl (sch_config sch))"

text \<open>Each order lists the entries of a finite map, each once.\<close>

definition iteration_ok :: "program_scheduler \<Rightarrow> bool" where
  "iteration_ok sch \<longleftrightarrow>
     (\<forall>m. finite (dom m) \<longrightarrow> inj_on m (dom m) \<longrightarrow> distinct (hash_programs sch m)) \<and>
     (\<forall>m. finite (dom m) \<longrightarrow> set (hash_programs sch m) = ran m) \<and>
     (\<forall>m. finite (dom m) \<longrightarrow> set (hash_keys sch m) = dom m) \<and>
     (\<forall>m. finite (dom m) \<longrightarrow> set (hash_models sch m) = dom m)"

section \<open>Views of the runtime\<close>

record runtime_program_view_ref =
  vr_reference :: program_ref
  vr_state :: program_state
  vr_status :: program_status
  vr_expected_resume :: bool
  vr_placement :: "str option"
  vr_estimated_context_tokens :: nat
  vr_in_flight_requests :: nat
  vr_waiting_requests :: nat

definition view_ref :: "program_runtime \<Rightarrow> runtime_program \<Rightarrow> runtime_program_view_ref" where
  "view_ref rt p = \<lparr>vr_reference = reference p, vr_state = rp_state p, vr_status = rp_status p,
     vr_expected_resume = rp_expected_resume p, vr_placement = placement p,
     vr_estimated_context_tokens = estimated_context_tokens p, vr_in_flight_requests = in_flight_requests p,
     vr_waiting_requests = program_len (request_pool rt) (reference p)\<rparr>"

definition iter_views :: "program_scheduler \<Rightarrow> program_runtime \<Rightarrow> runtime_program_view_ref list" where
  "iter_views sch rt = map (view_ref rt) (hash_programs sch (programs rt))"

definition active_on :: "str \<Rightarrow> runtime_program_view_ref \<Rightarrow> bool" where
  "active_on t v \<longleftrightarrow> vr_state v = Active \<and> vr_placement v = Some t"

section \<open>Usage of a target\<close>

definition observation_is_fresh :: "program_scheduler \<Rightarrow> rank_observation_state \<Rightarrow> instant \<Rightarrow> bool" where
  "observation_is_fresh sch obs now =
     (case observed_at obs of None \<Rightarrow> False | Some since \<Rightarrow> now - since \<le> metrics_interval (sch_config sch) * 3)"

definition capacity_accounting_source :: "program_scheduler \<Rightarrow> rank_observation_state option \<Rightarrow> instant \<Rightarrow> capacity_accounting_source" where
  "capacity_accounting_source sch obs now =
     (case obs of
        None \<Rightarrow> Router_Ledger_Missing_Observation
      | Some ob \<Rightarrow>
          (case observed_at ob of
             None \<Rightarrow> Router_Ledger_Missing_Observation
           | Some since \<Rightarrow>
               if metrics_interval (sch_config sch) * 3 < now - since then Router_Ledger_Stale_Observation
               else if estimated_active_program_tokens ob = None then Router_Ledger_Missing_Token_Estimate
               else Backend_Observation))"

definition observation_of :: "program_scheduler_state \<Rightarrow> str \<Rightarrow> rank_observation_state" where
  "observation_of st t = (case observations st t of Some ob \<Rightarrow> ob | None \<Rightarrow> default_observation)"

definition factors_of :: "program_scheduler_state \<Rightarrow> str \<Rightarrow> progress_ttl_factors" where
  "factors_of st t = (case rank_factors st t of Some f \<Rightarrow> f | None \<Rightarrow> default_factors)"

definition report_capacity_accounting_transitions :: "program_scheduler \<Rightarrow> program_scheduler_state \<Rightarrow> instant \<Rightarrow> program_scheduler_state" where
  "report_capacity_accounting_transitions sch st now =
     fold (\<lambda>t st. st\<lparr>observations := (observations st)(t \<mapsto>
         (observation_of st t)\<lparr>reported_capacity_source := Some (capacity_accounting_source sch (observations st t) now)\<rparr>)\<rparr>)
       (map fst (targets st)) st"

definition observed_target_usage :: "program_scheduler \<Rightarrow> program_scheduler_state \<Rightarrow> str \<Rightarrow> instant \<Rightarrow> real option" where
  "observed_target_usage sch st t now =
     (case observations st t of
        None \<Rightarrow> None
      | Some ob \<Rightarrow>
          if observation_is_fresh sch ob now
          then map_option (\<lambda>tokens. max (tokens + active_program_token_delta ob) 0) (estimated_active_program_tokens ob)
          else None)"

definition target_usage :: "program_scheduler \<Rightarrow> program_scheduler_state \<Rightarrow> str \<Rightarrow> instant \<Rightarrow> real" where
  "target_usage sch st t now =
     (case observed_target_usage sch st t now of
        Some tokens \<Rightarrow> tokens
      | None \<Rightarrow>
          sum_list (map (\<lambda>d. private_tokens d (decode_buffer sch))
            (List.map_filter (\<lambda>v. decisions st (vr_reference v)) (filter (active_on t) (iter_views sch (runtime st))))))"

definition adjust_usage :: "program_scheduler_state \<Rightarrow> str \<Rightarrow> real \<Rightarrow> program_scheduler_state" where
  "adjust_usage st t delta =
     st\<lparr>observations := (observations st)(t \<mapsto>
       (observation_of st t)\<lparr>active_program_token_delta := active_program_token_delta (observation_of st t) + delta\<rparr>)\<rparr>"

section \<open>Candidates for a binding\<close>

record binding_runtime_summary =
  su_accounted_programs :: nat
  su_accounted_tokens :: real
  pending_new_program_tokens :: real
  active_programs :: nat
  router_usage :: real

definition default_summary :: binding_runtime_summary where
  "default_summary = \<lparr>su_accounted_programs = 0, su_accounted_tokens = 0, pending_new_program_tokens = 0,
     active_programs = 0, router_usage = 0\<rparr>"

definition upd_summary :: "str option \<Rightarrow> (binding_runtime_summary \<Rightarrow> binding_runtime_summary) \<Rightarrow>
    (str \<rightharpoonup> binding_runtime_summary) \<Rightarrow> (str \<rightharpoonup> binding_runtime_summary)" where
  "upd_summary t f m =
     (case t of
        None \<Rightarrow> m
      | Some t \<Rightarrow> (case m t of None \<Rightarrow> m | Some s \<Rightarrow> m(t \<mapsto> f s)))"

definition summarize :: "program_scheduler \<Rightarrow> program_scheduler_state \<Rightarrow> runtime_program_view_ref \<Rightarrow>
    (str \<rightharpoonup> binding_runtime_summary) \<Rightarrow> (str \<rightharpoonup> binding_runtime_summary)" where
  "summarize sch st v m =
     (let m1 = (if vr_state v = Active
                then upd_summary (vr_placement v)
                       (\<lambda>s. s\<lparr>active_programs := active_programs s + 1,
                              router_usage := router_usage s +
                                (case decisions st (vr_reference v) of
                                   Some d \<Rightarrow> private_tokens d (decode_buffer sch) | None \<Rightarrow> 0)\<rparr>) m
                else m)
      in case decisions st (vr_reference v) of
           None \<Rightarrow> m1
         | Some d \<Rightarrow>
             upd_summary (last_target d)
               (\<lambda>s. let tokens = private_tokens d (decode_buffer sch);
                        s1 = (if vr_state v = Active \<or> vr_status v = Reasoning
                              then s\<lparr>su_accounted_programs := su_accounted_programs s + 1,
                                     su_accounted_tokens := su_accounted_tokens s + tokens\<rparr> else s)
                    in if vr_state v = Paused \<and> vr_status v = Reasoning \<and> vr_placement v = None \<and>
                          0 < vr_waiting_requests v \<and> completed_requests d = 0
                       then s1\<lparr>pending_new_program_tokens := pending_new_program_tokens s1 + tokens\<rparr> else s1) m1)"

definition binding_candidates :: "program_scheduler \<Rightarrow> program_scheduler_state \<Rightarrow> program_identity \<Rightarrow> instant \<Rightarrow>
    program_binding_candidate list" where
  "binding_candidates sch st identity now =
     (case model_targets st (id_model_pool identity) of
        None \<Rightarrow> []
      | Some ids \<Rightarrow>
          let views = iter_views sch (runtime st);
              summaries = fold (summarize sch st) views (\<lambda>t. if t \<in> set ids then Some default_summary else None);
              context_tokens = fold (\<lambda>v n. if key_of_ref (vr_reference v) = key_of_identity identity
                                           then vr_estimated_context_tokens v else n) views 0;
              required_tokens = real (sat_add context_tokens (decode_buffer sch))
          in map (\<lambda>t.
               let summary = the (summaries t);
                   usage = (case observed_target_usage sch st t now of Some u \<Rightarrow> u | None \<Rightarrow> router_usage summary)
               in \<lparr>bc_target_id = t, accounted_programs = su_accounted_programs summary,
                   accounted_tokens = su_accounted_tokens summary, capacity_tokens = capacity_of sch,
                   bc_kv_pressure =
                     (case capacity_of sch of
                        None \<Rightarrow> 0
                      | Some capacity \<Rightarrow>
                          if capacity = 0 then 1
                          else clamp ((usage + pending_new_program_tokens summary) / real capacity) 0 1),
                   immediately_admissible =
                     (sat_add (active_programs summary) 1 \<le> max_active_programs_per_target (sch_config sch) \<and>
                      (case capacity_of sch of
                         None \<Rightarrow> True
                       | Some capacity \<Rightarrow>
                           usage + required_tokens \<le> real capacity * low_watermark_ratio (progress_ttl (sch_config sch))))\<rparr>) ids)"

section \<open>The decision state of a program\<close>

text \<open>An observation of the lineage always returns on the forests the scheduler reaches, so the
  other case, in which the code would not return, does not arise.\<close>

definition observe_lineage :: "lineage \<Rightarrow> program_identity \<Rightarrow> lineage" where
  "observe_lineage m i =
     (case observe m (id_model_pool i) (id_program_id i) (parent_program_id i) (root_program_id i) of
        Some (r, m') \<Rightarrow> m' | None \<Rightarrow> m)"

definition copy_identity :: "program_identity \<Rightarrow> nat \<Rightarrow> program_decision_state \<Rightarrow> program_decision_state" where
  "copy_identity i default_step d = d\<lparr>
     ds_task_id := task_id i, ds_session_id := session_id i, ds_agent_id := agent_id i,
     ds_parent_program_id := parent_program_id i, ds_blocks_parent := blocks_parent i,
     ds_agent_role := agent_role i, ds_spawn_reason := spawn_reason i,
     output_token_reservation := expected_output_tokens (request_hints i),
     ds_step_id := (case step_id i of Some n \<Rightarrow> n | None \<Rightarrow> default_step)\<rparr>"

definition ensure_decision_state :: "program_scheduler \<Rightarrow> program_scheduler_state \<Rightarrow> program_identity \<Rightarrow> program_ref \<Rightarrow>
    nat \<Rightarrow> instant \<Rightarrow> str option \<Rightarrow> binding_panic + program_scheduler_state" where
  "ensure_decision_state sch st0 identity p tokens now routing_text =
     (let st = st0\<lparr>sc_lineage := observe_lineage (sc_lineage st0) identity\<rparr> in
      case decisions st p of
        Some d \<Rightarrow>
          let d1 = (if ds_estimated_context_tokens d \<le> tokens
                    then d\<lparr>ds_estimated_context_tokens := tokens, context_shrink_observations := 0\<rparr> else d)
          in Inr (st\<lparr>decisions := (decisions st)(p \<mapsto> copy_identity identity (saturating_inc (ds_step_id d1)) d1)\<rparr>)
      | None \<Rightarrow>
          (case Program_Binding.bind (sc_bindings st) identity (binding_candidates sch st identity now) routing_text of
             Inl e \<Rightarrow> Inl e
           | Inr (home, b) \<Rightarrow>
               Inr (st\<lparr>sc_bindings := b,
                 decisions := (decisions st)(p \<mapsto> copy_identity identity 0
                   (new_decision (placement_key identity) (placement_hash_key identity) home tokens now))\<rparr>)))"

section \<open>Backend observations\<close>

record observation_checkpoint =
  ledger_checkpoint :: real
  active_reasoning_programs :: nat
  active_reasoning_requests :: nat
  active_reasoning_private_tokens :: real
  active_acting_private_tokens :: real

record backend_observation_epoch =
  epoch_revision :: nat
  checkpoints :: "str \<rightharpoonup> observation_checkpoint"

record backend_observation =
  bo_target_id :: str
  bo_base_url :: str
  bo_dp_rank :: "nat option"
  bo_kv_cache_usage :: "real option"
  bo_running_requests :: "nat option"
  bo_waiting_requests :: "nat option"
  bo_observed_at :: instant

definition checkpoint_program :: "program_scheduler \<Rightarrow> program_scheduler_state \<Rightarrow> runtime_program_view_ref \<Rightarrow>
    (str \<rightharpoonup> observation_checkpoint) \<Rightarrow> (str \<rightharpoonup> observation_checkpoint)" where
  "checkpoint_program sch st v m =
     (if vr_state v \<noteq> Active then m
      else case vr_placement v of
             None \<Rightarrow> m
           | Some t \<Rightarrow>
               (case m t of
                  None \<Rightarrow> m
                | Some c \<Rightarrow>
                    let tokens = (case decisions st (vr_reference v) of
                                    Some d \<Rightarrow> private_tokens d (decode_buffer sch) | None \<Rightarrow> 0)
                    in m(t \<mapsto>
                         (case vr_status v of
                            Reasoning \<Rightarrow> c\<lparr>active_reasoning_programs := active_reasoning_programs c + 1,
                              active_reasoning_requests := active_reasoning_requests c + vr_in_flight_requests v,
                              active_reasoning_private_tokens := active_reasoning_private_tokens c + tokens\<rparr>
                          | Acting \<Rightarrow> c\<lparr>active_acting_private_tokens := active_acting_private_tokens c + tokens\<rparr>))))"

definition begin_observation :: "program_scheduler \<Rightarrow> program_scheduler_state \<Rightarrow> program_target list \<Rightarrow> backend_observation_epoch" where
  "begin_observation sch st ts =
     \<lparr>epoch_revision = target_snapshot_revision st,
      checkpoints = fold (checkpoint_program sch st) (iter_views sch (runtime st))
        (\<lambda>t. if t \<in> t_id ` set ts
             then Some \<lparr>ledger_checkpoint = active_program_token_delta (observation_of st t),
                        active_reasoning_programs = 0, active_reasoning_requests = 0,
                        active_reasoning_private_tokens = 0, active_acting_private_tokens = 0\<rparr>
             else None)\<rparr>"

definition estimated_reasoning :: "program_scheduler \<Rightarrow> observation_checkpoint \<Rightarrow> backend_observation \<Rightarrow> real option" where
  "estimated_reasoning sch c raw =
     (case (bo_kv_cache_usage raw, capacity_of sch) of
        (Some usage, Some capacity) \<Rightarrow>
          let native_used = usage * real capacity;
              running = (case bo_running_requests raw of Some n \<Rightarrow> n | None \<Rightarrow> 0)
          in Some (if 0 < running then native_used * real (max (active_reasoning_programs c) running) / real running
                   else if 0 < active_reasoning_programs c then active_reasoning_private_tokens c
                   else native_used)
      | _ \<Rightarrow> None)"

definition apply_observation :: "program_scheduler \<Rightarrow> backend_observation_epoch \<Rightarrow> backend_observation \<Rightarrow>
    program_scheduler_state \<Rightarrow> program_scheduler_state" where
  "apply_observation sch epoch raw st =
     (case checkpoints epoch (bo_target_id raw) of
        None \<Rightarrow> st
      | Some c \<Rightarrow>
          if bo_target_id raw \<notin> fst ` set (targets st) then st
          else
            let estimated = estimated_reasoning sch c raw; ob = observation_of st (bo_target_id raw)
            in st\<lparr>observations := (observations st)(bo_target_id raw \<mapsto> ob\<lparr>
                 active_program_token_delta := active_program_token_delta ob - ledger_checkpoint c,
                 kv_cache_usage := bo_kv_cache_usage raw, running_requests := bo_running_requests raw,
                 waiting_requests := bo_waiting_requests raw,
                 router_active_reasoning_programs := active_reasoning_programs c,
                 router_active_reasoning_requests := active_reasoning_requests c,
                 estimated_active_reasoning_tokens := estimated,
                 estimated_active_program_tokens := map_option (\<lambda>r. r + active_acting_private_tokens c) estimated,
                 observed_at := Some (bo_observed_at raw)\<rparr>)\<rparr>)"

definition apply_observations :: "program_scheduler \<Rightarrow> backend_observation_epoch \<Rightarrow> backend_observation list \<Rightarrow>
    program_scheduler_state \<Rightarrow> program_scheduler_state" where
  "apply_observations sch epoch raws st =
     (if epoch_revision epoch \<noteq> target_snapshot_revision st then st
      else fold (apply_observation sch epoch) raws st)"

section \<open>Rust orderings\<close>

datatype ordering = Less | Equal | Greater

fun then_with :: "ordering \<Rightarrow> ordering \<Rightarrow> ordering" where
  "then_with Equal o' = o'"
| "then_with Less o' = Less"
| "then_with Greater o' = Greater"

definition cmp :: "'k::linorder \<Rightarrow> 'k \<Rightarrow> ordering" where
  "cmp a b = (if a < b then Less else if a = b then Equal else Greater)"

text \<open>\<^verbatim>\<open>sort_by\<close> is stable; \<^verbatim>\<open>min_by\<close> keeps the first of equal elements.\<close>

fun insort_by :: "('a \<Rightarrow> 'a \<Rightarrow> ordering) \<Rightarrow> 'a \<Rightarrow> 'a list \<Rightarrow> 'a list" where
  "insort_by c x [] = [x]"
| "insort_by c x (y # ys) = (if c x y = Greater then y # insort_by c x ys else x # y # ys)"

definition sort_by :: "('a \<Rightarrow> 'a \<Rightarrow> ordering) \<Rightarrow> 'a list \<Rightarrow> 'a list" where
  "sort_by c xs = foldr (insort_by c) xs []"

fun min_by :: "('a \<Rightarrow> 'a \<Rightarrow> ordering) \<Rightarrow> 'a list \<Rightarrow> 'a option" where
  "min_by c [] = None"
| "min_by c (x # xs) = Some (fold (\<lambda>y acc. if c acc y = Greater then y else acc) xs x)"

fun find_map :: "('a \<Rightarrow> 'b option) \<Rightarrow> 'a list \<Rightarrow> 'b option" where
  "find_map f [] = None"
| "find_map f (x # xs) = (case f x of Some y \<Rightarrow> Some y | None \<Rightarrow> find_map f xs)"

lemma set_insort_by [simp]: "set (insort_by c x xs) = insert x (set xs)"
  by (induction xs) auto

lemma set_sort_by [simp]: "set (sort_by c xs) = set xs"
  by (induction xs) (auto simp: sort_by_def)

lemma mset_insort_by [simp]: "mset (insort_by c x xs) = add_mset x (mset xs)"
  by (induction xs) auto

lemma mset_sort_by [simp]: "mset (sort_by c xs) = mset xs"
  by (induction xs) (auto simp: sort_by_def)

text \<open>A comparison that is total and transitive sorts.\<close>

definition comparison :: "('a \<Rightarrow> 'a \<Rightarrow> ordering) \<Rightarrow> bool" where
  "comparison c \<longleftrightarrow> (\<forall>a b. c a b \<noteq> Greater \<or> c b a \<noteq> Greater) \<and>
     (\<forall>a b d. c a b \<noteq> Greater \<longrightarrow> c b d \<noteq> Greater \<longrightarrow> c a d \<noteq> Greater)"

lemma sorted_insort_by:
  assumes "comparison c" "sorted_wrt (\<lambda>a b. c a b \<noteq> Greater) xs"
  shows "sorted_wrt (\<lambda>a b. c a b \<noteq> Greater) (insort_by c x xs)"
  using assms(2)
proof (induction xs)
  case (Cons y ys)
  show ?case
  proof (cases "c x y = Greater")
    case True
    then have "c y x \<noteq> Greater" using assms(1) unfolding comparison_def by blast
    then show ?thesis using True Cons by simp
  next
    case False
    have "c x z \<noteq> Greater" if "z \<in> set ys" for z
    proof -
      have "c y z \<noteq> Greater" using Cons.prems that by simp
      then show ?thesis using assms(1) False unfolding comparison_def by blast
    qed
    then show ?thesis using False Cons.prems by simp
  qed
qed simp

lemma sorted_sort_by: "comparison c \<Longrightarrow> sorted_wrt (\<lambda>a b. c a b \<noteq> Greater) (sort_by c xs)"
  by (induction xs) (simp_all add: sort_by_def sorted_insort_by)

lemma find_map_SomeD:
  assumes "find_map f xs = Some y"
  obtains us x vs where "xs = us @ x # vs" "f x = Some y" "\<forall>u\<in>set us. f u = None"
  using assms
proof (induction xs arbitrary: thesis)
  case (Cons x xs)
  show ?case
  proof (cases "f x")
    case None
    with Cons.prems(2) have "find_map f xs = Some y" by simp
    then obtain us x' vs where "xs = us @ x' # vs" "f x' = Some y" "\<forall>u\<in>set us. f u = None" by (rule Cons.IH [rotated])
    then show ?thesis using None Cons.prems(1) [of "x # us" x' vs] by simp
  next
    case (Some z)
    then show ?thesis using Cons.prems(2) Cons.prems(1) [of "[]" x xs] by simp
  qed
qed simp

lemma find_map_in:
  assumes "find_map f xs = Some y"
  obtains x where "x \<in> set xs" "f x = Some y"
  using assms by (rule find_map_SomeD) auto

lemma find_map_None: "find_map f xs = None \<longleftrightarrow> (\<forall>x\<in>set xs. f x = None)"
  by (induction xs) (auto split: option.split)

end
