(* ===== verification/Scheduler_Admission.thy ===== *)
theory Scheduler_Admission
  imports Scheduler_State
begin

text \<open>
  Admission of paused programs: the resume order, the capacity check and the local scheduling
  loop of \<^verbatim>\<open>program_scheduling/scheduler_admission.rs\<close>, and the model-wide queue of
  \<^verbatim>\<open>scheduler_global.rs\<close>.

  A decision that the code takes with an index (\<^verbatim>\<open>state.decisions[program]\<close>, which panics when there is
  none) is read with \<open>decision_of\<close>; theory \<open>Scheduler_Run\<close> shows that every program that is live has one.

  The scheduling loops commit a candidate as long as one has a plan.  A commit removes the
  candidate from every queue, so each loop ends after at most as many turns as its queue is
  long; they are functions with that measure.
\<close>

section \<open>Resume order\<close>

definition decision_of :: "program_scheduler_state \<Rightarrow> program_ref \<Rightarrow> program_decision_state" where
  "decision_of st p = the (decisions st p)"

definition is_forced :: "program_decision_state \<Rightarrow> instant \<Rightarrow> bool" where
  "is_forced d now = (case force_resume_deadline d of Some until \<Rightarrow> until \<le> now | None \<Rightarrow> False)"

definition front_priority :: "program_scheduler_state \<Rightarrow> program_ref \<Rightarrow> int" where
  "front_priority st p = (case front_request_hints (runtime st) p of Some hints \<Rightarrow> program_request_hints.priority hints | None \<Rightarrow> 0)"

definition resume_tier_cmp :: "program_scheduler_state \<Rightarrow> instant \<Rightarrow> program_ref \<Rightarrow> program_ref \<Rightarrow> ordering" where
  "resume_tier_cmp st now l r =
     then_with (cmp (is_forced (decision_of st r) now) (is_forced (decision_of st l) now))
       (cmp (front_priority st r) (front_priority st l))"

definition segment_yield_cmp :: "program_scheduler_state \<Rightarrow> program_ref \<Rightarrow> program_ref \<Rightarrow> ordering" where
  "segment_yield_cmp st l r =
     cmp (last_pause_reason (decision_of st l) = Some Max_Segment_Yield)
       (last_pause_reason (decision_of st r) = Some Max_Segment_Yield)"

definition fcfs_resume_cmp :: "program_scheduler_state \<Rightarrow> program_ref \<Rightarrow> program_ref \<Rightarrow> ordering" where
  "fcfs_resume_cmp st l r =
     then_with (cmp (queued_at (decision_of st l)) (queued_at (decision_of st r))) (cmp (program_id l) (program_id r))"

definition ordinary_resume_cmp :: "program_scheduler \<Rightarrow> program_scheduler_state \<Rightarrow> program_ref \<Rightarrow> program_ref \<Rightarrow> ordering" where
  "ordinary_resume_cmp sch st l r =
     (case resume_order (sch_config sch) of
        Fcfs \<Rightarrow> fcfs_resume_cmp st l r
      | Mru \<Rightarrow>
          then_with (cmp (last_request_finished_at (decision_of st r)) (last_request_finished_at (decision_of st l)))
            (then_with (cmp (queued_at (decision_of st l)) (queued_at (decision_of st r)))
               (cmp (program_id l) (program_id r))))"

definition local_resume_cmp :: "program_scheduler \<Rightarrow> program_scheduler_state \<Rightarrow> instant \<Rightarrow> program_ref \<Rightarrow> program_ref \<Rightarrow> ordering" where
  "local_resume_cmp sch st now l r =
     then_with (resume_tier_cmp st now l r) (then_with (segment_yield_cmp st l r) (ordinary_resume_cmp sch st l r))"

definition order_resume_candidates :: "program_scheduler \<Rightarrow> program_scheduler_state \<Rightarrow> instant \<Rightarrow> program_ref list \<Rightarrow> program_ref list" where
  "order_resume_candidates sch st now queued =
     sort_by (\<lambda>l r. then_with (resume_tier_cmp st now l r)
       (then_with (segment_yield_cmp st l r) (ordinary_resume_cmp sch st l r))) queued"

definition order_cross_rank_candidates :: "program_scheduler_state \<Rightarrow> instant \<Rightarrow> program_ref list \<Rightarrow> program_ref list" where
  "order_cross_rank_candidates st now queued =
     sort_by (\<lambda>l r. then_with (resume_tier_cmp st now l r)
       (then_with (segment_yield_cmp st l r) (fcfs_resume_cmp st l r))) queued"

section \<open>Admission plan\<close>

record rank_admission_plan =
  used_tokens :: real
  required_tokens :: real
  reserve_tokens :: real
  plan_capacity_tokens :: "nat option"
  forced :: bool
  batch_gain :: bool

text \<open>A program that waits for a resume: paused, reasoning and with retained requests.\<close>

definition reasoning_waiter :: "program_scheduler_state \<Rightarrow> program_ref \<Rightarrow> bool" where
  "reasoning_waiter st p =
     (case view (runtime st) p of
        Some v \<Rightarrow> v_state v = Paused \<and> v_status v = Reasoning \<and> 0 < v_waiting_requests v
      | None \<Rightarrow> False)"

definition fresh_waiting :: "program_scheduler \<Rightarrow> program_scheduler_state \<Rightarrow> str \<Rightarrow> instant \<Rightarrow> nat option" where
  "fresh_waiting sch st t now =
     (case observations st t of
        Some ob \<Rightarrow> if observation_is_fresh sch ob now then waiting_requests ob else None
      | None \<Rightarrow> None)"

definition backend_saturated :: "program_scheduler \<Rightarrow> program_scheduler_state \<Rightarrow> str \<Rightarrow> instant \<Rightarrow> bool" where
  "backend_saturated sch st t now =
     (case fresh_waiting sch st t now of
        Some waiting \<Rightarrow> admission_waiting_request_threshold (sch_config sch) \<le> waiting
      | None \<Rightarrow> False)"

definition count_fits :: "program_scheduler \<Rightarrow> nat \<Rightarrow> bool" where
  "count_fits sch n \<longleftrightarrow> sat_add n 1 \<le> max_active_programs_per_target (sch_config sch)"

definition remaining_rounds :: "real \<Rightarrow> program_decision_state \<Rightarrow> real" where
  "remaining_rounds rounds d = max (rounds - real (rounds_since_activation d)) 0"

definition plan_reserve :: "program_scheduler \<Rightarrow> program_scheduler_state \<Rightarrow> str \<Rightarrow> runtime_program_view_ref list \<Rightarrow> real" where
  "plan_reserve sch st t active =
     (case rank_factors st t of
        None \<Rightarrow> 0
      | Some f \<Rightarrow>
          continuous_growth_reserve_tokens (progress_ttl (sch_config sch)) f
            (map (remaining_rounds (target_rounds (progress_ttl (sch_config sch)) f))
              (List.map_filter (\<lambda>v. decisions st (vr_reference v)) active)))"

definition batch_gain_for :: "program_scheduler \<Rightarrow> program_scheduler_state \<Rightarrow> progress_ttl_factors \<Rightarrow> program_decision_state \<Rightarrow>
    runtime_program_view_ref list \<Rightarrow> real \<Rightarrow> real \<Rightarrow> batch_gain_inputs" where
  "batch_gain_for sch st f d active used required =
     (let rounds = target_rounds (progress_ttl (sch_config sch)) f;
          running = filter (\<lambda>v. vr_status v = Reasoning) active;
          protected = List.map_filter (\<lambda>v.
            case decisions st (vr_reference v) of
              None \<Rightarrow> None
            | Some a \<Rightarrow> if 0 < remaining_rounds rounds a
                       then Some (remaining_rounds rounds a, last_cache_miss_impact_seconds a) else None) active
      in \<lparr>bi_factors = f, batch_size_before = length running,
          total_context_tokens_before = sum_list (map ds_estimated_context_tokens
            (List.map_filter (\<lambda>v. decisions st (vr_reference v)) running)),
          candidate_context_tokens = ds_estimated_context_tokens d, bi_used_tokens = used, bi_required_tokens = required,
          protected_remaining_rounds = map fst protected, protected_recovery_cost_seconds = map snd protected,
          bi_candidate_recovery_cost_seconds = cache_miss_impact_seconds (progress_ttl (sch_config sch))
            (ds_estimated_context_tokens d - shared_prefix_tokens d)\<rparr>)"

definition capacity_plan :: "program_scheduler \<Rightarrow> program_scheduler_state \<Rightarrow> program_decision_state \<Rightarrow> str \<Rightarrow>
    runtime_program_view_ref list \<Rightarrow> real \<Rightarrow> real \<Rightarrow> bool \<Rightarrow> nat \<Rightarrow> rank_admission_plan option" where
  "capacity_plan sch st d t active used required force capacity =
     (let low = real capacity * low_watermark_ratio (progress_ttl (sch_config sch));
          immediate_fits = (used + required \<le> low);
          reserve = plan_reserve sch st t active;
          reserve_fits = (used + required + reserve \<le> low);
          plan = \<lparr>used_tokens = used, required_tokens = required, reserve_tokens = reserve,
                  plan_capacity_tokens = Some capacity, forced = force, batch_gain = False\<rparr>
      in if force \<or> count_fits sch (length active) \<and> immediate_fits \<and> reserve_fits then Some plan
         else if \<not> count_fits sch (length active) \<or> \<not> immediate_fits then None
         else case rank_factors st t of
                None \<Rightarrow> None
              | Some f \<Rightarrow>
                  if admits (estimate_batch_gain (progress_ttl (sch_config sch)) (batch_gain_for sch st f d active used required))
                  then Some (plan\<lparr>batch_gain := True\<rparr>) else None)"

definition rank_admission_plan :: "program_scheduler \<Rightarrow> program_scheduler_state \<Rightarrow> program_ref \<Rightarrow> str \<Rightarrow> instant \<Rightarrow>
    rank_admission_plan option" where
  "rank_admission_plan sch st p t now =
     (case decisions st p of
        None \<Rightarrow> None
      | Some d \<Rightarrow>
          if \<not> global_queue (sch_config sch) \<and> last_target d \<noteq> Some t then None
          else if \<not> reasoning_waiter st p then None
          else if 0 < admission_waiting_request_threshold (sch_config sch) \<and> backend_saturated sch st t now then None
          else
            let active = filter (active_on t) (iter_views sch (runtime st));
                used = target_usage sch st t now;
                expected = (case front_request_hints (runtime st) p of Some hints \<Rightarrow> expected_output_tokens hints | None \<Rightarrow> None);
                required = private_tokens_with_output d (decode_buffer sch) expected
            in case capacity_of sch of
                 None \<Rightarrow>
                   if \<not> is_forced d now \<and> \<not> count_fits sch (length active) then None
                   else Some \<lparr>used_tokens = used, required_tokens = required, reserve_tokens = 0,
                              plan_capacity_tokens = None, forced = is_forced d now, batch_gain = False\<rparr>
               | Some capacity \<Rightarrow> capacity_plan sch st d t active used required (is_forced d now) capacity)"

section \<open>Commit and pause\<close>

definition remove_queued :: "program_ref \<Rightarrow> (str \<rightharpoonup> program_ref list) \<Rightarrow> (str \<rightharpoonup> program_ref list)" where
  "remove_queued p qs = (\<lambda>t. map_option (filter (\<lambda>q. q \<noteq> p)) (qs t))"

definition unqueue :: "program_ref \<Rightarrow> program_scheduler_state \<Rightarrow> program_scheduler_state" where
  "unqueue p st = st\<lparr>rank_queues := remove_queued p (rank_queues st), global_queues := remove_queued p (global_queues st)\<rparr>"

definition activated_decision :: "str \<Rightarrow> instant \<Rightarrow> program_decision_state \<Rightarrow> program_decision_state" where
  "activated_decision t now d = d\<lparr>
     last_target := Some t, rounds_since_activation := 0, acting_since := None, ttl_deadline := None,
     segment_started_at := (case segment_started_at d of Some s \<Rightarrow> Some s | None \<Rightarrow> Some now),
     paused_at := None, last_pause_reason := None, pause_when_idle := False, queued_at := None,
     force_resume_deadline := None, ds_force_resume_timeout := None,
     force_resume_active_remaining_rounds := 0, force_resume_pool_remaining_rounds := 0,
     force_resume_request_throughput_per_second := 0\<rparr>"

definition commit_admission :: "program_scheduler \<Rightarrow> program_scheduler_state \<Rightarrow> program_ref \<Rightarrow> str \<Rightarrow> instant \<Rightarrow>
    bool \<times> program_scheduler_state" where
  "commit_admission sch st p t now =
     (case decisions st p of
        None \<Rightarrow> (False, st)
      | Some d \<Rightarrow>
          let tokens = private_tokens d (decode_buffer sch); (ok, rt) = activate (runtime st) p t in
          if \<not> ok then (False, st)
          else
            let st1 = st\<lparr>runtime := rt, decisions := (decisions st)(p \<mapsto> activated_decision t now d)\<rparr>;
                st2 = unqueue p (adjust_usage st1 t tokens)
            in (True, st2\<lparr>runtime := notify_program (runtime st2) p\<rparr>))"

definition restart_shared_prefix_freshness :: "instant \<Rightarrow> program_decision_state \<Rightarrow> program_decision_state" where
  "restart_shared_prefix_freshness pause_at d =
     (let duration = map_option (\<lambda>until. until - shared_prefix_freshness_anchor_at d) (shared_prefix_fresh_until d);
          d1 = d\<lparr>shared_prefix_freshness_anchor_at := pause_at\<rparr>
      in case duration of None \<Rightarrow> d1 | Some dur \<Rightarrow> d1\<lparr>shared_prefix_fresh_until := Some (pause_at + dur)\<rparr>)"

definition paused_decision :: "program_pause_reason \<Rightarrow> instant \<Rightarrow> program_decision_state \<Rightarrow> program_decision_state" where
  "paused_decision reason now d =
     restart_shared_prefix_freshness now (d\<lparr>paused_at := Some now, last_pause_reason := Some reason,
       rounds_since_activation := 0, acting_since := None, ttl_deadline := None, pause_when_idle := False\<rparr>)"

definition sched_pause_idle :: "program_scheduler \<Rightarrow> program_scheduler_state \<Rightarrow> program_ref \<Rightarrow> program_pause_reason \<Rightarrow> instant \<Rightarrow>
    bool \<times> program_scheduler_state" where
  "sched_pause_idle sch st p reason now =
     (case (runtime_placement (runtime st) p, decisions st p) of
        (Some t, Some d) \<Rightarrow>
          let (ok, rt) = pause_idle (runtime st) p in
          if \<not> ok then (False, st)
          else (True, adjust_usage
                  (st\<lparr>runtime := rt, decisions := (decisions st)(p \<mapsto> paused_decision reason now d)\<rparr>) t
                  (- private_tokens d (decode_buffer sch)))
      | _ \<Rightarrow> (False, st))"

section \<open>Every commit of a plan succeeds\<close>

lemma reasoning_waiterD:
  assumes "reasoning_waiter st p"
  obtains program where "programs (runtime st) (key_of_ref p) = Some program" "reference program = p"
    "rp_state program = Paused" "rp_status program = Reasoning" "program_len (request_pool (runtime st)) p \<noteq> 0"
  using assms by (auto simp: reasoning_waiter_def view_def split: option.splits if_splits)

lemma activate_waiter:
  assumes "reasoning_waiter st p"
  obtains rt where "activate (runtime st) p t = (True, rt)"
  using assms by (rule reasoning_waiterD) (simp add: activate_def Let_def)

lemma planD:
  assumes "rank_admission_plan sch st p t now = Some plan"
  obtains d where "decisions st p = Some d" "reasoning_waiter st p"
    "global_queue (sch_config sch) \<or> last_target d = Some t"
  using assms by (auto simp: rank_admission_plan_def split: option.splits if_splits)

lemma commit_succeeds:
  assumes "rank_admission_plan sch st p t now = Some plan"
  shows "fst (commit_admission sch st p t now)"
proof -
  from assms obtain d where d: "decisions st p = Some d" "reasoning_waiter st p" by (rule planD)
  from d(2) obtain rt where "activate (runtime st) p t = (True, rt)" by (rule activate_waiter)
  then show ?thesis using d(1) by (simp add: commit_admission_def Let_def)
qed

lemma commit_queues:
  assumes "fst (commit_admission sch st p t now)"
  shows "rank_queues (snd (commit_admission sch st p t now)) = remove_queued p (rank_queues st)"
    "global_queues (snd (commit_admission sch st p t now)) = remove_queued p (global_queues st)"
  using assms by (auto simp: commit_admission_def unqueue_def adjust_usage_def Let_def split: option.splits prod.splits if_splits)

section \<open>Local scheduling\<close>

definition queue_at :: "(str \<rightharpoonup> program_ref list) \<Rightarrow> str \<Rightarrow> program_ref list" where
  "queue_at qs t = (case qs t of Some q \<Rightarrow> q | None \<Rightarrow> [])"

lemma remove_queued_shorter:
  "p \<in> set (queue_at qs t) \<Longrightarrow> length (queue_at (remove_queued p qs) t) < length (queue_at qs t)"
  by (cases "qs t") (auto simp: queue_at_def remove_queued_def intro!: length_filter_less)

definition rank_candidate :: "program_scheduler \<Rightarrow> program_scheduler_state \<Rightarrow> str \<Rightarrow> instant \<Rightarrow> (program_ref \<times> rank_admission_plan) option" where
  "rank_candidate sch st t now =
     find_map (\<lambda>p. map_option (Pair p) (rank_admission_plan sch st p t now))
       (order_resume_candidates sch st now (filter (reasoning_waiter st) (queue_at (rank_queues st) t)))"

lemma rank_candidateD:
  assumes "rank_candidate sch st t now = Some (p, plan)"
  shows "p \<in> set (queue_at (rank_queues st) t)" "rank_admission_plan sch st p t now = Some plan"
proof -
  obtain q where "q \<in> set (order_resume_candidates sch st now (filter (reasoning_waiter st) (queue_at (rank_queues st) t)))"
    "map_option (Pair q) (rank_admission_plan sch st q t now) = Some (p, plan)"
    by (rule find_map_in [OF assms [unfolded rank_candidate_def]])
  then show "p \<in> set (queue_at (rank_queues st) t)" "rank_admission_plan sch st p t now = Some plan"
    by (auto simp: order_resume_candidates_def)
qed

function rank_loop :: "program_scheduler \<Rightarrow> str \<Rightarrow> instant \<Rightarrow> program_scheduler_state \<Rightarrow> bool \<times> program_scheduler_state" where
  "rank_loop sch t now st =
     (case rank_candidate sch st t now of
        None \<Rightarrow> (False, st)
      | Some (p, plan) \<Rightarrow> (True, snd (rank_loop sch t now (snd (commit_admission sch st p t now)))))"
  by pat_completeness auto

termination rank_loop
proof (relation "measure (\<lambda>(sch, t, now, st). length (queue_at (rank_queues st) t))", goal_cases)
  case (2 sch t now st c p plan)
  then have "rank_candidate sch st t now = Some (p, plan)" by simp
  note C = rank_candidateD [OF this]
  show ?case using remove_queued_shorter [OF C(1)] commit_queues(1) [OF commit_succeeds [OF C(2)]] by simp
qed simp

definition schedule_rank_local :: "program_scheduler \<Rightarrow> program_scheduler_state \<Rightarrow> instant \<Rightarrow> bool \<times> program_scheduler_state" where
  "schedule_rank_local sch st now =
     fold (\<lambda>t (changed, st). let (c, st') = rank_loop sch t now st in (changed \<or> c, st'))
       (hash_keys sch (rank_queues st)) (False, st)"

section \<open>Global scheduling\<close>

definition global_reasoning_waiters :: "program_scheduler_state \<Rightarrow> str \<Rightarrow> program_ref list" where
  "global_reasoning_waiters st pool = filter (reasoning_waiter st) (queue_at (global_queues st) pool)"

definition global_local_resume_order :: "program_scheduler \<Rightarrow> program_scheduler_state \<Rightarrow> str \<Rightarrow> instant \<Rightarrow> program_ref list" where
  "global_local_resume_order sch st pool now = order_resume_candidates sch st now (global_reasoning_waiters st pool)"

definition global_cross_rank_order :: "program_scheduler_state \<Rightarrow> str \<Rightarrow> instant \<Rightarrow> program_ref list" where
  "global_cross_rank_order st pool now =
     order_cross_rank_candidates st now
       (filter (\<lambda>p. case decisions st p of Some d \<Rightarrow> last_pause_reason d \<noteq> None | None \<Rightarrow> False)
          (global_reasoning_waiters st pool))"

definition active_program_count :: "program_scheduler \<Rightarrow> program_scheduler_state \<Rightarrow> str \<Rightarrow> nat" where
  "active_program_count sch st t = length (filter (active_on t) (iter_views sch (runtime st)))"

definition last_target_of :: "program_scheduler_state \<Rightarrow> program_ref \<Rightarrow> str option" where
  "last_target_of st p = (case decisions st p of Some d \<Rightarrow> last_target d | None \<Rightarrow> None)"

definition destination_has_local_waiter :: "program_scheduler_state \<Rightarrow> program_ref \<Rightarrow> str \<Rightarrow> bool" where
  "destination_has_local_waiter st candidate destination =
     list_ex (\<lambda>p. p \<noteq> candidate \<and> reasoning_waiter st p \<and> last_target_of st p = Some destination)
       (queue_at (global_queues st) (model_pool candidate))"

definition waited_for_observation :: "program_scheduler \<Rightarrow> program_decision_state \<Rightarrow> instant \<Rightarrow> bool" where
  "waited_for_observation sch d now =
     (case queued_at d of Some since \<Rightarrow> metrics_interval (sch_config sch) \<le> now - since | None \<Rightarrow> False)"

definition factors_complete :: "program_scheduler \<Rightarrow> program_scheduler_state \<Rightarrow> str \<Rightarrow> bool" where
  "factors_complete sch st t =
     (case rank_factors st t of Some f \<Rightarrow> request_window_complete f (window_size sch) | None \<Rightarrow> False)"

definition cross_rank_candidate_is_mature :: "program_scheduler \<Rightarrow> program_scheduler_state \<Rightarrow> program_ref \<Rightarrow> str \<Rightarrow> instant \<Rightarrow> bool" where
  "cross_rank_candidate_is_mature sch st p destination now =
     (case last_target (decision_of st p) of
        None \<Rightarrow> False
      | Some source \<Rightarrow>
          factors_complete sch st source \<and> factors_complete sch st destination \<and>
          waited_for_observation sch (decision_of st p) now)"

definition higher_priority_source_waiters :: "program_scheduler \<Rightarrow> program_scheduler_state \<Rightarrow> program_ref \<Rightarrow> instant \<Rightarrow> nat" where
  "higher_priority_source_waiters sch st candidate now =
     (case last_target (decision_of st candidate) of
        None \<Rightarrow> 0
      | Some source \<Rightarrow>
          length (filter (\<lambda>p. local_resume_cmp sch st now p candidate = Less)
            (filter (\<lambda>p. case decisions st p of
                       Some d \<Rightarrow> last_target d = Some source \<and> waited_for_observation sch d now | None \<Rightarrow> False)
              (filter (\<lambda>p. p \<noteq> candidate) (global_reasoning_waiters st (model_pool candidate))))))"

definition source_has_resume_pressure :: "program_scheduler \<Rightarrow> program_scheduler_state \<Rightarrow> program_ref \<Rightarrow> instant \<Rightarrow> bool" where
  "source_has_resume_pressure sch st p now \<longleftrightarrow>
     admission_waiting_request_threshold (sch_config sch) = 0 \<or>
     (case last_target (decision_of st p) of Some t \<Rightarrow> backend_saturated sch st t now | None \<Rightarrow> False) \<or>
     1 \<le> higher_priority_source_waiters sch st p now"

definition destination_has_context_headroom :: "program_scheduler \<Rightarrow> program_scheduler_state \<Rightarrow> program_ref \<Rightarrow> str \<Rightarrow> instant \<Rightarrow> bool" where
  "destination_has_context_headroom sch st p destination now =
     (case capacity_of sch of
        None \<Rightarrow> True
      | Some capacity \<Rightarrow>
          (case last_target (decision_of st p) of
             None \<Rightarrow> False
           | Some source \<Rightarrow>
               let limit = real capacity * low_watermark_ratio (progress_ttl (sch_config sch));
                   destination_headroom = max (limit - target_usage sch st destination now) 0;
                   source_headroom = max (limit - target_usage sch st source now) 0
               in source_headroom + cross_rank_headroom_ratio (sch_config sch) * real (ds_estimated_context_tokens (decision_of st p))
                    \<le> destination_headroom))"

definition cross_rank_pressure :: "program_scheduler \<Rightarrow> program_scheduler_state \<Rightarrow> str \<times> rank_admission_plan \<Rightarrow> real" where
  "cross_rank_pressure sch st c =
     (case plan_capacity_tokens (snd c) of
        None \<Rightarrow> real (active_program_count sch st (fst c) + 1) / real (max (max_active_programs_per_target (sch_config sch)) 1)
      | Some capacity \<Rightarrow>
          (used_tokens (snd c) + required_tokens (snd c) + reserve_tokens (snd c)) / real (max capacity 1))"

definition cross_rank_cmp :: "program_scheduler \<Rightarrow> program_scheduler_state \<Rightarrow> instant \<Rightarrow>
    str \<times> rank_admission_plan \<Rightarrow> str \<times> rank_admission_plan \<Rightarrow> ordering" where
  "cross_rank_cmp sch st now l r =
     (let waiting = (\<lambda>t. case fresh_waiting sch st t now of Some n \<Rightarrow> n | None \<Rightarrow> 0) in
      then_with (cmp (waiting (fst l)) (waiting (fst r)))
        (then_with (cmp (cross_rank_pressure sch st l) (cross_rank_pressure sch st r))
           (then_with (cmp (active_program_count sch st (fst l)) (active_program_count sch st (fst r)))
              (cmp (fst l) (fst r)))))"

definition select_cross_rank_admission :: "program_scheduler \<Rightarrow> program_scheduler_state \<Rightarrow> instant \<Rightarrow> program_ref \<Rightarrow>
    (str \<times> rank_admission_plan) option" where
  "select_cross_rank_admission sch st now p =
     (case decisions st p of
        None \<Rightarrow> None
      | Some d \<Rightarrow>
          (case (last_pause_reason d, last_target d, model_targets st (model_pool p)) of
             (Some reason, Some source, Some ts) \<Rightarrow>
               min_by (cross_rank_cmp sch st now)
                 (List.map_filter (\<lambda>t. map_option (Pair t) (rank_admission_plan sch st p t now))
                   (filter (\<lambda>t. t \<noteq> source \<and> \<not> destination_has_local_waiter st p t \<and>
                       cross_rank_candidate_is_mature sch st p t now \<and> source_has_resume_pressure sch st p now \<and>
                       destination_has_context_headroom sch st p t now) ts))
           | _ \<Rightarrow> None))"

definition global_local_candidate :: "program_scheduler \<Rightarrow> program_scheduler_state \<Rightarrow> str \<Rightarrow> instant \<Rightarrow>
    (program_ref \<times> str \<times> rank_admission_plan) option" where
  "global_local_candidate sch st pool now =
     find_map (\<lambda>p. case last_target_of st p of
                    None \<Rightarrow> None
                  | Some t \<Rightarrow> map_option (\<lambda>plan. (p, t, plan)) (rank_admission_plan sch st p t now))
       (global_local_resume_order sch st pool now)"

definition cross_rank_candidate :: "program_scheduler \<Rightarrow> program_scheduler_state \<Rightarrow> str \<Rightarrow> instant \<Rightarrow>
    (program_ref \<times> str \<times> rank_admission_plan) option" where
  "cross_rank_candidate sch st pool now =
     find_map (\<lambda>p. map_option (Pair p) (select_cross_rank_admission sch st now p)) (global_cross_rank_order st pool now)"

lemma global_local_candidateD:
  assumes "global_local_candidate sch st pool now = Some (p, t, plan)"
  shows "p \<in> set (queue_at (global_queues st) pool)" "rank_admission_plan sch st p t now = Some plan"
    "last_target_of st p = Some t"
proof -
  obtain q where "q \<in> set (global_local_resume_order sch st pool now)"
    "(case last_target_of st q of None \<Rightarrow> None
      | Some t \<Rightarrow> map_option (\<lambda>plan. (q, t, plan)) (rank_admission_plan sch st q t now)) = Some (p, t, plan)"
    by (rule find_map_in [OF assms [unfolded global_local_candidate_def]])
  then show "p \<in> set (queue_at (global_queues st) pool)" "rank_admission_plan sch st p t now = Some plan"
    "last_target_of st p = Some t"
    by (auto simp: global_local_resume_order_def global_reasoning_waiters_def order_resume_candidates_def split: option.splits)
qed

lemma min_by_in: "min_by c xs = Some x \<Longrightarrow> x \<in> set xs"
proof (cases xs)
  case (Cons y ys)
  have "fold (\<lambda>y acc. if c acc y = Greater then y else acc) ys a \<in> insert a (set ys)" for ys a
    by (induction ys arbitrary: a) auto
  then show "min_by c xs = Some x \<Longrightarrow> x \<in> set xs" using Cons by auto
qed simp

lemma map_filter_in: "y \<in> set (List.map_filter f xs) \<Longrightarrow> \<exists>x\<in>set xs. f x = Some y"
  by (auto simp: List.map_filter_def)

lemma select_cross_rankD:
  assumes "select_cross_rank_admission sch st now p = Some (t, plan)"
  shows "rank_admission_plan sch st p t now = Some plan" "\<exists>ts. model_targets st (model_pool p) = Some ts \<and> t \<in> set ts"
proof -
  obtain ts P where ts: "model_targets st (model_pool p) = Some ts"
    "min_by (cross_rank_cmp sch st now)
       (List.map_filter (\<lambda>t. map_option (Pair t) (rank_admission_plan sch st p t now)) (filter P ts)) = Some (t, plan)"
    using assms by (auto simp: select_cross_rank_admission_def split: option.splits)
  from map_filter_in [OF min_by_in [OF ts(2)]]
  show "rank_admission_plan sch st p t now = Some plan" "\<exists>ts. model_targets st (model_pool p) = Some ts \<and> t \<in> set ts"
    using ts(1) by auto
qed

lemma cross_rank_candidateD:
  assumes "cross_rank_candidate sch st pool now = Some (p, t, plan)"
  shows "p \<in> set (queue_at (global_queues st) pool)" "select_cross_rank_admission sch st now p = Some (t, plan)"
proof -
  obtain q where "q \<in> set (global_cross_rank_order st pool now)"
    "map_option (Pair q) (select_cross_rank_admission sch st now q) = Some (p, t, plan)"
    by (rule find_map_in [OF assms [unfolded cross_rank_candidate_def]])
  then show "p \<in> set (queue_at (global_queues st) pool)" "select_cross_rank_admission sch st now p = Some (t, plan)"
    by (auto simp: global_cross_rank_order_def global_reasoning_waiters_def order_cross_rank_candidates_def)
qed

function global_local_loop :: "program_scheduler \<Rightarrow> str \<Rightarrow> instant \<Rightarrow> program_scheduler_state \<Rightarrow> bool \<times> program_scheduler_state" where
  "global_local_loop sch pool now st =
     (case global_local_candidate sch st pool now of
        None \<Rightarrow> (False, st)
      | Some (p, t, plan) \<Rightarrow> (True, snd (global_local_loop sch pool now (snd (commit_admission sch st p t now)))))"
  by pat_completeness auto

termination global_local_loop
proof (relation "measure (\<lambda>(sch, pool, now, st). length (queue_at (global_queues st) pool))", goal_cases)
  case (2 sch pool now st c p r t plan)
  then have "global_local_candidate sch st pool now = Some (p, t, plan)" by simp
  note C = global_local_candidateD [OF this]
  show ?case using remove_queued_shorter [OF C(1)] commit_queues(2) [OF commit_succeeds [OF C(2)]] by simp
qed simp

function cross_rank_loop :: "program_scheduler \<Rightarrow> str \<Rightarrow> instant \<Rightarrow> program_scheduler_state \<Rightarrow> bool \<times> program_scheduler_state" where
  "cross_rank_loop sch pool now st =
     (case cross_rank_candidate sch st pool now of
        None \<Rightarrow> (False, st)
      | Some (p, t, plan) \<Rightarrow> (True, snd (cross_rank_loop sch pool now (snd (commit_admission sch st p t now)))))"
  by pat_completeness auto

termination cross_rank_loop
proof (relation "measure (\<lambda>(sch, pool, now, st). length (queue_at (global_queues st) pool))", goal_cases)
  case (2 sch pool now st c p r t plan)
  then have "cross_rank_candidate sch st pool now = Some (p, t, plan)" by simp
  note C = cross_rank_candidateD [OF this]
  show ?case
    using remove_queued_shorter [OF C(1)] commit_queues(2) [OF commit_succeeds [OF select_cross_rankD(1) [OF C(2)]]] by simp
qed simp

definition schedule_global_waiting :: "program_scheduler \<Rightarrow> program_scheduler_state \<Rightarrow> instant \<Rightarrow> bool \<times> program_scheduler_state" where
  "schedule_global_waiting sch st now =
     fold (\<lambda>pool (changed, st).
         let (c1, st1) = global_local_loop sch pool now st; (c2, st2) = cross_rank_loop sch pool now st1
         in (changed \<or> c1 \<or> c2, st2))
       (hash_keys sch (global_queues st)) (False, st)"

definition schedule_waiting :: "program_scheduler \<Rightarrow> program_scheduler_state \<Rightarrow> instant \<Rightarrow> bool \<times> program_scheduler_state" where
  "schedule_waiting sch st now =
     (if global_queue (sch_config sch) then schedule_global_waiting sch st now else schedule_rank_local sch st now)"

end
