(* ===== verification/Scheduler_Lifecycle.thy ===== *)
theory Scheduler_Lifecycle
  imports Scheduler_Admission
begin

text \<open>
  What happens to programs after admission: the deadlines and segment yields of
  \<^verbatim>\<open>program_scheduling/scheduler_fairness.rs\<close>, and expiry, release, capacity repair and the periodic
  decisions of \<^verbatim>\<open>scheduler_lifecycle.rs\<close>.  A critical section reads the clock once and passes it to
  all of its decisions.
\<close>

section \<open>Forced resume\<close>

record force_resume_estimate =
  fe_timeout :: duration
  fe_active_remaining_rounds :: real
  fe_pool_remaining_rounds :: real
  fe_request_throughput_per_second :: real

definition fallback_estimate :: "duration \<Rightarrow> force_resume_estimate" where
  "fallback_estimate timeout = \<lparr>fe_timeout = timeout, fe_active_remaining_rounds = 0, fe_pool_remaining_rounds = 0,
     fe_request_throughput_per_second = 0\<rparr>"

definition clamped_estimate :: "program_scheduler \<Rightarrow> real \<Rightarrow> real \<Rightarrow> real \<Rightarrow> force_resume_estimate" where
  "clamped_estimate sch active_remaining pool_remaining throughput =
     (let maximum = as_secs_f64 (cfg_force_resume_timeout (sch_config sch)); minimum = min 30 maximum
      in \<lparr>fe_timeout = from_secs_f64 (clamp (3 * (active_remaining + pool_remaining) / throughput) minimum maximum),
          fe_active_remaining_rounds = active_remaining, fe_pool_remaining_rounds = pool_remaining,
          fe_request_throughput_per_second = throughput\<rparr>)"

definition round_floor :: "runtime_program_view_ref \<Rightarrow> real" where
  "round_floor v = (if vr_status v = Reasoning then 1 else 0)"

definition force_resume_timeout :: "program_scheduler \<Rightarrow> program_scheduler_state \<Rightarrow> str \<Rightarrow> program_ref \<Rightarrow> instant \<Rightarrow>
    force_resume_estimate" where
  "force_resume_timeout sch st t candidate now =
     (case rank_factors st t of
        None \<Rightarrow> fallback_estimate (cfg_force_resume_timeout (sch_config sch))
      | Some f \<Rightarrow>
          let throughput = request_throughput_per_second f; rounds = target_rounds (progress_ttl (sch_config sch)) f in
          if rounds \<le> 0 \<or> throughput \<le> 0 then fallback_estimate (cfg_force_resume_timeout (sch_config sch))
          else
            let active_remaining = sum_list (List.map_filter (\<lambda>v.
                  map_option (\<lambda>d. max (rounds - real (rounds_since_activation d)) (round_floor v)) (decisions st (vr_reference v)))
                  (filter (active_on t) (iter_views sch (runtime st))));
                queued = order_resume_candidates sch st now
                  (filter (\<lambda>p. reasoning_waiter st p \<and> last_target_of st p = Some t) (queue_at (rank_queues st) t));
                pool_remaining = real (length (takeWhile (\<lambda>p. p \<noteq> candidate) queued)) * max rounds 1
            in clamped_estimate sch active_remaining pool_remaining throughput)"

text \<open>The rounds of every target of a pool, with the sum of their throughputs; nothing when a
  target has no usable factors.\<close>

fun pool_rounds :: "program_scheduler \<Rightarrow> program_scheduler_state \<Rightarrow> str list \<Rightarrow> ((str \<times> real) list \<times> real) option" where
  "pool_rounds sch st [] = Some ([], 0)"
| "pool_rounds sch st (t # ts) =
     (case rank_factors st t of
        None \<Rightarrow> None
      | Some f \<Rightarrow>
          let rounds = target_rounds (progress_ttl (sch_config sch)) f; throughput = request_throughput_per_second f in
          if rounds \<le> 0 \<or> throughput \<le> 0 then None
          else map_option (\<lambda>(rs, total). ((t, rounds) # rs, throughput + total)) (pool_rounds sch st ts))"

definition global_force_resume_timeout :: "program_scheduler \<Rightarrow> program_scheduler_state \<Rightarrow> program_ref \<Rightarrow> instant \<Rightarrow>
    force_resume_estimate" where
  "global_force_resume_timeout sch st candidate now =
     (let fallback = fallback_estimate (cfg_force_resume_timeout (sch_config sch)) in
      case model_targets st (model_pool candidate) of
        None \<Rightarrow> fallback
      | Some [] \<Rightarrow> fallback
      | Some ts \<Rightarrow>
          (case pool_rounds sch st ts of
             None \<Rightarrow> fallback
           | Some (rounds, throughput) \<Rightarrow>
               if throughput \<le> 0 then fallback
               else
                 let active_remaining = sum_list (List.map_filter (\<lambda>v.
                       case (case vr_placement v of Some t \<Rightarrow> map_of rounds t | None \<Rightarrow> None, decisions st (vr_reference v)) of
                         (Some r, Some d) \<Rightarrow> Some (max (r - real (rounds_since_activation d)) (round_floor v))
                       | _ \<Rightarrow> None)
                       (filter (\<lambda>v. vr_state v = Active) (iter_views sch (runtime st))));
                     fallback_rounds = sum_list (map snd rounds) / real (max (length rounds) 1);
                     queued = order_resume_candidates sch st now (global_reasoning_waiters st (model_pool candidate));
                     pool_remaining = sum_list (map (\<lambda>d.
                       max (case (case last_target d of Some t \<Rightarrow> map_of rounds t | None \<Rightarrow> None) of
                              Some r \<Rightarrow> r | None \<Rightarrow> fallback_rounds) 1)
                       (List.map_filter (decisions st) (takeWhile (\<lambda>p. p \<noteq> candidate) queued)))
                 in clamped_estimate sch active_remaining pool_remaining throughput))"

definition set_force_resume_deadline :: "program_scheduler \<Rightarrow> program_scheduler_state \<Rightarrow> str \<Rightarrow> program_ref \<Rightarrow> instant \<Rightarrow>
    program_scheduler_state" where
  "set_force_resume_deadline sch st t candidate now =
     (let estimate = (if global_queue (sch_config sch) then global_force_resume_timeout sch st candidate now
                      else force_resume_timeout sch st t candidate now);
          hinted = (case front_request_hints (runtime st) candidate of Some hints \<Rightarrow> deadline hints | None \<Rightarrow> None);
          timeout = min (case hinted of Some h \<Rightarrow> h | None \<Rightarrow> fe_timeout estimate) (queue_timeout (sch_config sch))
      in case decisions st candidate of
           None \<Rightarrow> st
         | Some d \<Rightarrow> st\<lparr>decisions := (decisions st)(candidate \<mapsto> d\<lparr>
             force_resume_deadline := Some (now + timeout), ds_force_resume_timeout := Some timeout,
             force_resume_active_remaining_rounds := fe_active_remaining_rounds estimate,
             force_resume_pool_remaining_rounds := fe_pool_remaining_rounds estimate,
             force_resume_request_throughput_per_second := fe_request_throughput_per_second estimate\<rparr>)\<rparr>)"

section \<open>Segment yield\<close>

definition segment_waiter :: "program_scheduler \<Rightarrow> program_scheduler_state \<Rightarrow> program_ref \<Rightarrow> str \<Rightarrow> instant \<Rightarrow> program_ref option" where
  "segment_waiter sch st p t now =
     (let queued =
        (if global_queue (sch_config sch)
         then filter (\<lambda>w. last_target_of st w = Some t)
                (order_resume_candidates sch st now (global_reasoning_waiters st (model_pool p)))
         else order_resume_candidates sch st now (filter (reasoning_waiter st) (queue_at (rank_queues st) t)))
      in List.find (\<lambda>w. w \<noteq> p) queued)"

definition future_relief :: "program_scheduler \<Rightarrow> program_scheduler_state \<Rightarrow> str \<Rightarrow> real" where
  "future_relief sch st t =
     sum_list (map (\<lambda>d. private_tokens d (decode_buffer sch))
       (filter pause_when_idle (List.map_filter (\<lambda>v. decisions st (vr_reference v))
          (filter (\<lambda>v. active_on t v \<and> vr_status v = Reasoning) (iter_views sch (runtime st))))))"

definition yield_completed_segment :: "program_scheduler \<Rightarrow> program_scheduler_state \<Rightarrow> program_ref \<Rightarrow> instant \<Rightarrow>
    bool \<times> program_scheduler_state" where
  "yield_completed_segment sch st p now =
     (case (view (runtime st) p, decisions st p) of
        (Some v, Some d) \<Rightarrow>
          if v_state v \<noteq> Active \<or> v_status v \<noteq> Acting \<or>
             rounds_since_activation d < max_segment_rounds (progress_ttl (sch_config sch))
          then (False, st)
          else
            (case v_placement v of
               None \<Rightarrow> (False, st)
             | Some t \<Rightarrow>
                 (case segment_waiter sch st p t now of
                    None \<Rightarrow> (False, st)
                  | Some w \<Rightarrow>
                      let waiter_required = (case decisions st w of Some e \<Rightarrow> private_tokens e (decode_buffer sch) | None \<Rightarrow> 0)
                      in if future_relief sch st t < waiter_required
                         then sched_pause_idle sch st p Max_Segment_Yield now else (False, st)))
      | _ \<Rightarrow> (False, st))"

section \<open>Expiry and release\<close>

definition release_program :: "program_scheduler \<Rightarrow> program_scheduler_state \<Rightarrow> program_ref \<Rightarrow> instant \<Rightarrow> program_scheduler_state" where
  "release_program sch st0 p now =
     (let st = unqueue p st0;
          active_relief =
            (case (view (runtime st) p, decisions st p) of
               (Some v, Some d) \<Rightarrow>
                 if v_state v = Active then map_option (\<lambda>t. (t, private_tokens d (decode_buffer sch))) (v_placement v) else None
             | _ \<Rightarrow> None);
          (ok, rt) = release_idle (runtime st) p now
      in if \<not> ok then st
         else
           let st1 = st\<lparr>runtime := rt\<rparr>;
               st2 = (case active_relief of Some (t, tokens) \<Rightarrow> adjust_usage st1 t (- tokens) | None \<Rightarrow> st1)
           in st2\<lparr>decisions := (decisions st2)(p := None),
                  sc_bindings := snd (release_program_binding (sc_bindings st2) p)\<rparr>)"

definition acting_ttl_expired :: "program_scheduler_state \<Rightarrow> instant \<Rightarrow> runtime_program_view_ref \<Rightarrow> bool" where
  "acting_ttl_expired st now v \<longleftrightarrow> vr_state v = Active \<and> vr_status v = Acting \<and> vr_in_flight_requests v = 0 \<and>
     (case decisions st (vr_reference v) of
        Some d \<Rightarrow> (case ttl_deadline d of Some until \<Rightarrow> until \<le> now | None \<Rightarrow> False)
      | None \<Rightarrow> False)"

definition expire_acting_ttl :: "program_scheduler \<Rightarrow> instant \<Rightarrow> program_ref \<Rightarrow> bool \<times> program_scheduler_state \<Rightarrow>
    bool \<times> program_scheduler_state" where
  "expire_acting_ttl sch now p acc =
     (let (changed, st) = acc;
          (t, rounds, segment_rounds) =
            (case decisions st p of
               Some d \<Rightarrow> (last_target d, segment_served_rounds d - ttl_pause_sampled_segment_rounds d, segment_served_rounds d)
             | None \<Rightarrow> (None, 0, 0));
          (paused, st1) = sched_pause_idle sch st p Ttl_Expired now
      in if \<not> paused then (changed, st1)
         else
           let st2 = (case decisions st1 p of
                        Some d \<Rightarrow> st1\<lparr>decisions := (decisions st1)(p \<mapsto> d\<lparr>
                          ttl_pause_sampled_segment_rounds := segment_rounds, rounds_since_ttl_pause := 0\<rparr>)\<rparr>
                      | None \<Rightarrow> st1);
               st3 = (case t of
                        Some t \<Rightarrow> st2\<lparr>rank_factors := (rank_factors st2)(t \<mapsto>
                          push_ttl_pause_rounds rounds (window_size sch) (factors_of st2 t))\<rparr>
                      | None \<Rightarrow> st2)
           in (True, st3))"

definition expire_acting_ttls :: "program_scheduler \<Rightarrow> program_scheduler_state \<Rightarrow> instant \<Rightarrow> bool \<times> program_scheduler_state" where
  "expire_acting_ttls sch st now =
     fold (expire_acting_ttl sch now)
       (map vr_reference (filter (acting_ttl_expired st now) (iter_views sch (runtime st)))) (False, st)"

definition paused_expired :: "program_scheduler \<Rightarrow> program_scheduler_state \<Rightarrow> instant \<Rightarrow> runtime_program_view_ref \<Rightarrow> bool" where
  "paused_expired sch st now v \<longleftrightarrow> vr_state v = Paused \<and> vr_status v = Acting \<and> vr_in_flight_requests v = 0 \<and>
     vr_waiting_requests v = 0 \<and>
     (case decisions st (vr_reference v) of
        Some d \<Rightarrow> (case paused_at d of Some since \<Rightarrow> paused_retention_ttl (sch_config sch) \<le> now - since | None \<Rightarrow> False)
      | None \<Rightarrow> False)"

definition release_expired_paused :: "program_scheduler \<Rightarrow> program_scheduler_state \<Rightarrow> instant \<Rightarrow> bool \<times> program_scheduler_state" where
  "release_expired_paused sch st now =
     (let expired = map vr_reference (filter (paused_expired sch st now) (iter_views sch (runtime st)))
      in (expired \<noteq> [], fold (\<lambda>p st. release_program sch st p now) expired st))"

section \<open>Capacity repair\<close>

record capacity_victim =
  cv_reference :: program_ref
  cv_status :: program_status
  score :: real
  sort_private_tokens :: real

definition is_victim :: "program_decision_state \<Rightarrow> runtime_program_view_ref \<Rightarrow> bool" where
  "is_victim d v =
     (case vr_status v of
        Acting \<Rightarrow> vr_in_flight_requests v = 0
      | Reasoning \<Rightarrow> \<not> pause_when_idle d \<and> 0 < vr_in_flight_requests v)"

definition victim_of :: "program_scheduler \<Rightarrow> instant \<Rightarrow> real \<Rightarrow> program_decision_state \<Rightarrow> runtime_program_view_ref \<Rightarrow> capacity_victim" where
  "victim_of sch now average_prompt d v =
     (let elapsed = (case segment_started_at d of Some started \<Rightarrow> as_secs_f64 (now - started) | None \<Rightarrow> 0);
          input = (if vr_status v = Acting
                   then (case last_context_tokens d of Some n \<Rightarrow> n | None \<Rightarrow> ds_estimated_context_tokens d)
                   else ds_estimated_context_tokens d)
      in \<lparr>cv_reference = vr_reference v, cv_status = vr_status v,
          score = elapsed * max (1 / sqrt (max (real input / average_prompt) (1 / 10 ^ 6))) 0.5,
          sort_private_tokens = private_tokens d (decode_buffer sch)\<rparr>)"

definition victim_cmp :: "capacity_victim \<Rightarrow> capacity_victim \<Rightarrow> ordering" where
  "victim_cmp l r =
     then_with (cmp (score r) (score l))
       (then_with (cmp (sort_private_tokens r) (sort_private_tokens l))
          (cmp (program_id (cv_reference l)) (program_id (cv_reference r))))"

record repair_scan =
  reasoning_count :: nat
  marked_reasoning_count :: nat
  future_private_relief :: real
  rs_router_usage :: real
  victims :: "capacity_victim list"

definition scan_program :: "program_scheduler \<Rightarrow> program_scheduler_state \<Rightarrow> str \<Rightarrow> instant \<Rightarrow> real \<Rightarrow> runtime_program_view_ref \<Rightarrow>
    repair_scan \<Rightarrow> repair_scan" where
  "scan_program sch st t now average_prompt v s =
     (if \<not> active_on t v then s
      else
        let s1 =
          (case decisions st (vr_reference v) of
             None \<Rightarrow> s
           | Some d \<Rightarrow>
               let tokens = private_tokens d (decode_buffer sch);
                   s1 = s\<lparr>rs_router_usage := rs_router_usage s + tokens\<rparr>;
                   s2 = (if vr_status v = Reasoning \<and> pause_when_idle d
                         then s1\<lparr>marked_reasoning_count := marked_reasoning_count s1 + 1,
                                 future_private_relief := future_private_relief s1 + tokens\<rparr> else s1)
               in if is_victim d v then s2\<lparr>victims := victims s2 @ [victim_of sch now average_prompt d v]\<rparr> else s2)
        in if vr_status v = Reasoning then s1\<lparr>reasoning_count := reasoning_count s1 + 1\<rparr> else s1)"

definition average_completion_of :: "program_scheduler_state \<Rightarrow> str \<Rightarrow> real" where
  "average_completion_of st t =
     (case rank_factors st t of Some f \<Rightarrow> of_int \<lceil>average_completion_tokens f\<rceil> | None \<Rightarrow> 0)"

definition average_prompt_of :: "program_scheduler_state \<Rightarrow> str \<Rightarrow> real" where
  "average_prompt_of st t = (case rank_factors st t of Some f \<Rightarrow> max (average_prompt_tokens f) 1 | None \<Rightarrow> 1)"

definition repair_scan_of :: "program_scheduler \<Rightarrow> program_scheduler_state \<Rightarrow> str \<Rightarrow> instant \<Rightarrow> repair_scan" where
  "repair_scan_of sch st t now =
     fold (scan_program sch st t now (average_prompt_of st t)) (iter_views sch (runtime st))
       \<lparr>reasoning_count = 0, marked_reasoning_count = 0, future_private_relief = 0, rs_router_usage = 0, victims = []\<rparr>"

definition projected_usage :: "program_scheduler \<Rightarrow> program_scheduler_state \<Rightarrow> str \<Rightarrow> instant \<Rightarrow> real" where
  "projected_usage sch st t now =
     (let s = repair_scan_of sch st t now; completion = average_completion_of st t;
          usage = (case observed_target_usage sch st t now of Some u \<Rightarrow> u | None \<Rightarrow> rs_router_usage s)
      in max (usage + completion * real (reasoning_count s) - future_private_relief s -
              completion * real (marked_reasoning_count s)) 0)"

definition relieve :: "program_scheduler \<Rightarrow> instant \<Rightarrow> capacity_victim \<Rightarrow> program_scheduler_state \<Rightarrow> bool \<times> program_scheduler_state" where
  "relieve sch now victim st =
     (if cv_status victim = Acting then sched_pause_idle sch st (cv_reference victim) Capacity_Repair now
      else case decisions st (cv_reference victim) of
             Some d \<Rightarrow> (True, st\<lparr>decisions := (decisions st)(cv_reference victim \<mapsto> d\<lparr>pause_when_idle := True\<rparr>)\<rparr>)
           | None \<Rightarrow> (False, st))"

fun repair_victims :: "program_scheduler \<Rightarrow> instant \<Rightarrow> real \<Rightarrow> real \<Rightarrow> capacity_victim list \<Rightarrow> real \<Rightarrow> bool \<Rightarrow>
    program_scheduler_state \<Rightarrow> real \<times> bool \<times> program_scheduler_state" where
  "repair_victims sch now low completion [] projected changed st = (projected, changed, st)"
| "repair_victims sch now low completion (victim # vs) projected changed st =
     (if projected \<le> low then (projected, changed, st)
      else
        let relief = private_tokens (decision_of st (cv_reference victim)) (decode_buffer sch) +
                     (if cv_status victim = Reasoning then completion else 0);
            (relieved, st1) = relieve sch now victim st
        in if relieved then repair_victims sch now low completion vs (max (projected - relief) 0) True st1
           else repair_victims sch now low completion vs projected changed st1)"

definition repair_target :: "program_scheduler \<Rightarrow> nat \<Rightarrow> instant \<Rightarrow> str \<Rightarrow> bool \<times> program_scheduler_state \<Rightarrow> bool \<times> program_scheduler_state" where
  "repair_target sch capacity now t acc =
     (let (changed, st) = acc;
          high = real capacity * high_watermark_ratio (progress_ttl (sch_config sch));
          low = real capacity * low_watermark_ratio (progress_ttl (sch_config sch));
          projected = projected_usage sch st t now
      in if projected \<le> high then (changed, st)
         else
           let (_, changed', st') = repair_victims sch now low (average_completion_of st t)
                 (sort_by victim_cmp (victims (repair_scan_of sch st t now))) projected changed st
           in (changed', st'))"

definition repair_capacity :: "program_scheduler \<Rightarrow> program_scheduler_state \<Rightarrow> instant \<Rightarrow> bool \<times> program_scheduler_state" where
  "repair_capacity sch st now =
     (case capacity_of sch of
        None \<Rightarrow> (False, st)
      | Some capacity \<Rightarrow> fold (repair_target sch capacity now) (map fst (targets st)) (False, st))"

section \<open>Decision sequences\<close>

definition run_request_arrival_decisions :: "program_scheduler \<Rightarrow> program_scheduler_state \<Rightarrow> instant \<Rightarrow> program_scheduler_state" where
  "run_request_arrival_decisions sch st now =
     (let st1 = snd (release_expired_paused sch st now);
          st2 = snd (expire_acting_ttls sch st1 now);
          st3 = snd (repair_capacity sch st2 now)
      in snd (schedule_waiting sch st3 now))"

definition run_periodic_decisions :: "program_scheduler \<Rightarrow> program_scheduler_state \<Rightarrow> instant \<Rightarrow> program_scheduler_state" where
  "run_periodic_decisions sch st now =
     (let st0 = st\<lparr>runtime := prune_released_generations (runtime st) now
                   (max (paused_retention_ttl (sch_config sch)) (60 * 10 ^ 9))\<rparr>;
          st1 = snd (expire_acting_ttls sch st0 now);
          st2 = snd (release_expired_paused sch st1 now)
      in if binding_only (sch_config sch) then st2
         else snd (schedule_waiting sch (snd (repair_capacity sch st2 now)) now))"

definition tick :: "program_scheduler \<Rightarrow> program_scheduler_state \<Rightarrow> instant \<Rightarrow> program_scheduler_state" where
  "tick sch st now = report_capacity_accounting_transitions sch (run_periodic_decisions sch st now) now"

end
