(* ===== verification/Scheduler_Ops.thy ===== *)
theory Scheduler_Ops
  imports Scheduler_Lifecycle
begin

text \<open>
  The entry points of the program scheduler: completion of a dispatch
  (\<^verbatim>\<open>program_scheduling/scheduler_lifecycle.rs\<close>), retention, dispatch and cancellation of a request
  (\<^verbatim>\<open>scheduler_admission.rs\<close>) and the synchronisation of the targets of a model pool (\<^verbatim>\<open>scheduler.rs\<close>).

  The waiting of a request between its critical sections is not part of a definition: the
  sections are \<open>acquire_synced\<close>, \<open>claim_dispatch\<close>, \<open>run_request_arrival_decisions\<close> and
  \<open>cancel_retained_request\<close>, which theory \<open>Scheduler_Run\<close> interleaves with everything else.

  A panic is the left side of a result; the index panics of the source are excluded by the
  invariant of theory \<open>Scheduler_Run\<close>.  A critical section that reads the clock more than once takes each
  reading as an argument.
\<close>

section \<open>Completion\<close>

datatype completion_action = Terminate | Pause program_pause_reason | Start_Acting_Ttl

definition shared_prefix_freshness :: "program_scheduler \<Rightarrow> program_scheduler_state \<Rightarrow> str \<Rightarrow> duration" where
  "shared_prefix_freshness sch st t =
     (let warmup = shared_prefix_freshness_warmup (sch_config sch) in
      case rank_factors st t of
        None \<Rightarrow> warmup
      | Some f \<Rightarrow>
          if \<not> request_window_complete f (window_size sch) then warmup
          else
            (case capacity_of sch of
               None \<Rightarrow> warmup
             | Some capacity \<Rightarrow>
                 let active_reasoning = length (filter (\<lambda>v. active_on t v \<and> vr_status v = Reasoning) (iter_views sch (runtime st)));
                     uncached = average_uncached_prompt_tokens f; latency = average_e2e_seconds f
                 in if active_reasoning = 0 \<or> uncached \<le> 0 \<or> latency \<le> 0 then warmup
                    else
                      let seconds = shared_prefix_freshness_kv_turnovers (sch_config sch) * real capacity * latency /
                                    real active_reasoning / uncached
                      in if 0 \<le> seconds then from_secs_f64 seconds else warmup))"

text \<open>What completion takes from the dispatch, the usage and the state before it.\<close>

record completion_facts =
  cf_observed_prompt_tokens :: nat
  cf_cached_prompt_tokens :: nat
  cf_explicit_cache_tokens :: nat
  cf_impact_seconds :: real
  cf_acting_ttl :: duration
  cf_freshness :: duration

definition completion_facts_of :: "program_scheduler \<Rightarrow> program_scheduler_state \<Rightarrow> program_dispatch \<Rightarrow> program_usage_observation \<Rightarrow>
    program_decision_state \<Rightarrow> completion_facts" where
  "completion_facts_of sch st dp usage d =
     (let t = d_target_id dp; ptl = progress_ttl (sch_config sch);
          observed = (case prompt_tokens usage of Some n \<Rightarrow> n | None \<Rightarrow> d_estimated_context_tokens dp);
          fallback_cached = (case rank_factors st t of Some f \<Rightarrow> nat (round (average_cached_prompt_tokens f)) | None \<Rightarrow> 0);
          impact = cache_miss_impact_seconds ptl (observed - min (shared_prefix_tokens d) observed);
          policy_ttl = (case rank_factors st t of Some f \<Rightarrow> fitted_acting_ttl ptl f impact | None \<Rightarrow> 0)
      in \<lparr>cf_observed_prompt_tokens = observed,
          cf_cached_prompt_tokens = min (case cached_prompt_tokens usage of Some n \<Rightarrow> n | None \<Rightarrow> fallback_cached) observed,
          cf_explicit_cache_tokens = min (case cached_prompt_tokens usage of Some n \<Rightarrow> n | None \<Rightarrow> 0) observed,
          cf_impact_seconds = impact,
          cf_acting_ttl = (case kv_retention_ttl (d_request_hints dp) of Some ttl \<Rightarrow> ttl | None \<Rightarrow> policy_ttl),
          cf_freshness = shared_prefix_freshness sch st t\<rparr>)"

definition context_growth :: "nat option \<Rightarrow> nat \<Rightarrow> nat option" where
  "context_growth previous observed =
     (case previous of
        None \<Rightarrow> None
      | Some prev \<Rightarrow>
          let growth = observed - prev in if 0 < prev \<and> 0 < growth \<and> growth < prev then Some growth else None)"

definition cache_continuity_hit_ratio :: real where
  "cache_continuity_hit_ratio = 0.9"

definition cache_continuous :: "nat option \<Rightarrow> nat \<Rightarrow> bool" where
  "cache_continuous previous cached =
     (case previous of None \<Rightarrow> True | Some prev \<Rightarrow> cache_continuity_hit_ratio * real prev \<le> real cached)"

definition starts_new_segment :: "program_dispatch \<Rightarrow> completion_facts \<Rightarrow> program_decision_state \<Rightarrow> bool" where
  "starts_new_segment dp cf d \<longleftrightarrow> d_placement_start_request dp \<and>
     (last_context_tokens d = None \<or> \<not> cache_continuous (last_context_tokens d) (cf_cached_prompt_tokens cf))"

definition freshness_due :: "program_decision_state \<Rightarrow> instant \<Rightarrow> bool" where
  "freshness_due d now \<longleftrightarrow> \<not> shared_prefix_observed d \<or>
     (case shared_prefix_fresh_until d of None \<Rightarrow> True | Some until \<Rightarrow> until \<le> now)"

definition observed_decision :: "program_usage_observation \<Rightarrow> completion_facts \<Rightarrow> program_decision_state \<Rightarrow> program_decision_state" where
  "observed_decision usage cf d =
     (if prompt_tokens usage \<noteq> None then observe_completed_context (cf_observed_prompt_tokens cf) d
      else if ds_estimated_context_tokens d \<le> cf_observed_prompt_tokens cf
      then d\<lparr>ds_estimated_context_tokens := cf_observed_prompt_tokens cf, context_shrink_observations := 0\<rparr>
      else d)"

definition segment_decision :: "program_dispatch \<Rightarrow> completion_facts \<Rightarrow> bool \<Rightarrow> bool \<Rightarrow> program_decision_state \<Rightarrow> program_decision_state" where
  "segment_decision dp cf starts due d =
     (if \<not> starts then d
      else
        let d1 = d\<lparr>segment_served_rounds := 0, ttl_pause_sampled_segment_rounds := 0,
                   segment_started_at := Some (d_dispatched_at dp)\<rparr>
        in if due
           then d1\<lparr>shared_prefix_tokens := cf_explicit_cache_tokens cf, shared_prefix_observed := True,
                   shared_prefix_fresh_until := Some (shared_prefix_freshness_anchor_at d1 + cf_freshness cf)\<rparr>
           else d1)"

definition success_decision :: "program_usage_observation \<Rightarrow> completion_facts \<Rightarrow> bool \<Rightarrow> instant \<Rightarrow> program_decision_state \<Rightarrow>
    program_decision_state" where
  "success_decision usage cf unbroken now d =
     (let completion = (case completion_tokens usage of Some n \<Rightarrow> n | None \<Rightarrow> 0); step = (if unbroken then 1 else 0)
      in d\<lparr>completed_requests := saturating_inc (completed_requests d),
           segment_served_rounds := saturating_inc (segment_served_rounds d),
           rounds_since_activation := sat_add (rounds_since_activation d) step,
           rounds_since_ttl_pause := sat_add (rounds_since_ttl_pause d) step,
           last_context_tokens := Some (cf_observed_prompt_tokens cf), last_completion_tokens := completion,
           lifetime_generated_tokens := sat_add (lifetime_generated_tokens d) completion,
           last_request_finished_at := Some now, last_cache_miss_impact_seconds := cf_impact_seconds cf\<rparr>)"

definition complete_decision :: "program_dispatch \<Rightarrow> bool \<Rightarrow> program_usage_observation \<Rightarrow> real option \<Rightarrow> instant \<Rightarrow> completion_facts \<Rightarrow>
    completion_action option \<Rightarrow> program_decision_state \<Rightarrow> request_sample option \<times> program_decision_state" where
  "complete_decision dp success usage decode_seconds now cf action d =
     (let unbroken = cache_continuous (last_context_tokens d) (cf_cached_prompt_tokens cf);
          starts = starts_new_segment dp cf d;
          due = (starts \<and> freshness_due d now);
          growth = context_growth (last_context_tokens d) (cf_observed_prompt_tokens cf);
          d1 = observed_decision usage cf d;
          d2 = (if success then success_decision usage cf unbroken now (segment_decision dp cf starts due d1) else d1);
          sample = (if success
                    then Some \<lparr>rs_prompt_tokens = cf_observed_prompt_tokens cf,
                               rs_completion_tokens = (case completion_tokens usage of Some n \<Rightarrow> n | None \<Rightarrow> 0),
                               rs_cached_prompt_tokens = cf_cached_prompt_tokens cf, rs_context_growth_tokens = growth,
                               rs_e2e_seconds = as_secs_f64 (now - d_request_arrived_at dp), rs_decode_seconds = decode_seconds,
                               rs_queue_seconds = as_secs_f64 (d_dispatched_at dp - d_request_arrived_at dp),
                               rs_rounds_since_ttl_pause = rounds_since_ttl_pause d2, rs_finished_at = now\<rparr>
                    else None);
          d3 = (if action = Some Start_Acting_Ttl
                then d2\<lparr>acting_since := Some now, ttl_deadline := Some (now + cf_acting_ttl cf)\<rparr> else d2)
      in (sample, d3\<lparr>output_token_reservation := None\<rparr>))"

definition modify_decision :: "program_ref \<Rightarrow> (program_decision_state \<Rightarrow> program_decision_state) \<Rightarrow> program_scheduler_state \<Rightarrow> program_scheduler_state" where
  "modify_decision p f st =
     (case decisions st p of None \<Rightarrow> st | Some d \<Rightarrow> st\<lparr>decisions := (decisions st)(p \<mapsto> f d)\<rparr>)"

definition idle_with :: "(nat \<Rightarrow> bool) \<Rightarrow> runtime_program_view option \<Rightarrow> bool" where
  "idle_with waiting v = (case v of Some v \<Rightarrow> v_in_flight_requests v = 0 \<and> waiting (v_waiting_requests v) | None \<Rightarrow> False)"

definition completion_action_of :: "bool \<Rightarrow> runtime_program_view option \<Rightarrow> program_decision_state \<Rightarrow> completion_action option" where
  "completion_action_of success after d =
     (if \<not> idle_with (\<lambda>n. n = 0) after then None
      else if terminate_when_idle d then Some Terminate
      else if pause_when_idle d \<or> \<not> success
      then Some (Pause (if pause_when_idle d then Capacity_Repair else Request_Failed))
      else Some Start_Acting_Ttl)"

definition record_completion :: "program_scheduler \<Rightarrow> program_dispatch \<Rightarrow> bool \<Rightarrow> program_usage_observation \<Rightarrow> real option \<Rightarrow> instant \<Rightarrow>
    completion_facts \<Rightarrow> completion_action option \<Rightarrow> real \<Rightarrow> program_scheduler_state \<Rightarrow> program_scheduler_state" where
  "record_completion sch dp success usage decode_seconds now cf action accounted_before st =
     (let p = d_program dp; t = d_target_id dp;
          (sample, st1) =
            (case decisions st p of
               None \<Rightarrow> (None, st)
             | Some d \<Rightarrow>
                 let (sample, d') = complete_decision dp success usage decode_seconds now cf action d
                 in (sample, st\<lparr>decisions := (decisions st)(p \<mapsto> d')\<rparr>));
          st2 = (case view (runtime st1) p of
                   Some v \<Rightarrow> if v_state v = Active
                             then adjust_usage st1 t (private_tokens (decision_of st1 p) (decode_buffer sch) - accounted_before)
                             else st1
                 | None \<Rightarrow> st1)
      in case sample of
           None \<Rightarrow> st2
         | Some s \<Rightarrow> st2\<lparr>rank_factors := (rank_factors st2)(t \<mapsto> push_request s (window_size sch) (factors_of st2 t))\<rparr>)"

definition complete :: "program_scheduler \<Rightarrow> program_scheduler_state \<Rightarrow> program_dispatch \<Rightarrow> bool \<Rightarrow> bool \<Rightarrow> program_usage_observation \<Rightarrow>
    real option \<Rightarrow> instant \<Rightarrow> program_scheduler_state" where
  "complete sch st dp success terminate usage decode_seconds now =
     (let p = d_program dp in
      case view (runtime st) p of
        None \<Rightarrow> st
      | Some before \<Rightarrow>
          if v_placement before \<noteq> Some (d_target_id dp) then st
          else
            (case decisions st p of
               None \<Rightarrow> st
             | Some d \<Rightarrow>
                 let cf = completion_facts_of sch st dp usage d; (ok, rt) = complete_request (runtime st) dp usage in
                 if \<not> ok then st
                 else
                   let after = view rt p; st1 = st\<lparr>runtime := rt\<rparr>;
                       st2 = (if idle_with (\<lambda>n. 0 < n) after then modify_decision p (\<lambda>d. d\<lparr>pause_when_idle := False\<rparr>) st1 else st1);
                       st3 = modify_decision p (\<lambda>d. d\<lparr>terminate_when_idle := terminate_when_idle d \<or> terminate\<rparr>) st2;
                       action = (case decisions st3 p of Some d \<Rightarrow> completion_action_of success after d | None \<Rightarrow> None);
                       st4 = (case action of Some (Pause reason) \<Rightarrow> snd (sched_pause_idle sch st3 p reason now) | _ \<Rightarrow> st3);
                       st5 = record_completion sch dp success usage decode_seconds now cf action
                               (private_tokens d (decode_buffer sch)) st4;
                       st6 = (if action = Some Terminate then release_program sch st5 p now else st5);
                       st7 = (if binding_only (sch_config sch) then st6 else snd (yield_completed_segment sch st6 p now))
                   in run_periodic_decisions sch st7 now))"

section \<open>Retention of a request\<close>

datatype schedule_error = Invalid_Identity str | No_Targets | Queue_Timeout

definition activate_binding_only :: "program_scheduler \<Rightarrow> program_scheduler_state \<Rightarrow> program_ref \<Rightarrow> instant \<Rightarrow> program_scheduler_state" where
  "activate_binding_only sch st p now =
     (if (case view (runtime st) p of Some v \<Rightarrow> v_state v = Active | None \<Rightarrow> False)
      then st\<lparr>runtime := notify_program (runtime st) p\<rparr>
      else case last_target_of st p of
             None \<Rightarrow> st
           | Some t \<Rightarrow> snd (commit_admission sch st p t now))"

definition record_continuity :: "program_scheduler \<Rightarrow> program_ref \<Rightarrow> instant \<Rightarrow> program_scheduler_state \<Rightarrow> program_scheduler_state" where
  "record_continuity sch p arrived_at st =
     (case (view (runtime st) p, decisions st p) of
        (Some v, Some d) \<Rightarrow>
          (case (last_request_finished_at d, last_target d) of
             (Some finished_at, Some t) \<Rightarrow>
               if v_in_flight_requests v = 0
               then st\<lparr>rank_factors := (rank_factors st)(t \<mapsto> push_continuity
                   \<lparr>interval_seconds = as_secs_f64 (arrived_at - finished_at),
                    cs_cache_miss_impact_seconds = last_cache_miss_impact_seconds d\<rparr> (window_size sch) (factors_of st t))\<rparr>
               else st
           | _ \<Rightarrow> st)
      | _ \<Rightarrow> st)"

definition push_queued :: "program_ref \<Rightarrow> str \<Rightarrow> (str \<rightharpoonup> program_ref list) \<Rightarrow> (str \<rightharpoonup> program_ref list)" where
  "push_queued p t qs = qs(t \<mapsto> (if p \<in> set (queue_at qs t) then queue_at qs t else queue_at qs t @ [p]))"

definition enqueue :: "program_scheduler \<Rightarrow> program_ref \<Rightarrow> str \<Rightarrow> str \<Rightarrow> instant \<Rightarrow> program_scheduler_state \<Rightarrow> program_scheduler_state" where
  "enqueue sch p pool t arrived_at st =
     (let st1 = (if global_queue (sch_config sch) then st\<lparr>global_queues := push_queued p pool (global_queues st)\<rparr>
                 else st\<lparr>rank_queues := push_queued p t (rank_queues st)\<rparr>);
          st2 = modify_decision p (\<lambda>d. d\<lparr>queued_at := (case queued_at d of Some q \<Rightarrow> Some q | None \<Rightarrow> Some arrived_at)\<rparr>) st1
      in set_force_resume_deadline sch st2 t p arrived_at)"

definition acquire_synced :: "program_scheduler \<Rightarrow> program_scheduler_state \<Rightarrow> program_identity \<Rightarrow> nat \<Rightarrow> program_target list \<Rightarrow> str option \<Rightarrow>
    instant \<Rightarrow> instant \<Rightarrow> binding_panic + (schedule_error + program_request_handle) \<times> program_scheduler_state" where
  "acquire_synced sch st identity tokens ts routing_text arrived_at now =
     (if ts = [] then Inr (Inl No_Targets, st)
      else
        let (h, rt) = retain_request (runtime st) identity tokens routing_text arrived_at;
            p = h_program h;
            st2 = record_continuity sch p arrived_at (st\<lparr>runtime := rt\<rparr>);
            previous_tokens = (case decisions st2 p of Some d \<Rightarrow> private_tokens d (decode_buffer sch) | None \<Rightarrow> 0)
        in case ensure_decision_state sch st2 identity p tokens arrived_at routing_text of
             Inl e \<Rightarrow> Inl e
           | Inr st3 \<Rightarrow>
               let current_tokens = private_tokens (decision_of st3 p) (decode_buffer sch);
                   decide = (\<lambda>st. if binding_only (sch_config sch) then activate_binding_only sch st p now
                                  else run_request_arrival_decisions sch st arrived_at)
               in case runtime_placement (runtime st3) p of
                    Some t \<Rightarrow>
                      let st4 = (if \<not> pause_when_idle (decision_of st3 p) \<and> previous_tokens < current_tokens
                                 then adjust_usage st3 t (current_tokens - previous_tokens) else st3)
                      in Inr (Inr h, decide st4)
                  | None \<Rightarrow>
                      (case last_target_of st3 p of
                         None \<Rightarrow> Inr (Inl No_Targets, st3)
                       | Some t \<Rightarrow> Inr (Inr h, decide (enqueue sch p (id_model_pool identity) t arrived_at st3))))"

definition claim_dispatch :: "program_scheduler_state \<Rightarrow> program_request_handle \<Rightarrow> instant \<Rightarrow> u64 \<Rightarrow>
    program_dispatch option \<times> program_scheduler_state" where
  "claim_dispatch st h now epoch =
     (case runtime_placement (runtime st) (h_program h) of
        None \<Rightarrow> (None, st)
      | Some t \<Rightarrow>
          let (dispatch, rt) = admit_front (runtime st) h t now; st1 = st\<lparr>runtime := rt\<rparr>
          in case dispatch of
               None \<Rightarrow> (None, st1)
             | Some dp \<Rightarrow>
                 (Some dp,
                  case d_routing_text dp of
                    None \<Rightarrow> st1
                  | Some body \<Rightarrow>
                      st1\<lparr>sc_bindings := bindings_commit epoch (sc_bindings st1) (d_program dp) body (d_target_id dp)\<rparr>))"

definition cancelled_decision :: "instant \<Rightarrow> program_decision_state \<Rightarrow> program_decision_state" where
  "cancelled_decision now d = restart_shared_prefix_freshness now
     (d\<lparr>paused_at := Some now, last_pause_reason := Some Request_Cancelled, rounds_since_activation := 0, pause_when_idle := False\<rparr>)"

definition cancel_retained_request :: "program_scheduler \<Rightarrow> program_scheduler_state \<Rightarrow> program_request_handle \<Rightarrow>
    instant \<Rightarrow> instant \<Rightarrow> instant \<Rightarrow> program_scheduler_state" where
  "cancel_retained_request sch st h now1 now2 now3 =
     (let p = h_program h; before = view (runtime st) p; (ok, rt) = cancel_request (runtime st) h in
      if \<not> ok then st
      else
        let st1 = st\<lparr>runtime := rt\<rparr>; after = view rt p;
            st2 = (case (before, after, decisions st p, last_target_of st1 p) of
                     (Some b, Some a, Some d, Some t) \<Rightarrow>
                       if v_state b = Active \<and> v_state a = Paused
                       then modify_decision p (cancelled_decision now1)
                              (adjust_usage st1 t (- private_tokens d (decode_buffer sch)))
                       else st1
                   | _ \<Rightarrow> st1);
            st3 = (if (case view (runtime st2) p of Some v \<Rightarrow> 0 < v_waiting_requests v | None \<Rightarrow> False) then st2 else unqueue p st2);
            remove_unstarted = (idle_with (\<lambda>n. n = 0) (view (runtime st3) p) \<and>
              (case decisions st3 p of Some d \<Rightarrow> completed_requests d = 0 | None \<Rightarrow> False));
            st4 = (if remove_unstarted then release_program sch st3 p now2 else st3)
        in snd (schedule_waiting sch st4 now3))"

section \<open>Synchronisation of targets\<close>

datatype sync_panic = Revision_Exhausted | Binding_Panic binding_panic

definition identity_for_rebinding :: "program_ref \<Rightarrow> str \<Rightarrow> str \<Rightarrow> bool \<Rightarrow> program_identity" where
  "identity_for_rebinding p hash_key key resume = \<lparr>id_model_pool = model_pool p, id_program_id = program_id p,
     placement_hash_key = hash_key, placement_key = key, expected_resume = resume, task_id = None, session_id = None,
     agent_id = None, parent_program_id = None, root_program_id = None, blocks_parent = False, agent_role = None,
     spawn_reason = None, step_id = None, request_hints = no_hints\<rparr>"

definition or_default :: "str \<Rightarrow> 'a \<Rightarrow> (str \<rightharpoonup> 'a) \<Rightarrow> (str \<rightharpoonup> 'a)" where
  "or_default t x m = (if m t = None then m(t \<mapsto> x) else m)"

definition add_target :: "str \<Rightarrow> program_scheduler_state \<Rightarrow> program_scheduler_state" where
  "add_target t st = st\<lparr>rank_queues := or_default t [] (rank_queues st),
     rank_factors := or_default t default_factors (rank_factors st),
     observations := or_default t default_observation (observations st)\<rparr>"

definition drop_target :: "str \<Rightarrow> str \<Rightarrow> program_scheduler_state \<Rightarrow> program_scheduler_state" where
  "drop_target pool t st = st\<lparr>
     sc_bindings := remove_affinity_target (remove_bound_target (sc_bindings st) t) pool t,
     rank_queues := (rank_queues st)(t := None), rank_factors := (rank_factors st)(t := None),
     observations := (observations st)(t := None)\<rparr>"

record affected_program =
  af_reference :: program_ref
  af_expected_resume :: bool
  af_waiting_requests :: nat
  af_target_disappeared :: bool
  af_placement_key :: str
  af_placement_hash_key :: str

definition affected_of :: "program_scheduler_state \<Rightarrow> str \<Rightarrow> str list \<Rightarrow> str list \<Rightarrow> runtime_program_view_ref \<Rightarrow> affected_program option" where
  "affected_of st pool current removed v =
     (if model_pool (vr_reference v) \<noteq> pool then None
      else case decisions st (vr_reference v) of
             None \<Rightarrow> None
           | Some d \<Rightarrow>
               if (case last_target d of None \<Rightarrow> True | Some t \<Rightarrow> t \<notin> set current)
               then Some \<lparr>af_reference = vr_reference v, af_expected_resume = vr_expected_resume v,
                          af_waiting_requests = vr_waiting_requests v,
                          af_target_disappeared = (case last_target d of None \<Rightarrow> False | Some t \<Rightarrow> t \<in> set removed),
                          af_placement_key = ds_placement_key d, af_placement_hash_key = ds_placement_hash_key d\<rparr>
               else None)"

definition rebound_decision :: "str option \<Rightarrow> bool \<Rightarrow> instant \<Rightarrow> program_decision_state \<Rightarrow> program_decision_state" where
  "rebound_decision replacement pause now d =
     (let d1 = d\<lparr>home_target := replacement, last_target := replacement\<rparr>
      in if pause
         then restart_shared_prefix_freshness now
                (d1\<lparr>paused_at := Some now, pause_when_idle := False, ttl_deadline := None, segment_started_at := None\<rparr>)
         else d1)"

definition rebind_program :: "program_scheduler \<Rightarrow> str \<Rightarrow> str list \<Rightarrow> (program_ref \<Rightarrow> instant) \<Rightarrow> (program_ref \<Rightarrow> instant) \<Rightarrow> affected_program \<Rightarrow>
    program_scheduler_state \<Rightarrow> sync_panic + program_scheduler_state" where
  "rebind_program sch pool removed clock pause_clock a st =
     (let p = af_reference a;
          (invalidated, rt) = invalidate_placement (runtime st) p removed;
          st1 = unqueue p (st\<lparr>runtime := rt, sc_bindings := snd (release_program_binding (sc_bindings st) p)\<rparr>);
          identity = identity_for_rebinding p (af_placement_hash_key a) (af_placement_key a) (af_expected_resume a)
      in case Program_Binding.bind (sc_bindings st1) identity (binding_candidates sch st1 identity (clock p)) None of
           Inl e \<Rightarrow> Inl (Binding_Panic e)
         | Inr (replacement, b) \<Rightarrow>
             let st2 = modify_decision p (rebound_decision replacement (invalidated \<or> af_target_disappeared a) (pause_clock p))
                         (st1\<lparr>sc_bindings := b\<rparr>)
             in Inr (if 0 < af_waiting_requests a
                     then if global_queue (sch_config sch)
                          then st2\<lparr>global_queues := (global_queues st2)(pool \<mapsto> queue_at (global_queues st2) pool @ [p])\<rparr>
                          else (case replacement of
                                  Some t \<Rightarrow> st2\<lparr>rank_queues := (rank_queues st2)(t \<mapsto> queue_at (rank_queues st2) t @ [p])\<rparr>
                                | None \<Rightarrow> st2)
                     else st2))"

fun rebind_all :: "program_scheduler \<Rightarrow> str \<Rightarrow> str list \<Rightarrow> (program_ref \<Rightarrow> instant) \<Rightarrow> (program_ref \<Rightarrow> instant) \<Rightarrow> affected_program list \<Rightarrow>
    program_scheduler_state \<Rightarrow> sync_panic + program_scheduler_state" where
  "rebind_all sch pool removed clock pause_clock [] st = Inr st"
| "rebind_all sch pool removed clock pause_clock (a # as) st =
     (case rebind_program sch pool removed clock pause_clock a st of
        Inl e \<Rightarrow> Inl e
      | Inr st' \<Rightarrow> rebind_all sch pool removed clock pause_clock as st')"

definition retain_referenced :: "program_scheduler \<Rightarrow> program_scheduler_state \<Rightarrow> program_scheduler_state" where
  "retain_referenced sch st =
     (let referenced = concat (map (\<lambda>pool. the (model_targets st pool)) (hash_models sch (model_targets st)))
      in st\<lparr>targets := filter (\<lambda>e. fst e \<in> set referenced) (targets st)\<rparr>)"

definition install_targets :: "str \<Rightarrow> target_snapshot \<Rightarrow> (str \<times> program_target) list \<Rightarrow> str list \<Rightarrow> program_scheduler_state \<Rightarrow> program_scheduler_state" where
  "install_targets pool snapshot incoming removed st =
     (let st1 = st\<lparr>target_snapshot_revision := target_snapshot_revision st + 1,
                   model_target_snapshots := (model_target_snapshots st)(pool \<mapsto> snapshot),
                   model_targets := (model_targets st)(pool \<mapsto> map fst incoming),
                   targets := fold (\<lambda>(t, x). bt_insert t x) incoming (targets st),
                   global_queues := or_default pool [] (global_queues st)\<rparr>
      in fold (drop_target pool) removed (fold add_target (map fst incoming) st1))"

definition sync_target_snapshot_locked :: "program_scheduler \<Rightarrow> str \<Rightarrow> target_snapshot \<Rightarrow> (program_ref \<Rightarrow> instant) \<Rightarrow> (program_ref \<Rightarrow> instant) \<Rightarrow>
    program_scheduler_state \<Rightarrow> sync_panic + program_scheduler_state" where
  "sync_target_snapshot_locked sch pool snapshot clock pause_clock st =
     (if (case model_target_snapshots st pool of Some current \<Rightarrow> address current = address snapshot | None \<Rightarrow> False) then Inr st
      else
        let incoming = fold (\<lambda>t. bt_insert (t_id t) t) (snapshot_targets snapshot) [];
            current_ids = map fst incoming
        in if model_targets st pool = Some current_ids \<and> list_all (\<lambda>(i, t). map_of (targets st) i = Some t) incoming
           then Inr (st\<lparr>model_target_snapshots := (model_target_snapshots st)(pool \<mapsto> snapshot)\<rparr>)
           else if 2 ^ 64 - 1 \<le> target_snapshot_revision st then Inl Revision_Exhausted
           else
             let previous_ids = (case model_targets st pool of Some ids \<Rightarrow> ids | None \<Rightarrow> []);
                 removed = filter (\<lambda>t. t \<notin> set current_ids) previous_ids;
                 st1 = install_targets pool snapshot incoming removed st;
                 affected = List.map_filter (affected_of st1 pool current_ids removed) (iter_views sch (runtime st1))
             in case rebind_all sch pool removed clock pause_clock affected st1 of
                  Inl e \<Rightarrow> Inl e
                | Inr st2 \<Rightarrow> Inr (retain_referenced sch st2))"

definition targets_of :: "program_scheduler_state \<Rightarrow> str \<Rightarrow> program_target list" where
  "targets_of st pool =
     (case model_targets st pool of None \<Rightarrow> [] | Some ids \<Rightarrow> List.map_filter (map_of (targets st)) ids)"

definition all_targets :: "program_scheduler_state \<Rightarrow> program_target list" where
  "all_targets st = map snd (targets st)"

definition model_pools :: "program_scheduler \<Rightarrow> program_scheduler_state \<Rightarrow> str list" where
  "model_pools sch st = sort (hash_models sch (model_targets st))"

end
