(* ===== verification/Scheduler_Steps.thy ===== *)
theory Scheduler_Steps
  imports Scheduler_Ops
begin

text \<open>
  The decisions of the scheduler as a step relation, and the invariant they keep.

  Between two entry points the scheduler admits, pauses and releases programs, revises their
  decision states and adjusts its accounts.  \<open>decide\<close> is one such decision; every loop of the
  scheduler is a sequence of them.  The invariant is kept by each decision, so the loops keep it
  whatever they decide and in whatever order the hash maps are iterated.
\<close>

section \<open>Invariant\<close>

definition live :: "program_runtime \<Rightarrow> program_ref \<Rightarrow> bool" where
  "live rt r \<longleftrightarrow> (\<exists>p. programs rt (key_of_ref r) = Some p \<and> reference p = r)"

definition pool_target :: "program_scheduler_state \<Rightarrow> str \<Rightarrow> str \<Rightarrow> bool" where
  "pool_target st pool t \<longleftrightarrow> (\<exists>ids. model_targets st pool = Some ids \<and> t \<in> set ids)"

text \<open>The targets of a program belong to its pool, and it is placed on its last target.\<close>

definition target_ok :: "program_scheduler_state \<Rightarrow> program_ref \<Rightarrow> bool" where
  "target_ok st r \<longleftrightarrow>
     (\<forall>t. last_target_of st r = Some t \<longrightarrow> pool_target st (model_pool r) t) \<and>
     (\<forall>t. runtime_placement (runtime st) r = Some t \<longrightarrow> last_target_of st r = Some t)"

definition sinv :: "program_scheduler_state \<Rightarrow> bool" where
  "sinv st \<longleftrightarrow> rt_wf (runtime st) \<and> (\<forall>r. decisions st r \<noteq> None \<longleftrightarrow> live (runtime st) r) \<and>
     (\<forall>r. target_ok st r) \<and> policy_ok (binding_policy (sc_bindings st)) \<and> forest (sc_lineage st) \<and>
     finite (dom (rank_queues st))"

lemma sinvD:
  assumes "sinv st"
  shows "rt_wf (runtime st)" "decisions st r \<noteq> None \<longleftrightarrow> live (runtime st) r" "target_ok st r"
    "policy_ok (binding_policy (sc_bindings st))" "forest (sc_lineage st)"
    "finite (dom (rank_queues st))"
  using assms unfolding sinv_def by blast+

text \<open>A program that waits is in the queue from which it is scheduled.\<close>

definition waiting_paused :: "program_scheduler_state \<Rightarrow> program_ref \<Rightarrow> bool" where
  "waiting_paused st r \<longleftrightarrow> live (runtime st) r \<and> runtime_placement (runtime st) r = None \<and>
     program_len (request_pool (runtime st)) r \<noteq> 0"

definition in_queue :: "program_scheduler \<Rightarrow> program_scheduler_state \<Rightarrow> program_ref \<Rightarrow> str \<Rightarrow> bool" where
  "in_queue sch st r t \<longleftrightarrow>
     r \<in> set (if global_queue (sch_config sch) then queue_at (global_queues st) (model_pool r) else queue_at (rank_queues st) t)"

definition queued_ok :: "program_scheduler \<Rightarrow> program_scheduler_state \<Rightarrow> program_ref \<Rightarrow> bool" where
  "queued_ok sch st r \<longleftrightarrow> (waiting_paused st r \<longrightarrow> (\<forall>t. last_target_of st r = Some t \<longrightarrow> in_queue sch st r t))"

section \<open>Changes to one program\<close>

definition keeps_program :: "program_scheduler \<Rightarrow> program_scheduler_state \<Rightarrow> program_scheduler_state \<Rightarrow> program_ref \<Rightarrow> bool" where
  "keeps_program sch st st' r \<longleftrightarrow> live (runtime st') r = live (runtime st) r \<and>
     runtime_placement (runtime st') r = runtime_placement (runtime st) r \<and>
     decisions st' r = decisions st r \<and>
     program_len (request_pool (runtime st')) r = program_len (request_pool (runtime st)) r \<and>
     (\<forall>t. in_queue sch st r t \<longrightarrow> in_queue sch st' r t)"

definition frame :: "program_scheduler \<Rightarrow> program_ref \<Rightarrow> program_scheduler_state \<Rightarrow> program_scheduler_state \<Rightarrow> bool" where
  "frame sch p st st' \<longleftrightarrow> (\<forall>r. r \<noteq> p \<longrightarrow> keeps_program sch st st' r) \<and> model_targets st' = model_targets st \<and>
     (policy_ok (binding_policy (sc_bindings st)) \<longrightarrow> policy_ok (binding_policy (sc_bindings st'))) \<and>
     (forest (sc_lineage st) \<longrightarrow> forest (sc_lineage st')) \<and>
     (finite (dom (rank_queues st)) \<longrightarrow> finite (dom (rank_queues st')))"

lemma keeps_target_ok:
  assumes "keeps_program sch st st' r" "model_targets st' = model_targets st"
  shows "target_ok st' r = target_ok st r"
  using assms by (simp add: keeps_program_def target_ok_def last_target_of_def pool_target_def)

lemma keeps_queued_ok: "keeps_program sch st st' r \<Longrightarrow> queued_ok sch st r \<Longrightarrow> queued_ok sch st' r"
  by (simp add: keeps_program_def queued_ok_def waiting_paused_def last_target_of_def)

lemma frame_sinv:
  assumes "sinv st" "frame sch p st st'" "rt_wf (runtime st')" "decisions st' p \<noteq> None \<longleftrightarrow> live (runtime st') p" "target_ok st' p"
  shows "sinv st'"
proof -
  have K: "keeps_program sch st st' r" if "r \<noteq> p" for r using assms(2) that by (simp add: frame_def)
  have "decisions st' r \<noteq> None \<longleftrightarrow> live (runtime st') r" for r
    using assms(4) sinvD(2) [OF assms(1), of r] K [of r] by (cases "r = p") (simp_all add: keeps_program_def)
  moreover have "target_ok st' r" for r
    using assms(2,5) sinvD(3) [OF assms(1), of r] keeps_target_ok [OF K] by (cases "r = p") (simp_all add: frame_def)
  ultimately show ?thesis using assms(2,3) sinvD(4,5,6) [OF assms(1)] by (simp add: sinv_def frame_def)
qed

lemma frame_queued:
  assumes "\<forall>r. queued_ok sch st r" "frame sch p st st'" "queued_ok sch st' p"
  shows "\<forall>r. queued_ok sch st' r"
  using assms keeps_queued_ok unfolding frame_def by metis

text \<open>Replacing the program at one key changes only the program it refers to.\<close>

lemma live_upd:
  assumes "programs rt' = (programs rt)(key_of_ref p \<mapsto> q')" "reference q' = p"
    "\<And>q. programs rt (key_of_ref p) = Some q \<Longrightarrow> reference q = p" "r \<noteq> p"
  shows "live rt' r = live rt r" "runtime_placement rt' r = runtime_placement rt r"
  using assms by (auto simp: live_def runtime_placement_def split: option.splits)

lemma keeps_same:
  assumes "programs (runtime st') = programs (runtime st)" "decisions st' r = decisions st r"
    "program_len (request_pool (runtime st')) r = program_len (request_pool (runtime st)) r"
    "rank_queues st' = rank_queues st" "global_queues st' = global_queues st"
  shows "keeps_program sch st st' r"
  using assms by (simp add: keeps_program_def live_def runtime_placement_def in_queue_def)

lemma dom_remove_queued [simp]: "dom (remove_queued p qs) = dom qs"
  by (auto simp: remove_queued_def dom_def)

lemma in_queue_remove: "r \<noteq> p \<Longrightarrow> r \<in> set (queue_at (remove_queued p qs) t) \<longleftrightarrow> r \<in> set (queue_at qs t)"
  by (simp add: queue_at_def remove_queued_def split: option.split)

section \<open>Decisions\<close>

definition same_core :: "program_scheduler_state \<Rightarrow> program_scheduler_state \<Rightarrow> bool" where
  "same_core st st' \<longleftrightarrow> runtime st' = runtime st \<and> decisions st' = decisions st \<and> model_targets st' = model_targets st \<and>
     sc_bindings st' = sc_bindings st \<and> sc_lineage st' = sc_lineage st \<and> rank_queues st' = rank_queues st \<and>
     global_queues st' = global_queues st \<and> model_target_snapshots st' = model_target_snapshots st"

abbreviation no_requests :: "program_scheduler_state \<Rightarrow> program_ref \<Rightarrow> bool" where
  "no_requests st p \<equiv> program_len (request_pool (runtime st)) p = 0"

inductive decide :: "program_scheduler \<Rightarrow> program_scheduler_state \<Rightarrow> program_scheduler_state \<Rightarrow> bool" for sch where
  Account: "same_core st st' \<Longrightarrow> decide sch st st'"
| Revise: "decisions st p = Some d \<Longrightarrow> last_target d' = last_target d \<Longrightarrow>
    decide sch st (st\<lparr>decisions := (decisions st)(p \<mapsto> d')\<rparr>)"
| Admit: "last_target_of st p = Some t \<or> pool_target st (model_pool p) t \<Longrightarrow>
    decide sch st (snd (commit_admission sch st p t now))"
| Pause: "no_requests st p \<Longrightarrow> decide sch st (snd (sched_pause_idle sch st p reason now))"
| Release: "no_requests st p \<Longrightarrow> decide sch st (release_program sch st p now)"
| Unqueue: "no_requests st p \<Longrightarrow> decide sch st (unqueue p st)"
| Prune: "decide sch st (st\<lparr>runtime := prune_released_generations (runtime st) now retention\<rparr>)"
| Notify: "decide sch st (st\<lparr>runtime := notify_program (runtime st) p\<rparr>)"

abbreviation decides :: "program_scheduler \<Rightarrow> program_scheduler_state \<Rightarrow> program_scheduler_state \<Rightarrow> bool" where
  "decides sch \<equiv> (decide sch)\<^sup>*\<^sup>*"

text \<open>What the operations of the runtime do to the requests and the programs.\<close>

lemma commit_cases:
  obtains (fails) "snd (commit_admission sch st p t now) = st"
  | (success) q d rt where "programs (runtime st) (key_of_ref p) = Some q" "reference q = p" "decisions st p = Some d"
      "activate (runtime st) p t = (True, rt)" "rp_state q = Paused"
      "runtime (snd (commit_admission sch st p t now)) = notify_program rt p"
      "decisions (snd (commit_admission sch st p t now)) = (decisions st)(p \<mapsto> activated_decision t now d)"
      "rank_queues (snd (commit_admission sch st p t now)) = remove_queued p (rank_queues st)"
      "global_queues (snd (commit_admission sch st p t now)) = remove_queued p (global_queues st)"
      "model_targets (snd (commit_admission sch st p t now)) = model_targets st"
      "sc_bindings (snd (commit_admission sch st p t now)) = sc_bindings st"
      "sc_lineage (snd (commit_admission sch st p t now)) = sc_lineage st"
      "model_target_snapshots (snd (commit_admission sch st p t now)) = model_target_snapshots st"
proof (cases "decisions st p")
  case None
  then show ?thesis using fails by (simp add: commit_admission_def)
next
  case (Some d)
  obtain ok rt where A: "activate (runtime st) p t = (ok, rt)" by fastforce
  show ?thesis
  proof (cases ok)
    case False
    then show ?thesis using fails Some A by (simp add: commit_admission_def Let_def)
  next
    case True
    then have A': "activate (runtime st) p t = (True, rt)" using A by simp
    obtain q where q: "programs (runtime st) (key_of_ref p) = Some q" "reference q = p" "rp_state q = Paused"
      using A' by (auto simp: activate_def split: option.splits if_splits)
    show ?thesis
      by (rule success [OF q(1,2) Some A'])
        (use Some A' q(3) in \<open>simp_all add: commit_admission_def Let_def unqueue_def adjust_usage_def\<close>)
  qed
qed

lemma activate_runtime:
  assumes "activate rt p t = (True, rt')"
  obtains q' where "programs rt' = (programs rt)(key_of_ref p \<mapsto> q')" "reference q' = p" "placement q' = Some t"
    "request_pool rt' = request_pool rt"
  using assms by (auto simp: activate_def Let_def split: option.splits if_splits)

lemma pause_cases:
  obtains (fails) "snd (sched_pause_idle sch st p reason now) = st"
  | (success) q d rt where "programs (runtime st) (key_of_ref p) = Some q" "reference q = p" "decisions st p = Some d"
      "rt = snd (pause_idle (runtime st) p)"
      "programs rt = (programs (runtime st))(key_of_ref p \<mapsto> q\<lparr>rp_state := Paused, placement := None\<rparr>)"
      "request_pool rt = request_pool (runtime st)"
      "runtime (snd (sched_pause_idle sch st p reason now)) = rt"
      "decisions (snd (sched_pause_idle sch st p reason now)) = (decisions st)(p \<mapsto> paused_decision reason now d)"
      "rank_queues (snd (sched_pause_idle sch st p reason now)) = rank_queues st"
      "global_queues (snd (sched_pause_idle sch st p reason now)) = global_queues st"
      "model_targets (snd (sched_pause_idle sch st p reason now)) = model_targets st"
      "sc_bindings (snd (sched_pause_idle sch st p reason now)) = sc_bindings st"
      "sc_lineage (snd (sched_pause_idle sch st p reason now)) = sc_lineage st"
      "model_target_snapshots (snd (sched_pause_idle sch st p reason now)) = model_target_snapshots st"
proof (cases "runtime_placement (runtime st) p = None \<or> decisions st p = None \<or> \<not> fst (pause_idle (runtime st) p)")
  case True
  then have "snd (sched_pause_idle sch st p reason now) = st"
    by (cases "pause_idle (runtime st) p") (auto simp: sched_pause_idle_def split: option.splits)
  then show ?thesis by (rule fails)
next
  case False
  then obtain t d rt where D: "runtime_placement (runtime st) p = Some t" "decisions st p = Some d"
    "pause_idle (runtime st) p = (True, rt)" by (cases "pause_idle (runtime st) p") auto
  obtain q where q: "programs (runtime st) (key_of_ref p) = Some q" "reference q = p"
    "rt = (runtime st)\<lparr>programs := (programs (runtime st))(key_of_ref p \<mapsto> q\<lparr>rp_state := Paused, placement := None\<rparr>)\<rparr>"
    using D(3) by (auto simp: pause_idle_def split: option.splits if_splits)
  show ?thesis
    by (rule success [OF q(1,2) D(2), of rt]) (use D q(3) in \<open>simp_all add: sched_pause_idle_def adjust_usage_def\<close>)
qed

lemma release_cases:
  obtains (fails) "release_program sch st p now = unqueue p st"
  | (success) "live (runtime st) p" "runtime (release_program sch st p now) = snd (release_idle (runtime st) p now)"
      "programs (snd (release_idle (runtime st) p now)) = (programs (runtime st))(key_of_ref p := None)"
      "request_pool (snd (release_idle (runtime st) p now)) = request_pool (runtime st)"
      "decisions (release_program sch st p now) = (decisions st)(p := None)"
      "rank_queues (release_program sch st p now) = remove_queued p (rank_queues st)"
      "global_queues (release_program sch st p now) = remove_queued p (global_queues st)"
      "model_targets (release_program sch st p now) = model_targets st"
      "binding_policy (sc_bindings (release_program sch st p now)) = binding_policy (sc_bindings st)"
      "sc_lineage (release_program sch st p now) = sc_lineage st"
      "model_target_snapshots (release_program sch st p now) = model_target_snapshots st"
proof (cases "fst (release_idle (runtime st) p now)")
  case False
  then obtain rt where "release_idle (runtime st) p now = (False, rt)" by (cases "release_idle (runtime st) p now") auto
  then have "release_program sch st p now = unqueue p st" by (simp add: release_program_def Let_def unqueue_def)
  then show ?thesis by (rule fails)
next
  case True
  then obtain rt where R: "release_idle (runtime st) p now = (True, rt)" by (cases "release_idle (runtime st) p now") auto
  then have "live (runtime st) p" "programs rt = (programs (runtime st))(key_of_ref p := None)" "request_pool rt = request_pool (runtime st)"
    by (auto simp: release_idle_def live_def split: option.splits if_splits)
  then show ?thesis using R
    by (intro success) (simp_all add: release_program_def Let_def unqueue_def adjust_usage_def release_program_binding_def
        split: option.splits prod.splits)
qed

section \<open>Every decision keeps the invariant\<close>

lemma decide_len: "decide sch st st' \<Longrightarrow> program_len (request_pool (runtime st')) r = program_len (request_pool (runtime st)) r"
proof (induction rule: decide.induct)
  case (Admit st p t now)
  show ?case
  proof (cases rule: commit_cases [of sch st p t now])
    case (success q d rt)
    then show ?thesis using activate_runtime [OF success(4)] by (metis notify_program_def program_len_notify
          program_runtime.select_convs(4) program_runtime.surjective program_runtime.update_convs(4))
  qed simp
next
  case (Pause st p reason now)
  show ?case by (cases rule: pause_cases [of sch st p reason now]) auto
next
  case (Release st p now)
  show ?case by (cases rule: release_cases [of sch st p now]) (auto simp: unqueue_def)
qed (simp_all add: same_core_def unqueue_def prune_released_generations_def notify_program_def)

lemma decide_targets: "decide sch st st' \<Longrightarrow> model_targets st' = model_targets st"
proof (induction rule: decide.induct)
  case (Admit st p t now)
  show ?case by (cases rule: commit_cases [of sch st p t now]) auto
next
  case (Pause st p reason now)
  show ?case by (cases rule: pause_cases [of sch st p reason now]) auto
next
  case (Release st p now)
  show ?case by (cases rule: release_cases [of sch st p now]) (auto simp: unqueue_def)
qed (simp_all add: same_core_def unqueue_def)

lemma decide_snapshots: "decide sch st st' \<Longrightarrow> model_target_snapshots st' = model_target_snapshots st"
proof (induction rule: decide.induct)
  case (Admit st p t now)
  show ?case by (cases rule: commit_cases [of sch st p t now]) auto
next
  case (Pause st p reason now)
  show ?case by (cases rule: pause_cases [of sch st p reason now]) auto
next
  case (Release st p now)
  show ?case by (cases rule: release_cases [of sch st p now]) (auto simp: unqueue_def)
qed (simp_all add: same_core_def unqueue_def)

text \<open>The runtime changes by its own operations.\<close>

lemma decide_rt: "decide sch st st' \<Longrightarrow> rt_step\<^sup>*\<^sup>* (runtime st, outs) (runtime st', outs)"
proof (induction rule: decide.induct)
  case (Admit st p t now)
  show ?case
  proof (cases rule: commit_cases [of sch st p t now])
    case (success q d rt)
    have "rt_step (runtime st, outs) (rt, outs)" using rt_step.Activate [of "runtime st" outs p t] success(4) by simp
    moreover have "rt_step (rt, outs) (notify_program rt p, outs)" by (rule rt_step.Notify)
    ultimately show ?thesis unfolding success(6) by (rule converse_rtranclp_into_rtranclp [OF _ r_into_rtranclp])
  qed simp
next
  case (Pause st p reason now)
  show ?case
  proof (cases rule: pause_cases [of sch st p reason now])
    case (success q d rt)
    then show ?thesis using rt_step.Pause [of "runtime st" outs p] by auto
  qed simp
next
  case (Release st p now)
  show ?case
  proof (cases rule: release_cases [of sch st p now])
    case success
    then show ?thesis using rt_step.Release [of "runtime st" outs p now] by auto
  qed (simp add: unqueue_def)
next
  case (Prune st now retention)
  then show ?case using rt_step.Prune [of "runtime st" outs now retention] by auto
next
  case (Notify st p)
  then show ?case using rt_step.Notify [of "runtime st" outs p] by auto
qed (simp_all add: same_core_def unqueue_def)

lemma rt_steps_wf: "rt_step\<^sup>*\<^sup>* s s' \<Longrightarrow> rt_wf (fst s) \<Longrightarrow> rt_wf (fst s')"
  by (induction rule: rtranclp_induct) (auto intro: rt_step_wf)

lemma decide_wf: "decide sch st st' \<Longrightarrow> rt_wf (runtime st) \<Longrightarrow> rt_wf (runtime st')"
  using rt_steps_wf [OF decide_rt [where outs = "[]"]] by simp

text \<open>Every decision is about one program, for which the invariant is kept.\<close>

definition program_kept :: "program_scheduler \<Rightarrow> program_scheduler_state \<Rightarrow> program_scheduler_state \<Rightarrow> program_ref \<Rightarrow> bool" where
  "program_kept sch st st' p \<longleftrightarrow>
     ((decisions st p \<noteq> None \<longleftrightarrow> live (runtime st) p) \<longrightarrow> (decisions st' p \<noteq> None \<longleftrightarrow> live (runtime st') p)) \<and>
     (target_ok st p \<longrightarrow> target_ok st' p) \<and> (queued_ok sch st p \<longrightarrow> queued_ok sch st' p)"

lemma keeps_program_kept:
  assumes "keeps_program sch st st' p" "model_targets st' = model_targets st"
  shows "program_kept sch st st' p"
  using assms keeps_target_ok [OF assms] keeps_queued_ok [OF assms(1)]
  by (simp add: program_kept_def) (simp add: keeps_program_def)

lemma admit_frame:
  assumes "last_target_of st p = Some t \<or> pool_target st (model_pool p) t"
  shows "frame sch p st (snd (commit_admission sch st p t now)) \<and> program_kept sch st (snd (commit_admission sch st p t now)) p"
proof (cases rule: commit_cases [of sch st p t now])
  case fails
  then show ?thesis by (simp add: frame_def program_kept_def keeps_program_def)
next
  case (success q d rt)
  let ?st = "snd (commit_admission sch st p t now)"
  obtain q' where q': "programs rt = (programs (runtime st))(key_of_ref p \<mapsto> q')" "reference q' = p" "placement q' = Some t"
    "request_pool rt = request_pool (runtime st)"
    by (rule activate_runtime [OF success(4)])
  have rt: "programs (runtime ?st) = (programs (runtime st))(key_of_ref p \<mapsto> q')"
    "program_len (request_pool (runtime ?st)) r = program_len (request_pool (runtime st)) r" for r
    using q' by (simp_all add: success(6) notify_program_def)
  have "keeps_program sch st ?st r" if "r \<noteq> p" for r
    using live_upd [OF rt(1) q'(2) _ that] success(1,2) that rt(2) success(7-9) in_queue_remove [OF that]
    by (simp add: keeps_program_def in_queue_def)
  then have "frame sch p st ?st" using success(8,10-12) by (simp add: frame_def)
  moreover have "program_kept sch st ?st p"
  proof -
    have pl: "runtime_placement (runtime ?st) p = Some t" "live (runtime ?st) p"
      using rt(1) q'(2,3) by (simp_all add: runtime_placement_def live_def)
    have lt: "last_target_of ?st p = Some t" using success(7) by (simp add: last_target_of_def activated_decision_def)
    have "target_ok st p \<Longrightarrow> pool_target st (model_pool p) t" using assms by (auto simp: target_ok_def)
    then show ?thesis using pl lt success(7,10)
      by (simp add: program_kept_def target_ok_def queued_ok_def waiting_paused_def pool_target_def)
  qed
  ultimately show ?thesis ..
qed

lemma last_target_paused [simp]: "last_target (paused_decision reason now d) = last_target d"
  by (simp add: paused_decision_def restart_shared_prefix_freshness_def Let_def split: option.split)

lemma pause_frame:
  assumes "no_requests st p"
  shows "frame sch p st (snd (sched_pause_idle sch st p reason now)) \<and> program_kept sch st (snd (sched_pause_idle sch st p reason now)) p"
proof (cases rule: pause_cases [of sch st p reason now])
  case fails
  then show ?thesis by (simp add: frame_def program_kept_def keeps_program_def)
next
  case (success q d rt)
  let ?st = "snd (sched_pause_idle sch st p reason now)"
  have rt: "programs (runtime ?st) = (programs (runtime st))(key_of_ref p \<mapsto> q\<lparr>rp_state := Paused, placement := None\<rparr>)"
    "request_pool (runtime ?st) = request_pool (runtime st)"
    using success(5-7) by simp_all
  have "keeps_program sch st ?st r" if "r \<noteq> p" for r
    using live_upd [OF rt(1) _ _ that] success(1,2) that rt(2) success(8-10)
    by (simp add: keeps_program_def in_queue_def)
  then have "frame sch p st ?st" using success(9,11-13) by (simp add: frame_def)
  moreover have "program_kept sch st ?st p"
    using rt success(1-3,8,11) assms
    by (simp add: program_kept_def target_ok_def queued_ok_def waiting_paused_def pool_target_def last_target_of_def
        live_def runtime_placement_def)
  ultimately show ?thesis ..
qed

lemma unqueue_frame:
  assumes "no_requests st p"
  shows "frame sch p st (unqueue p st) \<and> program_kept sch st (unqueue p st) p"
  using assms in_queue_remove [of _ p]
  by (simp add: frame_def keeps_program_def program_kept_def unqueue_def in_queue_def target_ok_def queued_ok_def
      waiting_paused_def pool_target_def last_target_of_def)

lemma release_frame:
  assumes "no_requests st p"
  shows "frame sch p st (release_program sch st p now) \<and> program_kept sch st (release_program sch st p now) p"
proof (cases rule: release_cases [of sch st p now])
  case fails
  then show ?thesis using unqueue_frame [OF assms] by simp
next
  case success
  let ?st = "release_program sch st p now"
  have rt: "programs (runtime ?st) = (programs (runtime st))(key_of_ref p := None)"
    "request_pool (runtime ?st) = request_pool (runtime st)"
    using success(2-4) by simp_all
  have "keeps_program sch st ?st r" if "r \<noteq> p" for r
    using success(1) that rt success(5-7) in_queue_remove [OF that]
    by (auto simp: keeps_program_def in_queue_def live_def runtime_placement_def split: option.splits)
  then have "frame sch p st ?st" using success(6,8-10) by (simp add: frame_def)
  moreover have "program_kept sch st ?st p"
    using rt success(5) by (simp add: program_kept_def live_def target_ok_def runtime_placement_def last_target_of_def
        queued_ok_def waiting_paused_def)
  ultimately show ?thesis ..
qed

lemma decide_frame:
  assumes "decide sch st st'"
  obtains p where "frame sch p st st'" "program_kept sch st st' p"
  using assms
proof (induction rule: decide.induct)
  case (Account st st')
  have "keeps_program sch st st' r" for r using Account(1) by (intro keeps_same) (simp_all add: same_core_def)
  then show ?case using Account(1,2) keeps_program_kept by (auto simp: frame_def same_core_def)
next
  case (Revise st p d d')
  let ?st = "st\<lparr>decisions := (decisions st)(p \<mapsto> d')\<rparr>"
  have "keeps_program sch st ?st r" if "r \<noteq> p" for r using that by (intro keeps_same) simp_all
  moreover have "program_kept sch st ?st p"
    using Revise(1,2) by (simp add: program_kept_def target_ok_def queued_ok_def waiting_paused_def pool_target_def
        last_target_of_def in_queue_def)
  ultimately show ?case using Revise(3) [of p] by (simp add: frame_def)
next
  case (Prune st now retention)
  let ?st = "st\<lparr>runtime := prune_released_generations (runtime st) now retention\<rparr>"
  have "keeps_program sch st ?st r" for r by (intro keeps_same) (simp_all add: prune_released_generations_def)
  then show ?case using Prune keeps_program_kept by (auto simp: frame_def)
next
  case (Notify st p)
  let ?st = "st\<lparr>runtime := notify_program (runtime st) p\<rparr>"
  have "keeps_program sch st ?st r" for r by (intro keeps_same) (simp_all add: notify_program_def)
  then show ?case using Notify keeps_program_kept by (auto simp: frame_def)
qed (use admit_frame pause_frame release_frame unqueue_frame in blast)+

lemma decide_sinv:
  assumes "decide sch st st'" "sinv st"
  shows "sinv st'"
proof -
  from assms(1) obtain p where F: "frame sch p st st'" "program_kept sch st st' p" by (rule decide_frame)
  show ?thesis
    by (rule frame_sinv [OF assms(2) F(1) decide_wf [OF assms(1) sinvD(1) [OF assms(2)]]])
      (use F(2) sinvD(2,3) [OF assms(2), of p] in \<open>simp_all add: program_kept_def\<close>)
qed

lemma decide_queued:
  assumes "decide sch st st'" "\<forall>r. queued_ok sch st r"
  shows "\<forall>r. queued_ok sch st' r"
proof -
  from assms(1) obtain p where F: "frame sch p st st'" "program_kept sch st st' p" by (rule decide_frame)
  show ?thesis by (rule frame_queued [OF assms(2) F(1)]) (use F(2) assms(2) in \<open>simp add: program_kept_def\<close>)
qed

text \<open>Sequences of decisions.\<close>

lemma decides_keep:
  assumes "decides sch st st'"
  shows "sinv st \<Longrightarrow> sinv st'" "\<forall>r. queued_ok sch st r \<Longrightarrow> \<forall>r. queued_ok sch st' r"
    "program_len (request_pool (runtime st')) r = program_len (request_pool (runtime st)) r"
    "model_targets st' = model_targets st" "rt_step\<^sup>*\<^sup>* (runtime st, outs) (runtime st', outs)"
    "model_target_snapshots st' = model_target_snapshots st"
proof -
  show "sinv st \<Longrightarrow> sinv st'" using assms by (induction rule: rtranclp_induct) (auto intro: decide_sinv)
  show "\<forall>r. queued_ok sch st r \<Longrightarrow> \<forall>r. queued_ok sch st' r"
    using assms by (induction rule: rtranclp_induct) (auto dest: decide_queued)
  show "program_len (request_pool (runtime st')) r = program_len (request_pool (runtime st)) r"
    using assms by (induction rule: rtranclp_induct) (simp_all add: decide_len)
  show "model_targets st' = model_targets st" using assms by (induction rule: rtranclp_induct) (auto dest: decide_targets)
  show "rt_step\<^sup>*\<^sup>* (runtime st, outs) (runtime st', outs)"
    using assms by (induction rule: rtranclp_induct) (auto intro: rtranclp_trans decide_rt)
  show "model_target_snapshots st' = model_target_snapshots st"
    using assms by (induction rule: rtranclp_induct) (auto dest: decide_snapshots)
qed

end
