(* ===== verification/Scheduler_Loops.thy ===== *)
theory Scheduler_Loops
  imports Scheduler_Steps
begin

text \<open>
  Every loop of the scheduler is a sequence of decisions of theory \<open>Scheduler_Steps\<close>: the scheduling
  loops, the expiry of acting and paused programs, the capacity repair and the decision
  sequences that completion, arrival and the periodic tick run.
\<close>

section \<open>Sequences\<close>

lemma fold_decides:
  assumes "\<And>x acc. x \<in> set xs \<Longrightarrow> decides sch st0 (snd acc) \<Longrightarrow> decides sch (snd acc) (snd (f x acc))"
    and "decides sch st0 (snd acc)"
  shows "decides sch st0 (snd (fold f xs acc))"
  using assms
proof (induction xs arbitrary: acc)
  case (Cons x xs)
  have "decides sch st0 (snd (f x acc))" using Cons.prems(1) [of x acc] Cons.prems(2) by (auto intro: rtranclp_trans)
  then show ?case using Cons by simp
qed simp

lemma fold_decides_state:
  assumes "\<And>x st. x \<in> set xs \<Longrightarrow> decides sch st0 st \<Longrightarrow> decides sch st (f x st)" and "decides sch st0 st"
  shows "decides sch st0 (fold f xs st)"
  using assms
proof (induction xs arbitrary: st)
  case (Cons x xs)
  have "decides sch st0 (f x st)" using Cons.prems(1) [of x st] Cons.prems(2) by (auto intro: rtranclp_trans)
  then show ?case using Cons by simp
qed simp

lemma account_decides: "same_core st st' \<Longrightarrow> decides sch st st'"
  by (rule r_into_rtranclp, rule decide.Account)

section \<open>Scheduling loops\<close>

lemma commit_decides:
  assumes "rank_admission_plan sch st p t now = Some plan" "last_target_of st p = Some t \<or> pool_target st (model_pool p) t"
  shows "decide sch st (snd (commit_admission sch st p t now))"
  by (rule decide.Admit [OF assms(2)])

lemma rank_loop_decides:
  assumes "\<not> global_queue (sch_config sch)"
  shows "decides sch st (snd (rank_loop sch t now st))"
  using assms
proof (induction sch t now st rule: rank_loop.induct)
  case (1 sch t now st)
  show ?case
  proof (cases "rank_candidate sch st t now")
    case (Some c)
    obtain p plan where c: "c = (p, plan)" by (cases c)
    have plan: "rank_admission_plan sch st p t now = Some plan" using rank_candidateD(2) Some c by simp
    then have "last_target_of st p = Some t" using "1.prems" by (rule_tac planD) (auto simp: last_target_of_def)
    then have "decide sch st (snd (commit_admission sch st p t now))" using commit_decides [OF plan] by simp
    moreover have "decides sch (snd (commit_admission sch st p t now)) (snd (rank_loop sch t now (snd (commit_admission sch st p t now))))"
      using "1.IH" [OF Some c [symmetric]] "1.prems" by (simp del: rank_loop.simps)
    ultimately show ?thesis using Some c by (simp add: converse_rtranclp_into_rtranclp)
  qed simp
qed

lemma global_local_loop_decides: "decides sch st (snd (global_local_loop sch pool now st))"
proof (induction sch pool now st rule: global_local_loop.induct)
  case (1 sch pool now st)
  show ?case
  proof (cases "global_local_candidate sch st pool now")
    case (Some c)
    obtain p t plan where c: "c = (p, t, plan)" by (cases c)
    note C = global_local_candidateD [OF Some [unfolded c]]
    have "decide sch st (snd (commit_admission sch st p t now))" using commit_decides [OF C(2)] C(3) by simp
    moreover have "decides sch (snd (commit_admission sch st p t now)) (snd (global_local_loop sch pool now (snd (commit_admission sch st p t now))))"
      using "1.IH" [OF Some c [symmetric] refl] by (simp del: global_local_loop.simps)
    ultimately show ?thesis using Some c by (simp add: converse_rtranclp_into_rtranclp)
  qed simp
qed

lemma cross_rank_loop_decides: "decides sch st (snd (cross_rank_loop sch pool now st))"
proof (induction sch pool now st rule: cross_rank_loop.induct)
  case (1 sch pool now st)
  show ?case
  proof (cases "cross_rank_candidate sch st pool now")
    case (Some c)
    obtain p t plan where c: "c = (p, t, plan)" by (cases c)
    note S = select_cross_rankD [OF cross_rank_candidateD(2) [OF Some [unfolded c]]]
    have "decide sch st (snd (commit_admission sch st p t now))"
      using commit_decides [OF S(1)] S(2) by (simp add: pool_target_def)
    moreover have "decides sch (snd (commit_admission sch st p t now)) (snd (cross_rank_loop sch pool now (snd (commit_admission sch st p t now))))"
      using "1.IH" [OF Some c [symmetric] refl] by (simp del: cross_rank_loop.simps)
    ultimately show ?thesis using Some c by (simp add: converse_rtranclp_into_rtranclp)
  qed simp
qed

lemma schedule_waiting_decides: "decides sch st (snd (schedule_waiting sch st now))"
proof (cases "global_queue (sch_config sch)")
  case True
  have "decides sch st (snd (schedule_global_waiting sch st now))"
    unfolding schedule_global_waiting_def
  proof (rule fold_decides)
    fix pool and acc :: "bool \<times> program_scheduler_state"
    obtain changed s where acc: "acc = (changed, s)" by (cases acc)
    let ?l = "global_local_loop sch pool now s"
    have "decides sch s (snd (cross_rank_loop sch pool now (snd ?l)))"
      by (rule rtranclp_trans [OF global_local_loop_decides cross_rank_loop_decides])
    then show "decides sch (snd acc) (snd ((\<lambda>(changed, st). let (c1, st1) = global_local_loop sch pool now st;
        (c2, st2) = cross_rank_loop sch pool now st1 in (changed \<or> c1 \<or> c2, st2)) acc))"
      by (simp add: acc Let_def split_beta del: global_local_loop.simps cross_rank_loop.simps)
  qed simp
  then show ?thesis using True by (simp add: schedule_waiting_def)
next
  case False
  have "decides sch st (snd (schedule_rank_local sch st now))"
    unfolding schedule_rank_local_def
  proof (rule fold_decides)
    fix t and acc :: "bool \<times> program_scheduler_state"
    show "decides sch (snd acc) (snd ((\<lambda>(changed, st). let (c, st') = rank_loop sch t now st in (changed \<or> c, st')) acc))"
      using rank_loop_decides [OF False, of "snd acc" t now] by (simp add: Let_def split_beta del: rank_loop.simps)
  qed simp
  then show ?thesis using False by (simp add: schedule_waiting_def)
qed

section \<open>Expiry, release and repair\<close>

lemma iter_viewsD:
  assumes "iteration_ok sch" "rt_wf rt" "v \<in> set (iter_views sch rt)"
  obtains p where "programs rt (key_of_ref (reference p)) = Some p" "v = view_ref rt p"
proof -
  have "set (hash_programs sch (programs rt)) = ran (programs rt)"
    using assms(1) rt_wfD(5) [OF assms(2)] by (simp add: iteration_ok_def)
  then obtain p where "p \<in> ran (programs rt)" "v = view_ref rt p" using assms(3) by (auto simp: iter_views_def)
  then obtain k where "programs rt k = Some p" by (auto simp: ran_def)
  then show ?thesis using that [of p] rt_wfD(1) [OF assms(2)] \<open>v = view_ref rt p\<close> by metis
qed

lemma acting_view:
  assumes "iteration_ok sch" "sinv st" "v \<in> set (iter_views sch (runtime st))" "vr_status v = Acting"
  shows "no_requests st (vr_reference v)"
proof -
  note wf = sinvD(1) [OF assms(2)]
  obtain p where p: "programs (runtime st) (key_of_ref (reference p)) = Some p" "v = view_ref (runtime st) p"
    by (rule iter_viewsD [OF assms(1) wf assms(3)])
  then show ?thesis using rt_wfD(3) [OF wf p(1)] assms(4) by (simp add: view_ref_def)
qed

lemma expire_acting_ttl_decides:
  assumes "no_requests (snd acc) p"
  shows "decides sch (snd acc) (snd (expire_acting_ttl sch now p acc))"
proof -
  obtain changed st where acc: "acc = (changed, st)" by (cases acc)
  obtain paused st1 where P: "sched_pause_idle sch st p Ttl_Expired now = (paused, st1)" by fastforce
  have "decide sch st st1" using decide.Pause [of st p sch Ttl_Expired now] assms acc P by simp
  moreover have "decides sch st1 (snd (expire_acting_ttl sch now p acc))"
  proof (cases "paused \<and> decisions st1 p \<noteq> None")
    case True
    then obtain d where d: "decisions st1 p = Some d" by blast
    let ?sr = "case decisions st p of Some d \<Rightarrow> segment_served_rounds d | None \<Rightarrow> 0"
    let ?st2 = "st1\<lparr>decisions := (decisions st1)(p \<mapsto> d\<lparr>ttl_pause_sampled_segment_rounds := ?sr, rounds_since_ttl_pause := 0\<rparr>)\<rparr>"
    have "decide sch st1 ?st2" by (rule decide.Revise [OF d]) simp
    moreover have "decide sch ?st2 (snd (expire_acting_ttl sch now p acc))"
      using True d by (intro decide.Account)
        (simp add: expire_acting_ttl_def acc P same_core_def Let_def split: option.split)
    ultimately show ?thesis by (rule converse_rtranclp_into_rtranclp [OF _ r_into_rtranclp])
  next
    case False
    then show ?thesis by (intro account_decides)
        (auto simp: expire_acting_ttl_def acc P same_core_def Let_def split: option.split)
  qed
  ultimately show ?thesis using acc by (simp add: converse_rtranclp_into_rtranclp)
qed

lemma expire_acting_ttls_decides:
  assumes "iteration_ok sch" "sinv st"
  shows "decides sch st (snd (expire_acting_ttls sch st now))"
  unfolding expire_acting_ttls_def
proof (rule fold_decides)
  fix p and acc :: "bool \<times> program_scheduler_state"
  assume p: "p \<in> set (map vr_reference (filter (acting_ttl_expired st now) (iter_views sch (runtime st))))"
    and D: "decides sch st (snd acc)"
  from p obtain v where "v \<in> set (iter_views sch (runtime st))" "p = vr_reference v" "vr_status v = Acting"
    by (auto simp: acting_ttl_expired_def)
  then have "no_requests st p" using acting_view [OF assms, of v] by simp
  then show "decides sch (snd acc) (snd (expire_acting_ttl sch now p acc))"
    using decides_keep(3) [OF D] by (intro expire_acting_ttl_decides) simp
qed simp

lemma release_expired_paused_decides: "decides sch st (snd (release_expired_paused sch st now))"
proof -
  let ?expired = "map vr_reference (filter (paused_expired sch st now) (iter_views sch (runtime st)))"
  have "decides sch st (fold (\<lambda>p st. release_program sch st p now) ?expired st)"
  proof (rule fold_decides_state)
    fix p st'
    assume p: "p \<in> set ?expired" and D: "decides sch st st'"
    have "no_requests st p" using p by (auto simp: paused_expired_def iter_views_def view_ref_def)
    then show "decides sch st' (release_program sch st' p now)"
      using decides_keep(3) [OF D] by (intro r_into_rtranclp decide.Release) simp
  qed simp
  then show ?thesis by (simp add: release_expired_paused_def Let_def)
qed

lemma relieve_decides:
  assumes "cv_status c = Acting \<Longrightarrow> no_requests st (cv_reference c)"
  shows "decides sch st (snd (relieve sch now c st))"
proof (cases "cv_status c = Acting")
  case True
  then show ?thesis using decide.Pause [OF assms [OF True]] by (simp add: relieve_def r_into_rtranclp)
next
  case False
  show ?thesis
  proof (cases "decisions st (cv_reference c)")
    case (Some d)
    then show ?thesis using False decide.Revise [OF Some, of "d\<lparr>pause_when_idle := True\<rparr>" sch]
      by (simp add: relieve_def r_into_rtranclp)
  qed (use False in \<open>simp add: relieve_def\<close>)
qed

lemma repair_victims_decides:
  assumes "\<forall>c\<in>set cs. cv_status c = Acting \<longrightarrow> no_requests st (cv_reference c)"
  shows "decides sch st (snd (snd (repair_victims sch now low completion cs projected changed st)))"
  using assms
proof (induction cs arbitrary: projected changed st)
  case (Cons c cs)
  obtain ok st1 where R: "relieve sch now c st = (ok, st1)" by fastforce
  have D: "decides sch st st1" using relieve_decides [of c st sch now] Cons.prems R by simp
  have "\<forall>c\<in>set cs. cv_status c = Acting \<longrightarrow> no_requests st1 (cv_reference c)"
    using Cons.prems by (simp add: decides_keep(3) [OF D])
  note IH = rtranclp_trans [OF D Cons.IH [OF this]]
  show ?case using IH by (simp add: R Let_def)
qed simp

lemma scan_victims:
  assumes "c \<in> set (victims (repair_scan_of sch st t now))"
  shows "\<exists>v\<in>set (iter_views sch (runtime st)). cv_reference c = vr_reference v \<and> cv_status c = vr_status v"
proof -
  have "set (victims (fold (scan_program sch st t now a) vs s)) \<subseteq> set (victims s) \<union>
      {c. \<exists>v\<in>set vs. cv_reference c = vr_reference v \<and> cv_status c = vr_status v}" for a vs s
  proof (induction vs arbitrary: s)
    case (Cons v vs)
    have "set (victims (scan_program sch st t now a v s)) \<subseteq> set (victims s) \<union>
        {c. cv_reference c = vr_reference v \<and> cv_status c = vr_status v}"
      by (auto simp: scan_program_def victim_of_def Let_def split: option.splits if_splits)
    then show ?case using Cons.IH [of "scan_program sch st t now a v s"] by auto
  qed simp
  then show ?thesis using assms unfolding repair_scan_of_def by fastforce
qed

lemma repair_capacity_decides:
  assumes "iteration_ok sch" "sinv st"
  shows "decides sch st (snd (repair_capacity sch st now))"
proof (cases "capacity_of sch")
  case (Some capacity)
  have "decides sch st (snd (fold (repair_target sch capacity now) (map fst (targets st)) (False, st)))"
  proof (rule fold_decides)
    fix t and acc :: "bool \<times> program_scheduler_state"
    assume D: "decides sch st (snd acc)"
    obtain changed s where acc: "acc = (changed, s)" by (cases acc)
    have s: "sinv s" using decides_keep(1) [OF D assms(2)] acc by simp
    let ?cs = "sort_by victim_cmp (victims (repair_scan_of sch s t now))"
    have "\<forall>c\<in>set ?cs. cv_status c = Acting \<longrightarrow> no_requests s (cv_reference c)"
      using acting_view [OF assms(1) s] by (auto dest!: scan_victims)
    from repair_victims_decides [OF this]
    show "decides sch (snd acc) (snd (repair_target sch capacity now t acc))"
      by (simp add: repair_target_def acc Let_def split_beta)
  qed simp
  then show ?thesis using Some by (simp add: repair_capacity_def)
qed (simp add: repair_capacity_def)

lemma yield_decides:
  assumes "rt_wf (runtime st)"
  shows "decides sch st (snd (yield_completed_segment sch st p now))"
proof -
  have "no_requests st p" if v: "view (runtime st) p = Some v" "v_status v = Acting" for v
    using v by (auto simp: view_def split: option.splits if_splits dest: rt_wfD(3) [OF assms])
  then show ?thesis
    by (auto simp: yield_completed_segment_def Let_def intro!: r_into_rtranclp decide.Pause split: option.splits)
qed

section \<open>Decision sequences\<close>

lemma run_request_arrival_decisions_decides:
  assumes "iteration_ok sch" "sinv st"
  shows "decides sch st (run_request_arrival_decisions sch st now)"
proof -
  let ?st1 = "snd (release_expired_paused sch st now)"
  let ?st2 = "snd (expire_acting_ttls sch ?st1 now)"
  have D1: "decides sch st ?st1" by (rule release_expired_paused_decides)
  note s1 = decides_keep(1) [OF D1 assms(2)]
  have D2: "decides sch ?st1 ?st2" by (rule expire_acting_ttls_decides [OF assms(1) s1])
  note s2 = decides_keep(1) [OF D2 s1]
  have D3: "decides sch ?st2 (snd (repair_capacity sch ?st2 now))" by (rule repair_capacity_decides [OF assms(1) s2])
  from D1 D2 D3 schedule_waiting_decides show ?thesis
    unfolding run_request_arrival_decisions_def Let_def by (meson rtranclp_trans)
qed

lemma run_periodic_decisions_decides:
  assumes "iteration_ok sch" "sinv st"
  shows "decides sch st (run_periodic_decisions sch st now)"
proof -
  let ?st0 = "st\<lparr>runtime := prune_released_generations (runtime st) now (max (paused_retention_ttl (sch_config sch)) (60 * 10 ^ 9))\<rparr>"
  let ?st1 = "snd (expire_acting_ttls sch ?st0 now)"
  let ?st2 = "snd (release_expired_paused sch ?st1 now)"
  have D0: "decides sch st ?st0" by (rule r_into_rtranclp, rule decide.Prune)
  note s0 = decides_keep(1) [OF D0 assms(2)]
  have D1: "decides sch ?st0 ?st1" by (rule expire_acting_ttls_decides [OF assms(1) s0])
  note s1 = decides_keep(1) [OF D1 s0]
  have D2: "decides sch ?st1 ?st2" by (rule release_expired_paused_decides)
  note s2 = decides_keep(1) [OF D2 s1]
  have D3: "decides sch ?st2 (snd (repair_capacity sch ?st2 now))" by (rule repair_capacity_decides [OF assms(1) s2])
  have "decides sch st ?st2" using D0 D1 D2 by (meson rtranclp_trans)
  then show ?thesis using D3 schedule_waiting_decides [of sch "snd (repair_capacity sch ?st2 now)" now]
    unfolding run_periodic_decisions_def Let_def by (auto intro: rtranclp_trans)
qed

lemma report_decides: "decides sch st (report_capacity_accounting_transitions sch st now)"
proof -
  have "same_core st (fold (\<lambda>t st. st\<lparr>observations := (observations st)(t \<mapsto>
         (observation_of st t)\<lparr>reported_capacity_source := Some (capacity_accounting_source sch (observations st t) now)\<rparr>)\<rparr>) ts st')"
    if "same_core st st'" for ts st'
    using that by (induction ts arbitrary: st') (simp_all add: same_core_def)
  then show ?thesis unfolding report_capacity_accounting_transitions_def by (intro account_decides) (simp add: same_core_def)
qed

lemma tick_decides: "iteration_ok sch \<Longrightarrow> sinv st \<Longrightarrow> decides sch st (tick sch st now)"
  unfolding tick_def by (rule rtranclp_trans [OF run_periodic_decisions_decides report_decides])

end
