(* ===== verification/Scheduler_Requests.thy ===== *)
theory Scheduler_Requests
  imports Scheduler_Loops
begin

text \<open>
  The entry points that carry a request through the scheduler, retention, dispatch, cancellation
  and completion, keep the invariant of theory \<open>Scheduler_Steps\<close> and change the runtime only by its own
  operations.
\<close>

section \<open>Operations that keep the targets\<close>

definition preserves :: "program_scheduler \<Rightarrow> program_scheduler_state \<times> program_dispatch list \<Rightarrow>
    program_scheduler_state \<times> program_dispatch list \<Rightarrow> bool" where
  "preserves sch s s' \<longleftrightarrow> (sinv (fst s) \<longrightarrow> sinv (fst s') \<and>
     ((\<forall>r. queued_ok sch (fst s) r) \<longrightarrow> (\<forall>r. queued_ok sch (fst s') r)) \<and>
     model_targets (fst s') = model_targets (fst s) \<and> model_target_snapshots (fst s') = model_target_snapshots (fst s) \<and>
     rt_step\<^sup>*\<^sup>* (runtime (fst s), snd s) (runtime (fst s'), snd s'))"

lemma preservesD:
  assumes "preserves sch (st, outs) (st', outs')" "sinv st"
  shows "sinv st'" "\<forall>r. queued_ok sch st r \<Longrightarrow> \<forall>r. queued_ok sch st' r" "model_targets st' = model_targets st"
    "model_target_snapshots st' = model_target_snapshots st" "rt_step\<^sup>*\<^sup>* (runtime st, outs) (runtime st', outs')"
  using assms unfolding preserves_def by auto

lemma preserves_refl: "preserves sch s s"
  by (simp add: preserves_def)

lemma preserves_trans:
  assumes "preserves sch a b" "sinv (fst a) \<Longrightarrow> sinv (fst b) \<Longrightarrow> preserves sch b c"
  shows "preserves sch a c"
proof (cases "sinv (fst a)")
  case True
  then have "sinv (fst b)" using assms(1) by (simp add: preserves_def)
  with assms True show ?thesis unfolding preserves_def by (auto intro: rtranclp_trans)
qed (simp add: preserves_def)

lemma decides_preserves: "decides sch st st' \<Longrightarrow> preserves sch (st, outs) (st', outs)"
  using decides_keep [of sch st st'] by (simp add: preserves_def)

lemma frame_preserves:
  assumes "frame sch p st st'" "rt_step\<^sup>*\<^sup>* (runtime st, outs) (runtime st', outs')"
    "sinv st \<Longrightarrow> (decisions st' p \<noteq> None \<longleftrightarrow> live (runtime st') p)" "sinv st \<Longrightarrow> target_ok st' p"
    "sinv st \<Longrightarrow> queued_ok sch st p \<Longrightarrow> queued_ok sch st' p" "model_target_snapshots st' = model_target_snapshots st"
  shows "preserves sch (st, outs) (st', outs')"
proof -
  have "sinv st'" if "sinv st"
    using frame_sinv [OF that assms(1)] rt_steps_wf [OF assms(2)] sinvD(1) [OF that] assms(3,4) that by simp
  moreover have "\<forall>r. queued_ok sch st' r" if "sinv st" "\<forall>r. queued_ok sch st r"
    using frame_queued [OF that(2) assms(1)] assms(5) that by blast
  ultimately show ?thesis using assms(1,2,6) by (simp add: preserves_def frame_def)
qed

lemma modify_decision_decides:
  assumes "\<And>d. last_target (f d) = last_target d"
  shows "decides sch st (modify_decision p f st)"
  using decide.Revise [of st p _ _ sch] assms
  by (cases "decisions st p") (auto simp: modify_decision_def)

lemma adjust_usage_decides: "decides sch st (adjust_usage st t x)"
  by (rule account_decides) (simp add: same_core_def adjust_usage_def)

lemma view_iff_live: "view rt p \<noteq> None \<longleftrightarrow> live rt p"
  by (auto simp: view_def live_def split: option.splits)

lemma view_SomeD:
  assumes "view rt p = Some v"
  obtains q where "programs rt (key_of_ref p) = Some q" "reference q = p" "v_state v = rp_state q" "v_status v = rp_status q"
    "v_placement v = placement q" "v_in_flight_requests v = in_flight_requests q" "v_waiting_requests v = program_len (request_pool rt) p"
  using assms by (auto simp: view_def split: option.splits if_splits)

section \<open>Completion\<close>

lemma complete_request_cases:
  assumes "complete_request rt dp usage = (True, rt')"
  obtains q q' where "programs rt (key_of_ref (d_program dp)) = Some q" "reference q = d_program dp"
    "programs rt' = (programs rt)(key_of_ref (d_program dp) \<mapsto> q')" "reference q' = d_program dp" "placement q' = placement q"
    "request_pool rt' = request_pool rt"
  using assms by (auto simp: complete_request_def Let_def split: option.splits if_splits)

lemma keeps_upd:
  assumes "programs rt' = (programs (runtime st))(key_of_ref p \<mapsto> q')" "programs (runtime st) (key_of_ref p) = Some q"
    "reference q = p" "reference q' = p" "placement q' = placement q" "request_pool rt' = request_pool (runtime st)"
  shows "keeps_program sch st (st\<lparr>runtime := rt'\<rparr>) r"
  using assms by (auto simp: keeps_program_def live_def runtime_placement_def in_queue_def split: option.splits)

lemma complete_request_preserves:
  assumes "complete_request (runtime st) dp usage = (True, rt)" "dp \<in> set outs"
  shows "preserves sch (st, outs) (st\<lparr>runtime := rt\<rparr>, remove1 dp outs)"
proof -
  obtain q q' where q: "programs (runtime st) (key_of_ref (d_program dp)) = Some q" "reference q = d_program dp"
    "programs rt = (programs (runtime st))(key_of_ref (d_program dp) \<mapsto> q')" "reference q' = d_program dp"
    "placement q' = placement q" "request_pool rt = request_pool (runtime st)"
    by (rule complete_request_cases [OF assms(1)])
  let ?st = "st\<lparr>runtime := rt\<rparr>"
  have K: "keeps_program sch st ?st r" for r by (rule keeps_upd [OF q(3,1,2,4,5,6)])
  have "rt_step (runtime st, outs) (rt, remove1 dp outs)" using rt_step.Complete [OF assms(2), of "runtime st" usage] assms(1) by simp
  moreover have "program_kept sch st ?st r" for r by (rule keeps_program_kept [OF K]) simp
  ultimately show ?thesis
    by (intro frame_preserves [of sch "d_program dp"])
      (use K sinvD(2,3) in \<open>auto simp: frame_def program_kept_def\<close>)
qed

lemma last_target_complete [simp]:
  "last_target (snd (complete_decision dp success usage decode_seconds now cf action d)) = last_target d"
  by (simp add: complete_decision_def Let_def success_decision_def segment_decision_def observed_decision_def
      observe_completed_context_def)

lemma record_completion_decides:
  "decides sch st (record_completion sch dp success usage decode_seconds now cf action before st)"
proof (cases "decisions st (d_program dp)")
  case None
  have "same_core st (record_completion sch dp success usage decode_seconds now cf action before st)"
    by (simp add: record_completion_def None Let_def same_core_def adjust_usage_def split: option.split)
  then show ?thesis by (rule account_decides)
next
  case (Some d)
  obtain sample d' where C: "complete_decision dp success usage decode_seconds now cf action d = (sample, d')" by fastforce
  let ?st = "st\<lparr>decisions := (decisions st)(d_program dp \<mapsto> d')\<rparr>"
  have "last_target d' = last_target d" using last_target_complete [of dp success usage decode_seconds now cf action d] C by simp
  then have "decide sch st ?st" by (rule decide.Revise [OF Some])
  moreover have "same_core ?st (record_completion sch dp success usage decode_seconds now cf action before st)"
    by (simp add: record_completion_def Some C Let_def same_core_def adjust_usage_def split: option.split)
  ultimately show ?thesis by (meson converse_rtranclp_into_rtranclp account_decides)
qed

definition completion_reaches :: "program_scheduler_state \<Rightarrow> program_dispatch \<Rightarrow> bool" where
  "completion_reaches st dp \<longleftrightarrow> runtime_placement (runtime st) (d_program dp) = Some (d_target_id dp) \<and> decisions st (d_program dp) \<noteq> None"

lemma complete_unreached: "\<not> completion_reaches st dp \<Longrightarrow> complete sch st dp success terminate usage decode_seconds now = st"
  by (auto simp: complete_def completion_reaches_def runtime_placement_def view_def Let_def split: option.splits)

text \<open>What completion does after the runtime has taken it.\<close>

lemma idle_no_requests: "idle_with (\<lambda>n. n = 0) (view rt p) \<Longrightarrow> program_len (request_pool rt) p = 0"
  by (auto simp: idle_with_def view_def split: option.splits if_splits)

lemma action_idle:
  assumes "(case decisions st p of Some d \<Rightarrow> completion_action_of success after d | None \<Rightarrow> None) = Some a"
  shows "idle_with (\<lambda>n. n = 0) after"
  using assms by (auto simp: completion_action_of_def split: option.splits if_splits)

lemma modify_runtime [simp]: "runtime (modify_decision p f st) = runtime st"
  by (simp add: modify_decision_def split: option.split)

lemma complete_decides:
  assumes "iteration_ok sch" "sinv st1" "after = view (runtime st1) p" "p = d_program dp"
    and st2: "st2 = (if idle_with (\<lambda>n. 0 < n) after then modify_decision p (\<lambda>d. d\<lparr>pause_when_idle := False\<rparr>) st1 else st1)"
    and st3: "st3 = modify_decision p (\<lambda>d. d\<lparr>terminate_when_idle := terminate_when_idle d \<or> terminate\<rparr>) st2"
    and action: "action = (case decisions st3 p of Some d \<Rightarrow> completion_action_of success after d | None \<Rightarrow> None)"
    and st4: "st4 = (case action of Some (Pause reason) \<Rightarrow> snd (sched_pause_idle sch st3 p reason now) | _ \<Rightarrow> st3)"
    and st5: "st5 = record_completion sch dp success usage decode_seconds now cf action before st4"
    and st6: "st6 = (if action = Some Terminate then release_program sch st5 p now else st5)"
    and st7: "st7 = (if binding_only (sch_config sch) then st6 else snd (yield_completed_segment sch st6 p now))"
  shows "decides sch st1 (run_periodic_decisions sch st7 now)"
proof -
  have D2: "decides sch st1 st2" unfolding st2 by (auto intro!: modify_decision_decides)
  have D3: "decides sch st2 st3" unfolding st3 by (auto intro!: modify_decision_decides)
  have D13: "decides sch st1 st3" by (rule rtranclp_trans [OF D2 D3])
  have idle: "no_requests st1 p" if "action = Some a" for a
    using action_idle [where st = st3 and p = p and success = success and after = after and a = a] that idle_no_requests assms(3) unfolding action by simp
  have D4: "decides sch st3 st4"
    unfolding st4 using idle decides_keep(3) [OF D13]
    by (auto split: option.splits completion_action.splits intro!: r_into_rtranclp decide.Pause)
  have D5: "decides sch st4 st5" unfolding st5 by (rule record_completion_decides)
  have D15: "decides sch st1 st5" using D13 D4 D5 by (meson rtranclp_trans)
  have D6: "decides sch st5 st6"
    unfolding st6 using idle decides_keep(3) [OF D15] by (auto intro!: r_into_rtranclp decide.Release)
  have D16: "decides sch st1 st6" by (rule rtranclp_trans [OF D15 D6])
  have D7: "decides sch st6 st7"
    unfolding st7 using yield_decides [OF sinvD(1) [OF decides_keep(1) [OF D16 assms(2)]]] by simp
  have D17: "decides sch st1 st7" by (rule rtranclp_trans [OF D16 D7])
  show ?thesis
    by (rule rtranclp_trans [OF D17 run_periodic_decisions_decides [OF assms(1) decides_keep(1) [OF D17 assms(2)]]])
qed

lemma complete_preserves:
  assumes "iteration_ok sch" "completion_reaches st dp" "dp \<in> set outs"
  shows "preserves sch (st, outs) (complete sch st dp success terminate usage decode_seconds now, remove1 dp outs)"
proof -
  obtain d where d: "decisions st (d_program dp) = Some d" using assms(2) by (auto simp: completion_reaches_def)
  obtain v where v: "view (runtime st) (d_program dp) = Some v" "v_placement v = Some (d_target_id dp)"
    using assms(2) by (auto simp: completion_reaches_def runtime_placement_def view_def split: option.splits if_splits)
  obtain ok rt where C: "complete_request (runtime st) dp usage = (ok, rt)" by fastforce
  show ?thesis
  proof (cases ok)
    case True
    have "preserves sch (st\<lparr>runtime := rt\<rparr>, remove1 dp outs)
        (complete sch st dp success terminate usage decode_seconds now, remove1 dp outs)" if "sinv (st\<lparr>runtime := rt\<rparr>)"
      by (rule decides_preserves)
        (simp only: complete_def d v C True Let_def option.case prod.case simp_thms if_False, rule complete_decides [OF assms(1) that _ _ refl refl refl refl refl refl refl], simp_all)
    then show ?thesis using preserves_trans [OF complete_request_preserves [OF _ assms(3)]] C True by simp
  next
    case False
    then have "rt = runtime st" using complete_rejected [of "runtime st" dp usage] C by simp
    then have "rt_step (runtime st, outs) (runtime st, remove1 dp outs)"
      using rt_step.Complete [OF assms(3), of "runtime st" usage] C by simp
    then show ?thesis using C False by (simp add: preserves_def complete_def d v Let_def r_into_rtranclp)
  qed
qed

section \<open>Dispatch\<close>

lemma admit_front_placed:
  assumes "rt_wf rt" "runtime_placement rt (h_program h) = Some t" "admit_front rt h t now = (r, rt')"
  obtains q q' where "programs rt (key_of_ref (h_program h)) = Some q" "reference q = h_program h"
    "programs rt' = (programs rt)(key_of_ref (h_program h) \<mapsto> q')" "reference q' = h_program h" "placement q' = Some t"
    "\<forall>p. p \<noteq> h_program h \<longrightarrow> program_len (request_pool rt') p = program_len (request_pool rt) p"
    "\<forall>d. r = Some d \<longrightarrow> d_program d = h_program h \<and> d_target_id d = t"
proof -
  obtain q where q: "programs rt (key_of_ref (h_program h)) = Some q" "reference q = h_program h" "placement q = Some t"
    using assms(2) by (auto simp: runtime_placement_def split: option.splits if_splits)
  have A: "admissible rt h t q" using q by (simp add: admissible_def)
  have act: "rp_state q = Active" using rt_wfD(2) [OF assms(1) q(1)] q(3) by simp
  have len: "program_len pool p = program_len (request_pool rt) p" if "take_front (request_pool rt) h = Some (x, pool)" "p \<noteq> h_program h" for x pool p
    using that by (auto simp: take_front_def split: option.splits list.splits if_splits)
  show ?thesis
    by (rule that [of q "the (programs rt' (key_of_ref (h_program h)))", OF q(1,2)])
      (use assms(3) act q len in \<open>auto simp: admit_front_eq [OF A] admit_program_def dispatch_of_def split: option.splits\<close>)
qed

lemma claim_dispatch_preserves:
  assumes "claim_dispatch st h now epoch = (r, st')"
  shows "preserves sch (st, outs) (st', case r of Some dp \<Rightarrow> dp # outs | None \<Rightarrow> outs)"
proof (cases "sinv st \<and> runtime_placement (runtime st) (h_program h) \<noteq> None")
  case False
  then show ?thesis using assms by (auto simp: preserves_def claim_dispatch_def)
next
  case True
  then obtain t where t: "runtime_placement (runtime st) (h_program h) = Some t" and I: "sinv st" by auto
  let ?p = "h_program h"
  obtain d rt where A: "admit_front (runtime st) h t now = (d, rt)" by fastforce
  obtain q q' where q: "programs (runtime st) (key_of_ref ?p) = Some q" "reference q = ?p"
    "programs rt = (programs (runtime st))(key_of_ref ?p \<mapsto> q')" "reference q' = ?p" "placement q' = Some t"
    "\<forall>p. p \<noteq> ?p \<longrightarrow> program_len (request_pool rt) p = program_len (request_pool (runtime st)) p"
    by (rule admit_front_placed [OF sinvD(1) [OF I] t A])
  have st': "runtime st' = rt" "decisions st' = decisions st" "model_targets st' = model_targets st" "rank_queues st' = rank_queues st"
    "global_queues st' = global_queues st" "sc_lineage st' = sc_lineage st" "model_target_snapshots st' = model_target_snapshots st"
    "policy_ok (binding_policy (sc_bindings st')) = policy_ok (binding_policy (sc_bindings st))" "r = d"
    using assms t A by (auto simp: claim_dispatch_def bindings_commit_def policy_commit_ok Let_def split: option.splits)
  have K: "keeps_program sch st st' p" if "p \<noteq> ?p" for p
    using live_upd [OF q(3,4) _ that] q(1,2,6) that by (simp add: keeps_program_def st' in_queue_def)
  have pl: "runtime_placement rt ?p = Some t" "live rt ?p" using q(3-5) by (simp_all add: runtime_placement_def live_def)
  have "rt_step (runtime st, outs) (runtime st', case r of Some dp \<Rightarrow> dp # outs | None \<Rightarrow> outs)"
    using rt_step.Admit [of "runtime st" h t now] rt_step.Admit_Fails [of "runtime st" h t now] A by (cases d) (simp_all add: st')
  then show ?thesis
  proof (intro frame_preserves [of sch ?p])
    show "frame sch ?p st st'" using K by (simp add: frame_def st')
    show "(decisions st' ?p \<noteq> None) = live (runtime st') ?p" using sinvD(2) [OF I, of ?p] q(1,2) pl(2) by (simp add: st' live_def)
    show "target_ok st' ?p" using sinvD(3) [OF I, of ?p] t pl by (simp add: target_ok_def st' last_target_of_def pool_target_def)
    show "queued_ok sch st' ?p" using pl by (simp add: queued_ok_def waiting_paused_def st')
  qed (simp_all add: st')
qed

section \<open>Cancellation\<close>

lemma cancel_request_cases:
  assumes "rt_wf rt" "cancel_request rt h = (True, rt')"
  obtains q q' where "programs rt (key_of_ref (h_program h)) = Some q" "reference q = h_program h"
    "programs rt' = (programs rt)(key_of_ref (h_program h) \<mapsto> q')" "reference q' = h_program h"
    "placement q' = placement q \<or> placement q' = None \<and> program_len (request_pool rt') (h_program h) = 0"
    "\<forall>p. p \<noteq> h_program h \<longrightarrow> program_len (request_pool rt') p = program_len (request_pool rt) p"
    "program_len (request_pool rt) (h_program h) \<noteq> 0"
proof -
  obtain w pool where C: "pool_cancel (request_pool rt) h = Some (w, pool)"
    using assms(2) by (auto simp: cancel_request_def split: option.splits)
  note len = pool_cancel_len [OF C]
  obtain q where q: "programs rt (key_of_ref (h_program h)) = Some q" "reference q = h_program h"
    using rt_wfD(4) [OF assms(1) len(3)] by blast
  have eq: "rt' = snd (cancel_request rt h)" using assms(2) by simp
  show ?thesis
  proof (cases "in_flight_requests q = 0 \<and> program_len pool (h_program h) = 0")
    case True
    let ?q = "if rp_state q = Active then q\<lparr>rp_status := Acting, rp_state := Paused, placement := None\<rparr> else q\<lparr>rp_status := Acting\<rparr>"
    show ?thesis
      by (rule that [of q ?q, OF q]) (use q len True in \<open>simp_all add: eq cancel_request_def C Let_def\<close>)
  next
    case False
    show ?thesis
      by (rule that [of q q, OF q]) (use q len False in \<open>auto simp: eq cancel_request_def C Let_def fun_upd_idem\<close>)
  qed
qed

lemma cancel_request_preserves:
  assumes "cancel_request (runtime st) h = (True, rt)"
  shows "preserves sch (st, outs) (st\<lparr>runtime := rt\<rparr>, outs)"
proof (cases "sinv st")
  case True
  let ?p = "h_program h" and ?st = "st\<lparr>runtime := rt\<rparr>"
  obtain q q' where q: "programs (runtime st) (key_of_ref ?p) = Some q" "reference q = ?p"
    "programs rt = (programs (runtime st))(key_of_ref ?p \<mapsto> q')" "reference q' = ?p"
    "placement q' = placement q \<or> placement q' = None \<and> program_len (request_pool rt) ?p = 0"
    "\<forall>p. p \<noteq> ?p \<longrightarrow> program_len (request_pool rt) p = program_len (request_pool (runtime st)) p"
    "program_len (request_pool (runtime st)) ?p \<noteq> 0"
    by (rule cancel_request_cases [OF sinvD(1) [OF True] assms])
  have K: "keeps_program sch st ?st p" if "p \<noteq> ?p" for p
    using live_upd [OF q(3,4) _ that] q(1,2,6) that by (simp add: keeps_program_def in_queue_def)
  have L: "live (runtime st) ?p" "live rt ?p" "runtime_placement (runtime st) ?p = placement q" "runtime_placement rt ?p = placement q'"
    using q(1-4) by (simp_all add: live_def runtime_placement_def)
  have "rt_step (runtime st, outs) (rt, outs)" using rt_step.Cancel [of "runtime st" outs h] assms by simp
  then show ?thesis
  proof (intro frame_preserves [of sch ?p])
    show "frame sch ?p st ?st" using K by (simp add: frame_def)
    show "(decisions ?st ?p \<noteq> None) = live (runtime ?st) ?p" using sinvD(2) [OF True, of ?p] L by simp
    show "target_ok ?st ?p" using sinvD(3) [OF True, of ?p] L q(5) by (auto simp: target_ok_def last_target_of_def pool_target_def)
    show "queued_ok sch ?st ?p" if "queued_ok sch st ?p"
      using that L q(5,7) by (auto simp: queued_ok_def waiting_paused_def last_target_of_def in_queue_def)
  qed simp_all
qed (simp add: preserves_def)

lemma cancel_retained_decides:
  assumes "sinv st1"
    and st2: "st2 = st1 \<or> (\<exists>t x now. st2 = modify_decision p (cancelled_decision now) (adjust_usage st1 t x))"
    and st3: "st3 = (if (case view (runtime st2) p of Some v \<Rightarrow> 0 < v_waiting_requests v | None \<Rightarrow> False) then st2 else unqueue p st2)"
    and st4: "st4 = (if idle_with (\<lambda>n. n = 0) (view (runtime st3) p) \<and> c then release_program sch st3 p now2 else st3)"
  shows "decides sch st1 (snd (schedule_waiting sch st4 now3))"
proof -
  have lt: "last_target (cancelled_decision now d) = last_target d" for now d
    by (simp add: cancelled_decision_def restart_shared_prefix_freshness_def Let_def split: option.split)
  have D2: "decides sch st1 st2"
    using st2 by (auto intro: rtranclp_trans [OF adjust_usage_decides modify_decision_decides] simp: lt)
  note s2 = decides_keep(1) [OF D2 assms(1)]
  have D3: "decides sch st2 st3"
  proof (cases "no_requests st2 p")
    case True
    then show ?thesis unfolding st3 by (auto intro: decide.Unqueue)
  next
    case False
    then have "live (runtime st2) p" using rt_wfD(4) [OF sinvD(1) [OF s2]] by (auto simp: live_def)
    then obtain v where "view (runtime st2) p = Some v" using view_iff_live by blast
    then show ?thesis using False by (auto simp: st3 elim: view_SomeD)
  qed
  have D4: "decides sch st3 st4" unfolding st4 by (auto intro: decide.Release dest: idle_no_requests)
  from D2 D3 D4 schedule_waiting_decides show ?thesis by (meson rtranclp_trans)
qed

lemma cancel_retained_preserves: "preserves sch (st, outs) (cancel_retained_request sch st h now1 now2 now3, outs)"
proof -
  obtain ok rt where C: "cancel_request (runtime st) h = (ok, rt)" by fastforce
  show ?thesis
  proof (cases ok)
    case True
    let ?st1 = "st\<lparr>runtime := rt\<rparr>"
    let ?st2 = "case (view (runtime st) (h_program h), view rt (h_program h), decisions st (h_program h), last_target_of ?st1 (h_program h)) of
        (Some b, Some a, Some d, Some t) \<Rightarrow>
          if v_state b = Active \<and> v_state a = Paused
          then modify_decision (h_program h) (cancelled_decision now1) (adjust_usage ?st1 t (- private_tokens d (decode_buffer sch)))
          else ?st1
      | _ \<Rightarrow> ?st1"
    have st2: "?st2 = ?st1 \<or> (\<exists>t x now. ?st2 = modify_decision (h_program h) (cancelled_decision now) (adjust_usage ?st1 t x))"
      by (auto split: option.splits)
    have "preserves sch (?st1, outs) (cancel_retained_request sch st h now1 now2 now3, outs)" if "sinv ?st1"
      by (rule decides_preserves)
        (simp only: cancel_retained_request_def C True Let_def prod.case simp_thms if_False,
          rule cancel_retained_decides [OF that st2 [unfolded prod.case] refl refl])
    then show ?thesis using preserves_trans [OF cancel_request_preserves] C True by simp
  next
    case False
    then show ?thesis by (simp add: cancel_retained_request_def C Let_def preserves_refl)
  qed
qed

section \<open>Retention\<close>

lemma candidates_ids:
  "map bc_target_id (binding_candidates sch st identity now) =
     (case model_targets st (id_model_pool identity) of None \<Rightarrow> [] | Some ids \<Rightarrow> ids)"
  by (cases "model_targets st (id_model_pool identity)") (simp_all add: binding_candidates_def Let_def comp_def)

lemma candidates_in_pool:
  assumes "t \<in> bc_target_id ` set (binding_candidates sch st identity now)"
  shows "pool_target st (id_model_pool identity) t"
proof -
  have "t \<in> set (map bc_target_id (binding_candidates sch st identity now))" using assms by simp
  then show ?thesis unfolding candidates_ids
    by (cases "model_targets st (id_model_pool identity)") (simp_all add: pool_target_def)
qed

lemma observe_lineage_forest: "forest m \<Longrightarrow> forest (observe_lineage m i)"
  using observe_correct [of m "id_model_pool i" "id_program_id i" "parent_program_id i" "root_program_id i"]
  by (auto simp: observe_lineage_def)

lemma last_target_copy [simp]: "last_target (copy_identity i n d) = last_target d"
  by (simp add: copy_identity_def)

lemma ensure_cases:
  assumes "ensure_decision_state sch st identity p tokens now routing = Inr st'"
  obtains (existing) d d' where "decisions st p = Some d" "decisions st' = (decisions st)(p \<mapsto> d')" "last_target d' = last_target d"
      "sc_bindings st' = sc_bindings st"
  | (fresh) home b now' d' where "decisions st p = None" "decisions st' = (decisions st)(p \<mapsto> d')" "last_target d' = home"
      "Program_Binding.bind (sc_bindings st) identity
         (binding_candidates sch (st\<lparr>sc_lineage := observe_lineage (sc_lineage st) identity\<rparr>) identity now') routing = Inr (home, b)"
      "sc_bindings st' = b"
proof (cases "decisions st p")
  case (Some d)
  show ?thesis by (rule existing [OF Some, of "the (decisions st' p)"])
      (use assms Some in \<open>auto simp: ensure_decision_state_def Let_def\<close>)
next
  case None
  then obtain home b where B: "Program_Binding.bind (sc_bindings st) identity
      (binding_candidates sch (st\<lparr>sc_lineage := observe_lineage (sc_lineage st) identity\<rparr>) identity now) routing = Inr (home, b)"
    using assms by (auto simp: ensure_decision_state_def Let_def split: sum.splits)
  show ?thesis
    by (rule fresh [OF None _ _ B, of "the (decisions st' p)"]) (use assms None B in \<open>auto simp: ensure_decision_state_def Let_def new_decision_def\<close>)
qed

lemma ensure_same:
  assumes "ensure_decision_state sch st identity p tokens now routing = Inr st'"
  shows "runtime st' = runtime st" "model_targets st' = model_targets st" "rank_queues st' = rank_queues st"
    "global_queues st' = global_queues st" "model_target_snapshots st' = model_target_snapshots st"
    "sc_lineage st' = observe_lineage (sc_lineage st) identity"
  using assms by (auto simp: ensure_decision_state_def Let_def split: option.splits sum.splits)

lemma record_continuity_same: "same_core st (record_continuity sch p now st)"
  by (simp add: record_continuity_def same_core_def split: option.split)

lemma acquired:
  assumes I: "sinv st" and R: "retain_request (runtime st) identity tokens routing arrived = (h, rt)"
    and E: "ensure_decision_state sch (record_continuity sch (h_program h) arrived (st\<lparr>runtime := rt\<rparr>)) identity (h_program h) tokens arrived routing = Inr st3"
  shows "frame sch (h_program h) st st3" "decisions st3 (h_program h) \<noteq> None" "live (runtime st3) (h_program h)"
    "target_ok st3 (h_program h)" "runtime st3 = rt" "model_target_snapshots st3 = model_target_snapshots st"
    "model_pool (h_program h) = id_model_pool identity"
proof -
  let ?p = "h_program h" and ?k = "key_of_identity identity"
  define st2 where "st2 = record_continuity sch ?p arrived (st\<lparr>runtime := rt\<rparr>)"
  have c: "runtime st2 = rt" "decisions st2 = decisions st" "model_targets st2 = model_targets st" "sc_bindings st2 = sc_bindings st"
    "sc_lineage st2 = sc_lineage st" "rank_queues st2 = rank_queues st" "global_queues st2 = global_queues st"
    "model_target_snapshots st2 = model_target_snapshots st"
    using record_continuity_same [of "st\<lparr>runtime := rt\<rparr>" sch ?p arrived] by (simp_all add: same_core_def st2_def)
  note E' = E [folded st2_def]
  note W = retain_request_wf [OF sinvD(1) [OF I] R]
  obtain q' where q': "programs rt = (programs (runtime st))(?k \<mapsto> q')" "reference q' = ?p"
    "case programs (runtime st) ?k of Some q \<Rightarrow> reference q' = reference q \<and> rp_state q' = rp_state q \<and> placement q' = placement q
     | None \<Rightarrow> rp_state q' = Paused \<and> placement q' = None"
    using W(3) by blast
  have k: "key_of_ref ?p = ?k" by (rule W(2))
  show pool: "model_pool ?p = id_model_pool identity" using k by (simp add: key_of_ref_def key_of_identity_def)
  show rt: "runtime st3 = rt" "model_target_snapshots st3 = model_target_snapshots st" using ensure_same [OF E'] c by simp_all
  have same: "\<And>q. programs (runtime st) (key_of_ref ?p) = Some q \<Longrightarrow> reference q = ?p" using q'(2,3) k by simp
  have lv: "live rt ?p" "runtime_placement rt ?p = placement q'" using q'(1,2) k by (simp_all add: live_def runtime_placement_def)
  then show "live (runtime st3) ?p" using rt by simp
  have pk: "policy_ok (binding_policy (sc_bindings st2))" using sinvD(4) [OF I] by (simp add: c)
  from E' have D: "\<exists>d'. decisions st3 = (decisions st)(?p \<mapsto> d') \<and> policy_ok (binding_policy (sc_bindings st3)) \<and>
      (\<forall>t. last_target d' = Some t \<longrightarrow> pool_target st (model_pool ?p) t) \<and> (\<forall>t. placement q' = Some t \<longrightarrow> last_target d' = Some t)"
  proof (cases rule: ensure_cases)
    case (existing d d')
    then have d: "decisions st ?p = Some d" by (simp add: c)
    then obtain q where q: "programs (runtime st) ?k = Some q" "reference q = ?p"
      using sinvD(2) [OF I, of ?p] k by (auto simp: live_def)
    have "target_ok st ?p" by (rule sinvD(3) [OF I])
    moreover have "last_target_of st ?p = last_target d'" using d existing(3) by (simp add: last_target_of_def)
    moreover have "runtime_placement (runtime st) ?p = placement q'" using q q'(3) k by (simp add: runtime_placement_def)
    ultimately have "(\<forall>t. last_target d' = Some t \<longrightarrow> pool_target st (model_pool ?p) t) \<and> (\<forall>t. placement q' = Some t \<longrightarrow> last_target d' = Some t)"
      by (simp add: target_ok_def)
    then show ?thesis using existing(2,4) sinvD(4) [OF I] unfolding c by metis
  next
    case (fresh home b now' d')
    then have "\<not> live (runtime st) ?p" using sinvD(2) [OF I, of ?p] by (simp add: c)
    then have "programs (runtime st) (key_of_ref ?p) = None" using same unfolding live_def by (meson not_None_eq)
    then have "placement q' = None" using q'(3) k by simp
    moreover have "pool_target st (model_pool ?p) t" if "home = Some t" for t
      using candidates_in_pool [OF bind_in(2) [OF pk fresh(4) that]] by (simp add: pool pool_target_def c)
    moreover have "policy_ok (binding_policy b)" by (rule bind_in(1) [OF pk fresh(4)])
    ultimately show ?thesis using fresh(2,3,5) unfolding c by (intro exI [of _ d']) simp
  qed
  then obtain d' where d': "decisions st3 = (decisions st)(?p \<mapsto> d')" "policy_ok (binding_policy (sc_bindings st3))"
    "\<forall>t. last_target d' = Some t \<longrightarrow> pool_target st (model_pool ?p) t" "\<forall>t. placement q' = Some t \<longrightarrow> last_target d' = Some t" by blast
  show "decisions st3 ?p \<noteq> None" by (simp add: d')
  show "target_ok st3 ?p" using d' lv rt ensure_same(2) [OF E'] c by (simp add: target_ok_def last_target_of_def pool_target_def)
  have "keeps_program sch st st3 r" if "r \<noteq> ?p" for r
    using live_upd [OF _ q'(2) same that, of rt] q'(1) k W(4) [of r] that ensure_same(3,4) [OF E'] c
    by (simp add: keeps_program_def in_queue_def rt d'(1))
  then show "frame sch ?p st st3"
    using d'(2) ensure_same [OF E'] c observe_lineage_forest [OF sinvD(5) [OF I]] by (simp add: frame_def)
qed

text \<open>The program of an accepted request is queued when it is not placed.\<close>

lemma set_force_decides: "decides sch st (set_force_resume_deadline sch st t p now)"
  using decide.Revise [of st p _ _ sch]
  by (cases "decisions st p") (auto simp: set_force_resume_deadline_def Let_def)

lemma push_queued_in: "r \<in> set (queue_at (push_queued p t qs) u) \<longleftrightarrow> r \<in> set (queue_at qs u) \<or> r = p \<and> u = t"
  by (auto simp: push_queued_def queue_at_def split: option.splits)

lemma dom_push_queued [simp]: "dom (push_queued p t qs) = insert t (dom qs)"
  by (auto simp: push_queued_def)

lemma enqueue_frame:
  assumes "pool = model_pool p"
  shows "\<exists>st1. frame sch p st st1 \<and> decides sch st1 (enqueue sch p pool t now st) \<and> in_queue sch st1 p t \<and>
    runtime st1 = runtime st \<and> decisions st1 = decisions st \<and> model_targets st1 = model_targets st \<and>
    model_target_snapshots st1 = model_target_snapshots st"
proof (intro exI conjI)
  let ?st1 = "if global_queue (sch_config sch) then st\<lparr>global_queues := push_queued p pool (global_queues st)\<rparr>
                 else st\<lparr>rank_queues := push_queued p t (rank_queues st)\<rparr>"
  show "frame sch p st ?st1" by (auto simp: frame_def keeps_program_def in_queue_def push_queued_in)
  show "in_queue sch ?st1 p t" using assms by (auto simp: in_queue_def push_queued_in)
  show "decides sch ?st1 (enqueue sch p pool t now st)"
    unfolding enqueue_def Let_def by (rule rtranclp_trans [OF modify_decision_decides set_force_decides]) simp
qed simp_all

lemma activate_binding_only_decides: "decides sch st (activate_binding_only sch st p now)"
  by (auto simp: activate_binding_only_def intro: decide.Notify decide.Admit split: option.split)

lemma acquire_decides:
  assumes "iteration_ok sch" "sinv st"
  shows "decides sch st (if binding_only (sch_config sch) then activate_binding_only sch st p now
    else run_request_arrival_decisions sch st arrived)"
  using activate_binding_only_decides run_request_arrival_decisions_decides [OF assms] by simp

lemma acquire_preserves:
  assumes ok: "iteration_ok sch" and A: "acquire_synced sch st identity tokens ts routing arrived now = Inr (r, st')"
  shows "preserves sch (st, outs) (st', outs)"
proof (cases "sinv st \<and> ts \<noteq> []")
  case False
  then show ?thesis using A by (auto simp: preserves_def acquire_synced_def)
next
  case True
  then have I: "sinv st" and ts: "ts \<noteq> []" by auto
  obtain h rt where R: "retain_request (runtime st) identity tokens routing arrived = (h, rt)" by fastforce
  let ?p = "h_program h"
  let ?st2 = "record_continuity sch ?p arrived (st\<lparr>runtime := rt\<rparr>)"
  obtain st3 where E: "ensure_decision_state sch ?st2 identity ?p tokens arrived routing = Inr st3"
    using A ts R by (auto simp: acquire_synced_def Let_def split: sum.splits)
  note Q = acquired [OF I R E]
  have S: "rt_step\<^sup>*\<^sup>* (runtime st, outs) (runtime st3, outs)"
    using rt_step.Retain [of "runtime st" outs identity tokens routing arrived] R Q(5) by auto
  have P3: "preserves sch (st, outs) (st3, outs)" if "queued_ok sch st3 ?p"
    by (rule frame_preserves [OF Q(1) S]) (use Q that in simp_all)
  show ?thesis
  proof (cases "runtime_placement (runtime st3) ?p")
    case (Some t)
    then have q: "queued_ok sch st3 ?p" by (simp add: queued_ok_def waiting_paused_def)
    have "preserves sch (st3, outs) (st', outs)" if s3: "sinv st3"
    proof -
      let ?before = "case decisions ?st2 ?p of Some d \<Rightarrow> private_tokens d (decode_buffer sch) | None \<Rightarrow> 0"
      let ?after = "private_tokens (decision_of st3 ?p) (decode_buffer sch)"
      define x where "x = (if \<not> pause_when_idle (decision_of st3 ?p) \<and> ?before < ?after
        then adjust_usage st3 t (?after - ?before) else st3)"
      have x: "decides sch st3 x" using adjust_usage_decides by (simp add: x_def)
      have st': "st' = (if binding_only (sch_config sch) then activate_binding_only sch x ?p now
          else run_request_arrival_decisions sch x arrived)"
        using A ts R E Some unfolding x_def by (auto simp: acquire_synced_def Let_def split del: if_split)
      show ?thesis unfolding st'
        by (rule decides_preserves, rule rtranclp_trans [OF x acquire_decides [OF ok decides_keep(1) [OF x s3]]])
    qed
    then show ?thesis using preserves_trans [OF P3 [OF q]] by simp
  next
    case None
    show ?thesis
    proof (cases "last_target_of st3 ?p")
      case None2: None
      then have "queued_ok sch st3 ?p" "st' = st3" using A ts R E None by (simp_all add: queued_ok_def acquire_synced_def Let_def)
      then show ?thesis using P3 by simp
    next
      case (Some t)
      let ?st4 = "enqueue sch ?p (id_model_pool identity) t arrived st3"
      obtain x where x: "frame sch ?p st3 x" "decides sch x ?st4" "in_queue sch x ?p t" "runtime x = runtime st3"
        "decisions x = decisions st3" "model_targets x = model_targets st3" "model_target_snapshots x = model_target_snapshots st3"
        using enqueue_frame [OF Q(7) [symmetric], of sch st3 t arrived] by blast
      have st': "st' = (if binding_only (sch_config sch) then activate_binding_only sch ?st4 ?p now
          else run_request_arrival_decisions sch ?st4 arrived)"
        using A ts R E None Some by (simp add: acquire_synced_def Let_def)
      have "frame sch ?p st x" using Q(1) x(1) unfolding frame_def keeps_program_def by simp
      then have "preserves sch (st, outs) (x, outs)"
        by (rule frame_preserves) (use Q S x Some in \<open>simp_all add: target_ok_def last_target_of_def pool_target_def queued_ok_def\<close>)
      moreover have "preserves sch (x, outs) (st', outs)" if "sinv x"
        unfolding st'
        by (rule decides_preserves, rule rtranclp_trans [OF x(2) acquire_decides [OF ok decides_keep(1) [OF x(2) that]]])
      ultimately show ?thesis using preserves_trans by fastforce
    qed
  qed
qed

end
