(* ===== verification/Scheduler_Sync.thy ===== *)
theory Scheduler_Sync
  imports Scheduler_Requests
begin

text \<open>
  The synchronisation of the targets of a model pool (\<^verbatim>\<open>sync_target_snapshot_locked\<close> of
  \<^verbatim>\<open>program_scheduling/scheduler.rs\<close>) moves every program of the pool off the targets that left it.
  While the affected programs are rebound one after another the invariant holds for all the
  others; at the end it holds again.
\<close>

section \<open>Installation\<close>

lemma fold_keep:
  assumes "\<And>x st. f (g x st) = f st"
  shows "f (fold g xs st) = f st"
  using assms by (induction xs arbitrary: st) auto

lemma add_target_same:
  "runtime (fold add_target ts st) = runtime st" "decisions (fold add_target ts st) = decisions st"
  "model_targets (fold add_target ts st) = model_targets st" "global_queues (fold add_target ts st) = global_queues st"
  "sc_bindings (fold add_target ts st) = sc_bindings st" "sc_lineage (fold add_target ts st) = sc_lineage st"
  "model_target_snapshots (fold add_target ts st) = model_target_snapshots st"
  by (rule fold_keep, simp add: add_target_def)+

lemma drop_target_same:
  "runtime (fold (drop_target pool) ts st) = runtime st" "decisions (fold (drop_target pool) ts st) = decisions st"
  "model_targets (fold (drop_target pool) ts st) = model_targets st"
  "global_queues (fold (drop_target pool) ts st) = global_queues st"
  "policy_ok (binding_policy (sc_bindings (fold (drop_target pool) ts st))) = policy_ok (binding_policy (sc_bindings st))"
  "sc_lineage (fold (drop_target pool) ts st) = sc_lineage st"
  "model_target_snapshots (fold (drop_target pool) ts st) = model_target_snapshots st"
  by (rule fold_keep, simp add: drop_target_def remove_affinity_target_def remove_bound_target_def policy_remove_ok)+

lemma add_target_queue: "queue_at (rank_queues (fold add_target ts st)) u = queue_at (rank_queues st) u"
  by (rule fold_keep) (simp add: add_target_def or_default_def queue_at_def)

lemma drop_target_queue:
  "rank_queues (fold (drop_target pool) ts st) u = (if u \<in> set ts then None else rank_queues st u)"
  by (induction ts arbitrary: st) (auto simp: drop_target_def)

lemma install_targets_same:
  "runtime (install_targets pool snapshot incoming removed st) = runtime st"
  "decisions (install_targets pool snapshot incoming removed st) = decisions st"
  "model_targets (install_targets pool snapshot incoming removed st) = (model_targets st)(pool \<mapsto> map fst incoming)"
  "model_target_snapshots (install_targets pool snapshot incoming removed st) = (model_target_snapshots st)(pool \<mapsto> snapshot)"
  "policy_ok (binding_policy (sc_bindings (install_targets pool snapshot incoming removed st))) =
     policy_ok (binding_policy (sc_bindings st))"
  "sc_lineage (install_targets pool snapshot incoming removed st) = sc_lineage st"
  "queue_at (global_queues (install_targets pool snapshot incoming removed st)) p = queue_at (global_queues st) p"
  "queue_at (rank_queues (install_targets pool snapshot incoming removed st)) t =
     (if t \<in> set removed then [] else queue_at (rank_queues st) t)"
  by (simp_all add: install_targets_def Let_def add_target_same drop_target_same)
    (simp_all add: queue_at_def or_default_def drop_target_queue add_target_queue [unfolded queue_at_def])

lemma install_targets_finite:
  assumes "finite (dom (rank_queues st))"
  shows "finite (dom (rank_queues (install_targets pool snapshot incoming removed st)))"
proof -
  have drop: "finite (dom (rank_queues (fold (drop_target pool) removed st')))" if "finite (dom (rank_queues st'))" for st'
    by (rule finite_subset [OF _ that]) (auto simp: drop_target_queue dom_def)
  have add: "dom (rank_queues (fold add_target ts st')) = dom (rank_queues st') \<union> set ts" for ts st'
    by (induction ts arbitrary: st') (auto simp: add_target_def or_default_def)
  show ?thesis unfolding install_targets_def Let_def by (rule drop) (simp add: add assms)
qed

text \<open>A snapshot is kept as the sorted list of its identifiers.\<close>

lemma bt_insert_keys: "fst ` set (bt_insert k v r) = insert k (fst ` set r)"
  by (induction k v r rule: bt_insert.induct) auto

lemma incoming_ids: "fst ` set (fold (\<lambda>t. bt_insert (t_id t) t) ts m) = t_id ` set ts \<union> fst ` set m"
  by (induction ts arbitrary: m) (auto simp: bt_insert_keys)

section \<open>Rebinding\<close>

text \<open>The invariant while programs are rebound: the pending ones may still be placed on a target
  that left the pool.\<close>

definition sync_inv :: "str \<Rightarrow> str list \<Rightarrow> program_ref set \<Rightarrow> program_scheduler_state \<Rightarrow> bool" where
  "sync_inv pool removed todo st \<longleftrightarrow> rt_wf (runtime st) \<and> (\<forall>r. decisions st r \<noteq> None \<longleftrightarrow> live (runtime st) r) \<and>
     policy_ok (binding_policy (sc_bindings st)) \<and> forest (sc_lineage st) \<and> finite (dom (rank_queues st)) \<and> (\<forall>r. r \<notin> todo \<longrightarrow> target_ok st r) \<and>
     (\<forall>r\<in>todo. model_pool r = pool \<and> (\<forall>t. runtime_placement (runtime st) r = Some t \<longrightarrow> t \<in> set removed))"

lemma invalidate_cases:
  assumes "invalidate_placement rt p removed = (b, rt')"
    and "\<And>t. runtime_placement rt p = Some t \<Longrightarrow> t \<in> set removed"
  shows "runtime_placement rt' p = None" "request_pool rt' = request_pool rt"
    "live rt' r = live rt r" "r \<noteq> p \<Longrightarrow> runtime_placement rt' r = runtime_placement rt r"
proof -
  have "runtime_placement rt' p = None \<and> request_pool rt' = request_pool rt \<and> live rt' r = live rt r \<and>
    (r \<noteq> p \<longrightarrow> runtime_placement rt' r = runtime_placement rt r)"
  proof (cases "runtime_placement rt p")
    case None
    then have "rt' = rt" using assms(1)
      by (auto simp: invalidate_placement_def runtime_placement_def split: option.splits if_splits)
    then show ?thesis using None by simp
  next
    case (Some t)
    then obtain q where q: "programs rt (key_of_ref p) = Some q" "reference q = p" "placement q = Some t"
      by (auto simp: runtime_placement_def split: option.splits if_splits)
    have t: "t \<in> set removed" by (rule assms(2) [OF Some])
    obtain q' where q': "programs rt' = (programs rt)(key_of_ref p \<mapsto> q')" "reference q' = p" "placement q' = None"
      "request_pool rt' = request_pool rt"
      using assms(1) q t by (auto simp: invalidate_placement_def Let_def)
    have "live rt' r = live rt r \<and> (r \<noteq> p \<longrightarrow> runtime_placement rt' r = runtime_placement rt r)"
    proof (cases "r = p")
      case True
      then show ?thesis using q q' by (simp add: live_def)
    next
      case False
      then show ?thesis using live_upd [OF q'(1,2) _ False] q by simp
    qed
    then show ?thesis using q' by (simp add: runtime_placement_def)
  qed
  then show "runtime_placement rt' p = None" "request_pool rt' = request_pool rt" "live rt' r = live rt r"
    "r \<noteq> p \<Longrightarrow> runtime_placement rt' r = runtime_placement rt r" by blast+
qed

lemma queue_append: "r \<in> set (queue_at (qs(t \<mapsto> queue_at qs t @ [p])) u) \<longleftrightarrow> r \<in> set (queue_at qs u) \<or> r = p \<and> u = t"
  by (auto simp: queue_at_def)

lemma last_target_rebound [simp]: "last_target (rebound_decision replacement b now d) = replacement"
  by (simp add: rebound_decision_def restart_shared_prefix_freshness_def Let_def split: option.split)


lemma unqueue_bindings [simp]: "sc_bindings (unqueue p st) = sc_bindings st"
  by (simp add: unqueue_def)

lemma rebind_cases:
  assumes "rebind_program sch pool removed clock pause_clock a st = Inr st'" "p = af_reference a"
  obtains inv rt replacement b identity now where "invalidate_placement (runtime st) p removed = (inv, rt)"
    "id_model_pool identity = model_pool p"
    "Program_Binding.bind (snd (release_program_binding (sc_bindings st) p)) identity
       (binding_candidates sch (unqueue p (st\<lparr>runtime := rt, sc_bindings := snd (release_program_binding (sc_bindings st) p)\<rparr>)) identity now) None
       = Inr (replacement, b)"
    "runtime st' = rt" "sc_bindings st' = b" "sc_lineage st' = sc_lineage st" "model_targets st' = model_targets st"
    "model_target_snapshots st' = model_target_snapshots st"
    "decisions st' = (case decisions st p of None \<Rightarrow> decisions st
       | Some d \<Rightarrow> (decisions st)(p \<mapsto> rebound_decision replacement (inv \<or> af_target_disappeared a) (pause_clock p) d))"
    "\<forall>r u. r \<noteq> p \<longrightarrow> r \<in> set (queue_at (rank_queues st) u) \<longrightarrow> r \<in> set (queue_at (rank_queues st') u)"
    "\<forall>r u. r \<noteq> p \<longrightarrow> r \<in> set (queue_at (global_queues st) u) \<longrightarrow> r \<in> set (queue_at (global_queues st') u)"
    "0 < af_waiting_requests a \<longrightarrow> global_queue (sch_config sch) \<longrightarrow> p \<in> set (queue_at (global_queues st') pool)"
    "\<forall>t. 0 < af_waiting_requests a \<longrightarrow> \<not> global_queue (sch_config sch) \<longrightarrow> replacement = Some t \<longrightarrow>
       p \<in> set (queue_at (rank_queues st') t)"
    "\<forall>u. replacement \<noteq> Some u \<longrightarrow> rank_queues st' u = remove_queued p (rank_queues st) u"
proof -
  obtain inv rt where I: "invalidate_placement (runtime st) p removed = (inv, rt)" by fastforce
  let ?i = "identity_for_rebinding p (af_placement_hash_key a) (af_placement_key a) (af_expected_resume a)"
  let ?b = "snd (release_program_binding (sc_bindings st) p)"
  let ?st1 = "unqueue p (st\<lparr>runtime := rt, sc_bindings := ?b\<rparr>)"
  have b1: "sc_bindings ?st1 = ?b" by simp
  obtain replacement b where B: "Program_Binding.bind ?b ?i (binding_candidates sch ?st1 ?i (clock p)) None = Inr (replacement, b)"
    using assms I by (auto simp: rebind_program_def Let_def split: sum.splits)
  define st2 where "st2 = modify_decision p (rebound_decision replacement (inv \<or> af_target_disappeared a) (pause_clock p)) (?st1\<lparr>sc_bindings := b\<rparr>)"
  have st': "st' = (if 0 < af_waiting_requests a
      then if global_queue (sch_config sch)
           then st2\<lparr>global_queues := (global_queues st2)(pool \<mapsto> queue_at (global_queues st2) pool @ [p])\<rparr>
           else (case replacement of Some t \<Rightarrow> st2\<lparr>rank_queues := (rank_queues st2)(t \<mapsto> queue_at (rank_queues st2) t @ [p])\<rparr> | None \<Rightarrow> st2)
      else st2)"
    using assms I B unfolding rebind_program_def Let_def assms(2) [symmetric] I prod.case b1 B sum.case st2_def [symmetric] by simp
  have s2: "runtime st2 = rt" "sc_bindings st2 = b" "sc_lineage st2 = sc_lineage st" "model_targets st2 = model_targets st"
    "model_target_snapshots st2 = model_target_snapshots st" "rank_queues st2 = remove_queued p (rank_queues st)"
    "global_queues st2 = remove_queued p (global_queues st)"
    "decisions st2 = (case decisions st p of None \<Rightarrow> decisions st
       | Some d \<Rightarrow> (decisions st)(p \<mapsto> rebound_decision replacement (inv \<or> af_target_disappeared a) (pause_clock p) d))"
    by (simp_all add: st2_def modify_decision_def unqueue_def split: option.split)
  show ?thesis
    by (rule that [OF I _ B])
      (auto simp: st' s2 queue_append in_queue_remove identity_for_rebinding_def split: option.splits)
qed

lemma rebind_step:
  assumes S: "sync_inv pool removed todo st" and p: "af_reference a \<in> todo"
    and R: "rebind_program sch pool removed clock pause_clock a st = Inr st'"
  shows "sync_inv pool removed (todo - {af_reference a}) st'" "model_targets st' = model_targets st"
    "model_target_snapshots st' = model_target_snapshots st" "rt_step\<^sup>*\<^sup>* (runtime st, outs) (runtime st', outs)"
    "r \<noteq> af_reference a \<Longrightarrow> keeps_program sch st st' r" "request_pool (runtime st') = request_pool (runtime st)"
    "0 < af_waiting_requests a \<or> no_requests st (af_reference a) \<Longrightarrow> queued_ok sch st' (af_reference a)"
    "runtime_placement (runtime st') (af_reference a) = None"
    "\<not> pool_target st pool u \<Longrightarrow> rank_queues st u = None \<Longrightarrow> rank_queues st' u = None"
proof -
  let ?p = "af_reference a"
  obtain inv rt replacement b identity now where I: "invalidate_placement (runtime st) ?p removed = (inv, rt)"
    and pool: "id_model_pool identity = model_pool ?p"
    and B: "Program_Binding.bind (snd (release_program_binding (sc_bindings st) ?p)) identity
       (binding_candidates sch (unqueue ?p (st\<lparr>runtime := rt, sc_bindings := snd (release_program_binding (sc_bindings st) ?p)\<rparr>)) identity now) None
       = Inr (replacement, b)"
    and st': "runtime st' = rt" "sc_bindings st' = b" "sc_lineage st' = sc_lineage st" "model_targets st' = model_targets st"
      "model_target_snapshots st' = model_target_snapshots st"
    and D: "decisions st' = (case decisions st ?p of None \<Rightarrow> decisions st
       | Some d \<Rightarrow> (decisions st)(?p \<mapsto> rebound_decision replacement (inv \<or> af_target_disappeared a) (pause_clock ?p) d))"
    and qs: "\<forall>r u. r \<noteq> ?p \<longrightarrow> r \<in> set (queue_at (rank_queues st) u) \<longrightarrow> r \<in> set (queue_at (rank_queues st') u)"
      "\<forall>r u. r \<noteq> ?p \<longrightarrow> r \<in> set (queue_at (global_queues st) u) \<longrightarrow> r \<in> set (queue_at (global_queues st') u)"
    and qp: "0 < af_waiting_requests a \<longrightarrow> global_queue (sch_config sch) \<longrightarrow> ?p \<in> set (queue_at (global_queues st') pool)"
      "\<forall>t. 0 < af_waiting_requests a \<longrightarrow> \<not> global_queue (sch_config sch) \<longrightarrow> replacement = Some t \<longrightarrow>
         ?p \<in> set (queue_at (rank_queues st') t)"
    and qn: "\<forall>u. replacement \<noteq> Some u \<longrightarrow> rank_queues st' u = remove_queued ?p (rank_queues st) u"
    by (rule rebind_cases [OF R refl])
  have mp: "model_pool ?p = pool" and rem: "\<And>t. runtime_placement (runtime st) ?p = Some t \<Longrightarrow> t \<in> set removed"
    using S p by (auto simp: sync_inv_def)
  note V = invalidate_cases [OF I rem]
  have pk: "policy_ok (binding_policy (snd (release_program_binding (sc_bindings st) ?p)))"
    using S by (simp add: sync_inv_def release_program_binding_def)
  have rep: "pool_target st pool t" if "replacement = Some t" for t
    using candidates_in_pool [OF bind_in(2) [OF pk B that]] pool mp by (simp add: pool_target_def unqueue_def)
  have Dr: "decisions st' r = decisions st r" if "r \<noteq> ?p" for r using that D by (simp split: option.splits)
  have Dp: "decisions st' ?p = map_option (rebound_decision replacement (inv \<or> af_target_disappeared a) (pause_clock ?p)) (decisions st ?p)"
    using D by (simp split: option.splits)
  have K: "keeps_program sch st st' r" if "r \<noteq> ?p" for r
    using V(2-4) Dr qs that by (simp add: keeps_program_def in_queue_def st')
  show "rank_queues st' u = None" if "\<not> pool_target st pool u" "rank_queues st u = None"
  proof -
    have "replacement \<noteq> Some u" using rep that(1) by blast
    then show ?thesis using qn that(2) by (simp add: remove_queued_def)
  qed
  show "runtime_placement (runtime st') ?p = None" using V(1) st'(1) by simp
  show "model_targets st' = model_targets st" "model_target_snapshots st' = model_target_snapshots st"
    "request_pool (runtime st') = request_pool (runtime st)" "r \<noteq> ?p \<Longrightarrow> keeps_program sch st st' r"
    using st' V(2) K by simp_all
  show "rt_step\<^sup>*\<^sup>* (runtime st, outs) (runtime st', outs)" using rt_step.Invalidate [of "runtime st" outs ?p removed] I st' by auto
  have lt: "last_target_of st' ?p = (if decisions st ?p = None then None else replacement)"
    by (simp add: last_target_of_def Dp split: option.split)
  show "queued_ok sch st' ?p" if "0 < af_waiting_requests a \<or> no_requests st ?p"
    using that qp mp V(2) by (auto simp: queued_ok_def waiting_paused_def lt in_queue_def st' split: if_splits)
  have tp: "target_ok st' ?p" using V(1) rep mp by (simp add: target_ok_def lt st' pool_target_def)
  show "sync_inv pool removed (todo - {?p}) st'"
    unfolding sync_inv_def
  proof (intro conjI allI ballI impI)
    show "rt_wf (runtime st')" using invalidate_wf [of "runtime st" ?p removed] S I st' by (simp add: sync_inv_def)
    show "decisions st' r \<noteq> None \<longleftrightarrow> live (runtime st') r" for r
      using S V(3) [of r] Dr [of r] Dp by (cases "r = ?p") (auto simp: sync_inv_def st')
    show "policy_ok (binding_policy (sc_bindings st'))" using bind_in(1) [OF pk B] st' by simp
    show "forest (sc_lineage st')" using S st' by (simp add: sync_inv_def)
    have "dom (rank_queues st') \<subseteq> dom (rank_queues st) \<union> set_option replacement"
      using qn by (force simp: remove_queued_def dom_def)
    moreover have "finite (dom (rank_queues st))" using S by (simp add: sync_inv_def)
    ultimately show "finite (dom (rank_queues st'))" by (simp add: finite_subset)
    show "target_ok st' r" if "r \<notin> todo - {?p}" for r
      using that S tp keeps_target_ok [OF K st'(4)] by (cases "r = ?p") (auto simp: sync_inv_def)
    show "model_pool r = pool" if "r \<in> todo - {?p}" for r using that S by (auto simp: sync_inv_def)
    show "t \<in> set removed" if "r \<in> todo - {?p}" "runtime_placement (runtime st') r = Some t" for r t
      using that S V(4) [of r] by (auto simp: sync_inv_def st')
  qed
qed

text \<open>A program that was rebound may be rebound again.\<close>

lemma sync_inv_insert:
  "sync_inv pool removed todo st \<Longrightarrow> model_pool p = pool \<Longrightarrow> runtime_placement (runtime st) p = None \<Longrightarrow>
     sync_inv pool removed (insert p todo) st"
  unfolding sync_inv_def by auto

lemma sync_inv_empty: "sync_inv pool removed {} st \<Longrightarrow> sinv st"
  unfolding sync_inv_def sinv_def by blast

lemma keeps_trans: "keeps_program sch a b r \<Longrightarrow> keeps_program sch b c r \<Longrightarrow> keeps_program sch a c r"
  by (simp add: keeps_program_def)

lemma rebind_all_ok:
  assumes "sync_inv pool removed (af_reference ` set as) st" "rebind_all sch pool removed clock pause_clock as st = Inr st'"
    "\<forall>a\<in>set as. af_waiting_requests a = program_len (request_pool (runtime st)) (af_reference a)"
  shows "sinv st'" "model_targets st' = model_targets st" "model_target_snapshots st' = model_target_snapshots st"
    "rt_step\<^sup>*\<^sup>* (runtime st, outs) (runtime st', outs)"
    "\<forall>r. r \<notin> af_reference ` set as \<longrightarrow> queued_ok sch st r \<Longrightarrow> \<forall>r. queued_ok sch st' r"
    "r \<notin> af_reference ` set as \<Longrightarrow> keeps_program sch st st' r"
    "\<not> pool_target st pool u \<Longrightarrow> rank_queues st u = None \<Longrightarrow> rank_queues st' u = None"
proof -
  have "sinv st' \<and> model_targets st' = model_targets st \<and> model_target_snapshots st' = model_target_snapshots st \<and>
    rt_step\<^sup>*\<^sup>* (runtime st, outs) (runtime st', outs) \<and>
    ((\<forall>r. r \<notin> af_reference ` set as \<longrightarrow> queued_ok sch st r) \<longrightarrow> (\<forall>r. queued_ok sch st' r)) \<and>
    (\<forall>r. r \<notin> af_reference ` set as \<longrightarrow> keeps_program sch st st' r) \<and>
    (\<forall>u. \<not> pool_target st pool u \<longrightarrow> rank_queues st u = None \<longrightarrow> rank_queues st' u = None)"
    using assms
  proof (induction "as" arbitrary: st)
    case Nil
    then show ?case using sync_inv_empty by (auto simp: keeps_program_def)
  next
    case (Cons a as)
    let ?p = "af_reference a" and ?T = "af_reference ` set as"
    obtain st1 where R: "rebind_program sch pool removed clock pause_clock a st = Inr st1"
      "rebind_all sch pool removed clock pause_clock as st1 = Inr st'"
      using Cons.prems(2) by (auto split: sum.splits)
    have p: "?p \<in> af_reference ` set (a # as)" by simp
    note B = rebind_step [OF Cons.prems(1) p R(1)]
    have mp: "model_pool ?p = pool" using Cons.prems(1) by (simp add: sync_inv_def)
    have "sync_inv pool removed ?T st1"
    proof (cases "?p \<in> ?T")
      case True
      then show ?thesis using sync_inv_insert [OF B(1) mp B(8)] by (simp add: insert_absorb)
    next
      case False
      then show ?thesis using B(1) by simp
    qed
    then have IH: "sinv st' \<and> model_targets st' = model_targets st1 \<and> model_target_snapshots st' = model_target_snapshots st1 \<and>
      rt_step\<^sup>*\<^sup>* (runtime st1, outs) (runtime st', outs) \<and> ((\<forall>r. r \<notin> ?T \<longrightarrow> queued_ok sch st1 r) \<longrightarrow> (\<forall>r. queued_ok sch st' r)) \<and>
      (\<forall>r. r \<notin> ?T \<longrightarrow> keeps_program sch st1 st' r) \<and>
      (\<forall>u. \<not> pool_target st1 pool u \<longrightarrow> rank_queues st1 u = None \<longrightarrow> rank_queues st' u = None)"
      using Cons.IH R(2) Cons.prems(3) B(6) by simp
    have "queued_ok sch st1 r" if Q: "\<forall>r. r \<notin> af_reference ` set (a # as) \<longrightarrow> queued_ok sch st r" and "r \<notin> ?T" for r
    proof (cases "r = ?p")
      case True
      then show ?thesis using B(7) Cons.prems(3) by auto
    next
      case False
      then show ?thesis using keeps_queued_ok [OF B(5) [OF False]] Q that(2) by simp
    qed
    moreover have "keeps_program sch st st' r" if "r \<notin> af_reference ` set (a # as)" for r
      using keeps_trans [OF B(5)] IH that by simp
    moreover have "rank_queues st' u = None" if "\<not> pool_target st pool u" "rank_queues st u = None" for u
      using B(9) [OF that] IH that(1) B(2) by (simp add: pool_target_def)
    ultimately show ?case using IH B(2,3) rtranclp_trans [OF B(4) [of outs]] by simp
  qed
  then show "sinv st'" "model_targets st' = model_targets st" "model_target_snapshots st' = model_target_snapshots st"
    "rt_step\<^sup>*\<^sup>* (runtime st, outs) (runtime st', outs)"
    "\<forall>r. r \<notin> af_reference ` set as \<longrightarrow> queued_ok sch st r \<Longrightarrow> \<forall>r. queued_ok sch st' r"
    "r \<notin> af_reference ` set as \<Longrightarrow> keeps_program sch st st' r"
    "\<not> pool_target st pool u \<Longrightarrow> rank_queues st u = None \<Longrightarrow> rank_queues st' u = None" by blast+
qed

section \<open>Synchronisation\<close>

text \<open>No target belongs to two model pools.\<close>

definition separate :: "program_scheduler_state \<Rightarrow> bool" where
  "separate st \<longleftrightarrow> (\<forall>pool pool' t. pool_target st pool t \<longrightarrow> pool_target st pool' t \<longrightarrow> pool = pool')"

text \<open>The targets of a pool are those of its last snapshot.\<close>

definition snapshots_ok :: "program_scheduler_state \<Rightarrow> bool" where
  "snapshots_ok st \<longleftrightarrow>
     (\<forall>pool. rel_option (\<lambda>ids snapshot. set ids = t_id ` set (snapshot_targets snapshot))
        (model_targets st pool) (model_target_snapshots st pool))"

lemma view_of_live:
  assumes "iteration_ok sch" "rt_wf rt" "live rt r"
  obtains v where "v \<in> set (iter_views sch rt)" "vr_reference v = r" "vr_waiting_requests v = program_len (request_pool rt) r"
proof -
  from assms(3) obtain p where p: "programs rt (key_of_ref r) = Some p" "reference p = r" by (auto simp: live_def)
  have "p \<in> set (hash_programs sch (programs rt))"
    using assms(1) rt_wfD(5) [OF assms(2)] ranI [of "programs rt" "key_of_ref r" p] p(1) by (simp add: iteration_ok_def)
  then have "view_ref rt p \<in> set (iter_views sch rt)" by (simp add: iter_views_def)
  then show ?thesis by (rule that) (simp_all add: view_ref_def p(2))
qed

lemma affected_ofD:
  assumes "affected_of st pool current removed v = Some a"
  shows "af_reference a = vr_reference v" "model_pool (vr_reference v) = pool" "af_waiting_requests a = vr_waiting_requests v"
    "\<forall>t. last_target_of st (vr_reference v) = Some t \<longrightarrow> t \<notin> set current"
  using assms by (auto simp: affected_of_def last_target_of_def split: if_splits option.splits)

lemma affected_complete:
  assumes "iteration_ok sch" "rt_wf (runtime st)" "live (runtime st) r" "decisions st r \<noteq> None" "model_pool r = pool"
    "last_target_of st r = Some t" "t \<notin> set current"
  shows "r \<in> af_reference ` set (List.map_filter (affected_of st pool current removed) (iter_views sch (runtime st)))"
proof -
  obtain v where v: "v \<in> set (iter_views sch (runtime st))" "vr_reference v = r" by (rule view_of_live [OF assms(1,2,3)])
  obtain a where a: "affected_of st pool current removed v = Some a"
    using assms(4-7) v(2) by (auto simp: affected_of_def last_target_of_def)
  have "a \<in> set (List.map_filter (affected_of st pool current removed) (iter_views sch (runtime st)))"
    using v(1) a by (force simp: List.map_filter_def)
  then show ?thesis using affected_ofD(1) [OF a] v(2) by force
qed

lemma install_sync_inv:
  assumes ok: "iteration_ok sch" and I: "sinv st" and ids: "current = map fst incoming"
    and removed: "removed = filter (\<lambda>t. t \<notin> set current) (case model_targets st pool of Some ids \<Rightarrow> ids | None \<Rightarrow> [])"
    and st1: "st1 = install_targets pool snapshot incoming removed st"
    and as: "as = List.map_filter (affected_of st1 pool current removed) (iter_views sch (runtime st1))"
  shows "sync_inv pool removed (af_reference ` set as) st1"
    "\<forall>a\<in>set as. af_waiting_requests a = program_len (request_pool (runtime st1)) (af_reference a)"
    "\<forall>r. queued_ok sch st r \<Longrightarrow> global_queue (sch_config sch) \<or> separate st \<Longrightarrow>
       \<forall>r. r \<notin> af_reference ` set as \<longrightarrow> queued_ok sch st1 r"
proof -
  note J = install_targets_same [of pool snapshot incoming removed st, folded st1 ids]
  have lt: "last_target_of st1 r = last_target_of st r" for r by (simp add: last_target_of_def J)
  have pt: "pool_target st1 q t \<longleftrightarrow> (if q = pool then t \<in> set current else pool_target st q t)" for q t
    by (simp add: pool_target_def J)
  have rem: "t \<in> set removed \<longleftrightarrow> pool_target st pool t \<and> t \<notin> set current" for t
    by (cases "model_targets st pool") (auto simp: removed pool_target_def)
  have complete: "r \<in> af_reference ` set as" if "model_pool r = pool" "last_target_of st r = Some t" "t \<notin> set current" for r t
  proof -
    have d: "decisions st r \<noteq> None" using that(2) by (auto simp: last_target_of_def split: option.splits)
    then have "live (runtime st) r" using sinvD(2) [OF I] by blast
    then show ?thesis unfolding as
      by (intro affected_complete [OF ok _ _ _ that(1) _ that(3)]) (use d that sinvD(1) [OF I] in \<open>simp_all add: J lt\<close>)
  qed
  have sound: "model_pool r = pool \<and> (\<forall>t. last_target_of st r = Some t \<longrightarrow> t \<notin> set current)" if r: "r \<in> af_reference ` set as" for r
  proof -
    obtain a where a: "a \<in> set as" "r = af_reference a" using r by blast
    then obtain v where "affected_of st1 pool current removed v = Some a" unfolding as by (auto dest: map_filter_in)
    from affected_ofD [OF this] show ?thesis using a(2) lt by simp
  qed
  show "\<forall>a\<in>set as. af_waiting_requests a = program_len (request_pool (runtime st1)) (af_reference a)"
  proof
    fix a
    assume "a \<in> set as"
    then obtain v where "v \<in> set (iter_views sch (runtime st1))" "affected_of st1 pool current removed v = Some a"
      unfolding as by (auto dest!: map_filter_in)
    then show "af_waiting_requests a = program_len (request_pool (runtime st1)) (af_reference a)"
      using affected_ofD(1,3) [of st1 pool current removed v a] by (auto simp: iter_views_def view_ref_def)
  qed
  show "sync_inv pool removed (af_reference ` set as) st1"
    unfolding sync_inv_def
  proof (intro conjI allI ballI impI)
    show "rt_wf (runtime st1)" "policy_ok (binding_policy (sc_bindings st1))" "forest (sc_lineage st1)"
      using sinvD(1,4,5) [OF I] by (simp_all add: J)
    show "finite (dom (rank_queues st1))" using install_targets_finite [OF sinvD(6) [OF I]] by (simp add: st1)
    show "decisions st1 r \<noteq> None \<longleftrightarrow> live (runtime st1) r" for r using sinvD(2) [OF I, of r] by (simp add: J)
    show "target_ok st1 r" if "r \<notin> af_reference ` set as" for r
    proof -
      have "pool_target st1 (model_pool r) t" if t: "last_target_of st r = Some t" for t
        using complete [of r t] t \<open>r \<notin> af_reference ` set as\<close> sinvD(3) [OF I, of r] by (auto simp: pt target_ok_def)
      then show ?thesis using sinvD(3) [OF I, of r] by (simp add: target_ok_def lt J(1))
    qed
    show "model_pool r = pool" if "r \<in> af_reference ` set as" for r using sound [OF that] by simp
    show "t \<in> set removed" if r: "r \<in> af_reference ` set as" and t: "runtime_placement (runtime st1) r = Some t" for r t
      using sound [OF r] t sinvD(3) [OF I, of r] by (auto simp: rem target_ok_def J(1))
  qed
  show "\<forall>r. r \<notin> af_reference ` set as \<longrightarrow> queued_ok sch st1 r"
    if Q: "\<forall>r. queued_ok sch st r" and sep: "global_queue (sch_config sch) \<or> separate st"
  proof (intro allI impI)
    fix r
    assume r: "r \<notin> af_reference ` set as"
    have "in_queue sch st1 r t" if t: "last_target_of st r = Some t" and q: "in_queue sch st r t" for t
    proof (cases "global_queue (sch_config sch)")
      case True
      then show ?thesis using q by (simp add: in_queue_def J)
    next
      case False
      have "t \<notin> set removed"
      proof
        assume "t \<in> set removed"
        then have "pool_target st pool t" "t \<notin> set current" by (simp_all add: rem)
        moreover have "pool_target st (model_pool r) t" using sinvD(3) [OF I, of r] t by (simp add: target_ok_def)
        ultimately have "model_pool r = pool" using sep False unfolding separate_def by blast
        with complete [OF this t \<open>t \<notin> set current\<close>] r show False by simp
      qed
      then show ?thesis using q False by (simp add: in_queue_def J)
    qed
    then show "queued_ok sch st1 r" using Q by (simp add: queued_ok_def waiting_paused_def lt J(1))
  qed
qed

lemma retain_referenced_same: "same_core st (retain_referenced sch st)"
  by (simp add: same_core_def retain_referenced_def Let_def)

definition incoming_of :: "target_snapshot \<Rightarrow> (str \<times> program_target) list" where
  "incoming_of snapshot = fold (\<lambda>t. bt_insert (t_id t) t) (snapshot_targets snapshot) []"

definition removed_of :: "str \<Rightarrow> target_snapshot \<Rightarrow> program_scheduler_state \<Rightarrow> str list" where
  "removed_of pool snapshot st =
     filter (\<lambda>t. t \<notin> set (map fst (incoming_of snapshot))) (case model_targets st pool of Some ids \<Rightarrow> ids | None \<Rightarrow> [])"

abbreviation installed :: "str \<Rightarrow> target_snapshot \<Rightarrow> program_scheduler_state \<Rightarrow> program_scheduler_state" where
  "installed pool snapshot st \<equiv> install_targets pool snapshot (incoming_of snapshot) (removed_of pool snapshot st) st"

abbreviation affected :: "program_scheduler \<Rightarrow> str \<Rightarrow> target_snapshot \<Rightarrow> program_scheduler_state \<Rightarrow> affected_program list" where
  "affected sch pool snapshot st \<equiv>
     List.map_filter (affected_of (installed pool snapshot st) pool (map fst (incoming_of snapshot)) (removed_of pool snapshot st))
       (iter_views sch (runtime (installed pool snapshot st)))"

lemma incoming_of_ids: "set (map fst (incoming_of snapshot)) = t_id ` set (snapshot_targets snapshot)"
  using incoming_ids [of "snapshot_targets snapshot" "[]"] by (simp add: incoming_of_def)

lemma sync_cases:
  assumes "sync_target_snapshot_locked sch pool snapshot clock pause_clock st = Inr st'"
  obtains (same) current where "model_target_snapshots st pool = Some current" "address current = address snapshot" "st' = st"
  | (content) "st' = st\<lparr>model_target_snapshots := (model_target_snapshots st)(pool \<mapsto> snapshot)\<rparr>"
      "model_targets st pool = Some (map fst (incoming_of snapshot))"
  | (changed) st2 where "rebind_all sch pool (removed_of pool snapshot st) clock pause_clock (affected sch pool snapshot st)
        (installed pool snapshot st) = Inr st2" "st' = retain_referenced sch st2"
proof (cases "\<exists>current. model_target_snapshots st pool = Some current \<and> address current = address snapshot")
  case True
  then obtain c where c: "model_target_snapshots st pool = Some c" "address c = address snapshot" by blast
  then have "st' = st" using assms by (simp add: sync_target_snapshot_locked_def)
  then show ?thesis by (rule same [OF c])
next
  case False
  then have A: "\<not> (case model_target_snapshots st pool of Some current \<Rightarrow> address current = address snapshot | None \<Rightarrow> False)"
    by (simp split: option.split)
  note S = assms [unfolded sync_target_snapshot_locked_def Let_def incoming_of_def [symmetric] removed_of_def [symmetric], unfolded if_not_P [OF A]]
  show ?thesis
  proof (cases "model_targets st pool = Some (map fst (incoming_of snapshot)) \<and>
      list_all (\<lambda>(i, t). map_of (targets st) i = Some t) (incoming_of snapshot)")
    case True
    then show ?thesis using S content by simp
  next
    case False
    note S' = S [unfolded if_not_P [OF False]]
    show ?thesis
    proof (cases "rebind_all sch pool (removed_of pool snapshot st) clock pause_clock (affected sch pool snapshot st) (installed pool snapshot st)")
      case (Inl e)
      then show ?thesis using S' by (simp split: if_splits)
    next
      case (Inr st2)
      then show ?thesis using S' changed [OF Inr] by (simp split: if_splits)
    qed
  qed
qed

lemma sync_ok:
  assumes ok: "iteration_ok sch" and I: "sinv st"
    and S: "sync_target_snapshot_locked sch pool snapshot clock pause_clock st = Inr st'"
  shows "sinv st'" "rt_step\<^sup>*\<^sup>* (runtime st, outs) (runtime st', outs)" "snapshots_ok st \<Longrightarrow> snapshots_ok st'"
    "\<forall>r. queued_ok sch st r \<Longrightarrow> global_queue (sch_config sch) \<or> separate st \<Longrightarrow> \<forall>r. queued_ok sch st' r"
proof -
  from S have "sinv st' \<and> rt_step\<^sup>*\<^sup>* (runtime st, outs) (runtime st', outs) \<and> (snapshots_ok st \<longrightarrow> snapshots_ok st') \<and>
    ((\<forall>r. queued_ok sch st r) \<and> (global_queue (sch_config sch) \<or> separate st) \<longrightarrow> (\<forall>r. queued_ok sch st' r))"
  proof (cases rule: sync_cases)
    case content
    have "keeps_program sch st st' r" for r by (rule keeps_same) (simp_all add: content)
    then have "\<forall>r. queued_ok sch st' r" if "\<forall>r. queued_ok sch st r" using that keeps_queued_ok by blast
    moreover have "sinv st'" using I by (simp add: content sinv_def target_ok_def last_target_of_def pool_target_def)
    moreover have "snapshots_ok st'" if "snapshots_ok st"
      using that content(2) incoming_of_ids [of snapshot] unfolding snapshots_ok_def content(1) by simp
    moreover have "runtime st' = runtime st" by (simp add: content)
    ultimately show ?thesis by simp
  next
    case (changed st2)
    note V = install_sync_inv [OF ok I refl removed_of_def refl refl]
    note A = rebind_all_ok [OF V(1) changed(1) V(2)]
    have D: "decides sch st2 st'" unfolding changed(2) by (rule account_decides [OF retain_referenced_same])
    note K = decides_keep [OF D]
    note J = install_targets_same [of pool snapshot "incoming_of snapshot" "removed_of pool snapshot st" st]
    have "snapshots_ok st'" if "snapshots_ok st"
      using that incoming_of_ids [of snapshot] by (simp add: snapshots_ok_def K(4,6) A(2,3) J)
    moreover have "rt_step\<^sup>*\<^sup>* (runtime st, outs) (runtime st', outs)"
      using rtranclp_trans [OF A(4) K(5)] J(1) by simp
    ultimately show ?thesis using K(1) [OF A(1)] K(2) A(5) V(3) by blast
  qed (use I in simp)
  then show "sinv st'" "rt_step\<^sup>*\<^sup>* (runtime st, outs) (runtime st', outs)" "snapshots_ok st \<Longrightarrow> snapshots_ok st'"
    "\<forall>r. queued_ok sch st r \<Longrightarrow> global_queue (sch_config sch) \<or> separate st \<Longrightarrow> \<forall>r. queued_ok sch st' r"
    by blast+
qed

end
