(* ===== verification/Scheduler_Sample.thy ===== *)
theory Scheduler_Sample
  imports Scheduler_Sync
begin

text \<open>
  A concrete scheduler and a short run of it: one pool with one target, and one request.  Hash
  maps are iterated in the order of their keys.
\<close>

definition sample_config :: "nat \<Rightarrow> program_scheduler_config" where
  "sample_config n = default_scheduler_config\<lparr>max_active_programs_per_target := n, binding_strategy := Program_Round_Robin\<rparr>"

definition sample_sched :: "nat \<Rightarrow> program_scheduler" where
  "sample_sched n = \<lparr>sch_config = sample_config n,
     hash_programs = (\<lambda>m. map (\<lambda>k. the (m k)) (sorted_list_of_set (dom m))),
     hash_keys = (\<lambda>m. sorted_list_of_set (dom m)), hash_models = (\<lambda>m. sorted_list_of_set (dom m))\<rparr>"

lemma sample_sched_fields [simp]:
  "sch_config (sample_sched n) = sample_config n"
  "hash_programs (sample_sched n) = (\<lambda>m. map (\<lambda>k. the (m k)) (sorted_list_of_set (dom m)))"
  "hash_keys (sample_sched n) = (\<lambda>m. sorted_list_of_set (dom m))" "hash_models (sample_sched n) = (\<lambda>m. sorted_list_of_set (dom m))"
  "binding_only (sample_config n) = False" "global_queue (sample_config n) = False" "resume_order (sample_config n) = Mru"
  "binding_strategy (sample_config n) = Program_Round_Robin" "max_active_programs_per_target (sample_config n) = n"
  "queue_timeout (sample_config n) = 600 * 10 ^ 9" "cfg_force_resume_timeout (sample_config n) = 300 * 10 ^ 9"
  "token_capacity (progress_ttl (sample_config n)) = None"
  by (simp_all add: sample_sched_def sample_config_def default_scheduler_config_def default_progress_ttl_def)

lemma sample_iteration: "iteration_ok (sample_sched n)"
proof -
  have "inj_on (\<lambda>k. the (m k)) (dom m)" if "inj_on m (dom m)" for m :: "runtime_key \<rightharpoonup> runtime_program"
    using that unfolding inj_on_def by (metis domIff option.collapse)
  moreover have "(\<lambda>k. the (m k)) ` dom m = ran m" for m :: "runtime_key \<rightharpoonup> runtime_program"
    by (force simp: ran_def)
  ultimately show ?thesis by (simp add: iteration_ok_def distinct_map image_def)
qed

definition sample_target :: program_target where
  "sample_target = \<lparr>t_id = ''t0'', base_url = ''u0'', t_dp_rank = None\<rparr>"

definition sample_snapshot :: target_snapshot where
  "sample_snapshot = \<lparr>address = 1, snapshot_targets = [sample_target]\<rparr>"

definition sample_synced :: "nat \<Rightarrow> program_scheduler_state" where
  "sample_synced n = (new_state (sample_config n))\<lparr>targets := [(''t0'', sample_target)], model_targets := [''m'' \<mapsto> [''t0'']],
     model_target_snapshots := [''m'' \<mapsto> sample_snapshot], target_snapshot_revision := 1,
     rank_queues := [''t0'' \<mapsto> []], global_queues := [''m'' \<mapsto> []], observations := [''t0'' \<mapsto> default_observation],
     rank_factors := [''t0'' \<mapsto> default_factors]\<rparr>"

lemma sample_sync:
  "sync_target_snapshot_locked (sample_sched n) ''m'' sample_snapshot (\<lambda>_. 0) (\<lambda>_. 0) (new_state (sample_config n)) = Inr (sample_synced n)"
  by (simp add: sync_target_snapshot_locked_def sample_snapshot_def sample_target_def new_state_def Let_def install_targets_def
      sample_sched_def iter_views_def empty_runtime_def List.map_filter_def retain_referenced_def add_target_def or_default_def
      sample_synced_def)

text \<open>The state after the request has been retained, and after its program has been queued.\<close>

abbreviation sample_ref :: program_ref where
  "sample_ref \<equiv> h_program sample_handle"

definition sample_new_decision :: program_decision_state where
  "sample_new_decision = copy_identity sample_identity 0 (new_decision [] [] (Some ''t0'') 100 5)"

definition sample_retained :: "nat \<Rightarrow> program_scheduler_state" where
  "sample_retained n = (sample_synced n)\<lparr>runtime := sample_waiting, sc_lineage := observe_lineage [] sample_identity,
     sc_bindings := \<lparr>binding_policy = Round_Robin_Binding [''m'' \<mapsto> 1], bindings = [(''m'', ''p'') \<mapsto> ''t0'']\<rparr>,
     decisions := [sample_ref \<mapsto> sample_new_decision]\<rparr>"

definition sample_queued_decision :: program_decision_state where
  "sample_queued_decision = sample_new_decision\<lparr>queued_at := Some 5, force_resume_deadline := Some (5 + 300 * 10 ^ 9),
     ds_force_resume_timeout := Some (300 * 10 ^ 9), force_resume_active_remaining_rounds := 0,
     force_resume_pool_remaining_rounds := 0, force_resume_request_throughput_per_second := 0\<rparr>"

definition sample_queued :: "nat \<Rightarrow> program_scheduler_state" where
  "sample_queued n = (sample_retained n)\<lparr>rank_queues := [''t0'' \<mapsto> [sample_ref]],
     decisions := [sample_ref \<mapsto> sample_queued_decision]\<rparr>"

lemma sample_retain: "retain_request empty_runtime sample_identity 100 None 5 = (sample_handle, sample_waiting)"
proof -
  have "fst (retain_request empty_runtime sample_identity 100 None 5) = sample_handle"
    by (simp add: retain_request_def empty_runtime_def sample_identity_def key_of_identity_def pool_retain_def empty_pool_def
        Let_def sample_handle_def)
  then show ?thesis by (simp add: sample_waiting_def prod_eq_iff)
qed

lemma sample_waiting_fields:
  "programs sample_waiting = [(''m'', ''p'') \<mapsto> \<lparr>reference = sample_ref, rp_state = Paused, rp_status = Reasoning, rp_expected_resume = True,
     placement = None, placement_epoch = 0, placement_start_request_pending = False, estimated_context_tokens = 100, in_flight_requests = 0\<rparr>]"
  "program_len (request_pool sample_waiting) sample_ref = 1" "next_placement_epoch sample_waiting = 0"
  "front_request_hints sample_waiting sample_ref = Some no_hints"
  by (simp_all add: sample_waiting_def retain_request_def empty_runtime_def sample_identity_def key_of_identity_def pool_retain_def
      empty_pool_def Let_def sample_handle_def program_len_def queue_of_def front_request_hints_def front_hints_def)

lemma sample_ensure:
  "ensure_decision_state (sample_sched n) ((sample_synced n)\<lparr>runtime := sample_waiting\<rparr>) sample_identity sample_ref 100 5 None = Inr (sample_retained n)"
  by (simp add: ensure_decision_state_def Let_def sample_synced_def new_state_def sample_retained_def binding_candidates_def
      Program_Binding.bind_def new_bindings_def sample_config_def rr_binding_select_def sample_new_decision_def
      sample_identity_def key_of_identity_def)

lemma sample_synced_fields [simp]:
  "runtime (sample_synced n) = empty_runtime" "decisions (sample_synced n) = Map.empty" "targets (sample_synced n) = [(''t0'', sample_target)]"
  "model_targets (sample_synced n) = [''m'' \<mapsto> [''t0'']]" "rank_queues (sample_synced n) = [''t0'' \<mapsto> []]"
  "global_queues (sample_synced n) = [''m'' \<mapsto> []]" "observations (sample_synced n) = [''t0'' \<mapsto> default_observation]"
  "rank_factors (sample_synced n) = [''t0'' \<mapsto> default_factors]"
  by (simp_all add: sample_synced_def new_state_def)

lemma sample_decision_fields [simp]:
  "last_target sample_new_decision = Some ''t0''" "queued_at sample_new_decision = Some 5" "last_pause_reason sample_new_decision = None"
  "force_resume_deadline sample_new_decision = None"
  by (simp_all add: sample_new_decision_def copy_identity_def new_decision_def)

lemma sample_force:
  "rank_factors st t = Some default_factors \<Longrightarrow> force_resume_timeout (sample_sched n) st t p now = fallback_estimate (300 * 10 ^ 9)"
  by (simp add: force_resume_timeout_def Let_def request_throughput_per_second_def default_factors_def)

lemma sample_enqueue: "enqueue (sample_sched n) sample_ref ''m'' ''t0'' 5 (sample_retained n) = sample_queued n"
  by (simp add: enqueue_def Let_def push_queued_def queue_at_def sample_retained_def modify_decision_def
      set_force_resume_deadline_def sample_force sample_waiting_fields no_hints_def fallback_estimate_def
      sample_queued_def sample_queued_decision_def)


lemma sample_queued_fields [simp]:
  "runtime (sample_queued n) = sample_waiting" "decisions (sample_queued n) = [sample_ref \<mapsto> sample_queued_decision]"
  "rank_queues (sample_queued n) = [''t0'' \<mapsto> [sample_ref]]" "observations (sample_queued n) = [''t0'' \<mapsto> default_observation]"
  "model_targets (sample_queued n) = [''m'' \<mapsto> [''t0'']]"
  by (simp_all add: sample_queued_def sample_retained_def)

lemma sample_queued_decision_fields [simp]:
  "last_target sample_queued_decision = Some ''t0''" "force_resume_deadline sample_queued_decision = Some (5 + 300 * 10 ^ 9)"
  by (simp_all add: sample_queued_decision_def)

lemma sample_views: "iter_views (sample_sched n) sample_waiting = [\<lparr>vr_reference = sample_ref, vr_state = Paused, vr_status = Reasoning,
    vr_expected_resume = True, vr_placement = None, vr_estimated_context_tokens = 100, vr_in_flight_requests = 0, vr_waiting_requests = 1\<rparr>]"
  by (simp add: iter_views_def sample_waiting_fields view_ref_def)

lemma sample_waiter: "reasoning_waiter (sample_queued n) sample_ref"
  by (simp add: reasoning_waiter_def view_def sample_waiting_fields sample_key)

lemma sample_plan:
  "rank_admission_plan (sample_sched n) (sample_queued m) sample_ref ''t0'' 5 =
     (if 1 \<le> n then Some \<lparr>used_tokens = 0,
        required_tokens = private_tokens_with_output sample_queued_decision (decode_buffer (sample_sched n)) None, reserve_tokens = 0,
        plan_capacity_tokens = None, forced = False, batch_gain = False\<rparr> else None)"
  by (simp add: rank_admission_plan_def sample_waiter backend_saturated_def fresh_waiting_def observation_is_fresh_def
      default_observation_def Let_def sample_views active_on_def count_fits_def is_forced_def target_usage_def
      observed_target_usage_def sat_add_def sample_waiting_fields no_hints_def)

lemma sample_candidate:
  "rank_candidate (sample_sched n) (sample_queued m) ''t0'' 5 =
     map_option (Pair sample_ref) (rank_admission_plan (sample_sched n) (sample_queued m) sample_ref ''t0'' 5)"
  by (simp add: rank_candidate_def queue_at_def sample_waiter order_resume_candidates_def sort_by_def split: option.split)

lemma sample_arrival: "run_request_arrival_decisions (sample_sched n) (sample_queued m) 5 = snd (rank_loop (sample_sched n) ''t0'' 5 (sample_queued m))"
  by (simp add: run_request_arrival_decisions_def release_expired_paused_def sample_views paused_expired_def expire_acting_ttls_def
      acting_ttl_expired_def repair_capacity_def schedule_waiting_def schedule_rank_local_def Let_def split_beta del: rank_loop.simps)

lemma sample_not_admitted: "run_request_arrival_decisions (sample_sched 0) (sample_queued 0) 5 = sample_queued 0"
  by (simp add: sample_arrival sample_candidate sample_plan)

lemma sample_acquire:
  "acquire_synced (sample_sched n) (sample_synced n) sample_identity 100 [sample_target] None 5 5 =
     Inr (Inr sample_handle, run_request_arrival_decisions (sample_sched n) (sample_queued n) 5)"
proof -
  have "record_continuity (sample_sched n) sample_ref 5 ((sample_synced n)\<lparr>runtime := sample_waiting\<rparr>) = (sample_synced n)\<lparr>runtime := sample_waiting\<rparr>"
    by (simp add: record_continuity_def split: option.split)
  moreover have "runtime_placement (runtime (sample_retained n)) sample_ref = None" "last_target_of (sample_retained n) sample_ref = Some ''t0''"
    "id_model_pool sample_identity = ''m''"
    by (simp_all add: sample_retained_def runtime_placement_def sample_waiting_fields sample_key last_target_of_def sample_identity_def)
  ultimately show ?thesis
    by (simp add: acquire_synced_def sample_retain sample_ensure sample_enqueue Let_def)
qed

definition sample_admitted :: program_scheduler_state where
  "sample_admitted = snd (commit_admission (sample_sched 1) (sample_queued 1) sample_ref ''t0'' 5)"

lemma sample_admitted_fields:
  "rank_queues sample_admitted = [''t0'' \<mapsto> []]" "runtime_placement (runtime sample_admitted) sample_ref = Some ''t0''"
  "decisions sample_admitted sample_ref = Some (activated_decision ''t0'' 5 sample_queued_decision)"
  by (simp_all add: sample_admitted_def commit_admission_def Let_def activate_def sample_waiting_fields sample_key
      unqueue_def adjust_usage_def remove_queued_def notify_program_def runtime_placement_def fun_eq_iff)

lemma sample_arrival_admits: "run_request_arrival_decisions (sample_sched 1) (sample_queued 1) 5 = sample_admitted"
proof -
  have "rank_candidate (sample_sched 1) sample_admitted ''t0'' 5 = None"
    by (simp add: rank_candidate_def queue_at_def sample_admitted_fields order_resume_candidates_def sort_by_def)
  then show ?thesis by (simp add: sample_arrival sample_candidate sample_plan sample_admitted_def [unfolded One_nat_def, symmetric])
qed

lemma sample_claim: "\<exists>dp st'. claim_dispatch sample_admitted sample_handle 7 0 = (Some dp, st') \<and> d_program dp = sample_ref"
proof -
  have "take_front (request_pool (runtime sample_admitted)) sample_handle \<noteq> None"
    by (simp add: sample_admitted_def commit_admission_def Let_def activate_def sample_waiting_fields sample_key unqueue_def
        adjust_usage_def notify_program_def)
      (simp add: take_front_def notify_front_def sample_waiting_def retain_request_def empty_runtime_def sample_identity_def
        key_of_identity_def pool_retain_def empty_pool_def Let_def sample_handle_def queue_of_def)
  moreover obtain q where "programs (runtime sample_admitted) (''m'', ''p'') = Some q" "reference q = sample_ref" "placement q = Some ''t0''"
    using sample_admitted_fields(2) by (auto simp: runtime_placement_def sample_key split: option.splits if_splits)
  ultimately show ?thesis
    by (cases "rp_state q") (auto simp: claim_dispatch_def sample_admitted_fields admit_front_def sample_key Let_def split: option.split)
qed

text \<open>A second pool that shares the target, and its empty snapshot.\<close>

definition sample_shared :: program_scheduler_state where
  "sample_shared = (sample_queued 0)\<lparr>model_targets := [''m'' \<mapsto> [''t0''], ''n'' \<mapsto> [''t0'']],
     model_target_snapshots := [''m'' \<mapsto> sample_snapshot, ''n'' \<mapsto> sample_snapshot], target_snapshot_revision := 2,
     global_queues := [''m'' \<mapsto> [], ''n'' \<mapsto> []]\<rparr>"

definition empty_snapshot :: target_snapshot where
  "empty_snapshot = \<lparr>address = 2, snapshot_targets = []\<rparr>"

lemma sample_share:
  "sync_target_snapshot_locked (sample_sched 0) ''n'' sample_snapshot (\<lambda>_. 0) (\<lambda>_. 0) (sample_queued 0) = Inr sample_shared"
proof -
  have ref: "model_pool sample_ref = ''m''" by (simp add: sample_handle_def)
  show ?thesis
    by (simp add: sync_target_snapshot_locked_def sample_snapshot_def sample_target_def Let_def install_targets_def sample_views
        affected_of_def ref List.map_filter_def retain_referenced_def add_target_def or_default_def sample_shared_def
        sample_queued_def sample_retained_def sample_synced_def new_state_def)
qed

lemma sample_unshare:
  "\<exists>st'. sync_target_snapshot_locked (sample_sched 0) ''n'' empty_snapshot (\<lambda>_. 0) (\<lambda>_. 0) sample_shared = Inr st'"
proof -
  have ref: "model_pool sample_ref = ''m''" by (simp add: sample_handle_def)
  show ?thesis
    by (simp add: sync_target_snapshot_locked_def sample_snapshot_def empty_snapshot_def Let_def install_targets_def sample_views
        affected_of_def ref List.map_filter_def sample_shared_def drop_target_def)
qed

lemma sample_shared_fields:
  "model_target_snapshots sample_shared ''n'' = Some sample_snapshot" "model_targets sample_shared ''n'' = Some [''t0'']"
  "last_target_of sample_shared sample_ref = Some ''t0''" "waiting_paused sample_shared sample_ref"
  by (simp_all add: sample_shared_def last_target_of_def waiting_paused_def live_def runtime_placement_def sample_waiting_fields sample_key)

end
