(* ===== verification/Scheduler_Run.thy ===== *)
theory Scheduler_Run
  imports Scheduler_Sample
begin

text \<open>
  The runs of the program scheduler: the critical sections of its entry points in any order, as
  the threads that serve requests, the periodic tick, the collector of observations and the
  synchronisation of targets take the lock.  A run carries the dispatches that are outstanding.

  Shown of every run: it refines a run of the runtime, a decision state exists exactly for the
  live programs, a dispatch goes to a target of the pool's last snapshot, and, as long as no
  target belongs to two pools, a waiting program stays in the queue from which it is scheduled.
\<close>

section \<open>Steps\<close>

inductive sched_step :: "program_scheduler \<Rightarrow> program_scheduler_state \<times> program_dispatch list \<Rightarrow>
    program_scheduler_state \<times> program_dispatch list \<Rightarrow> bool" for sch where
  Sync: "sync_target_snapshot_locked sch pool snapshot clock pause_clock st = Inr st' \<Longrightarrow> sched_step sch (st, outs) (st', outs)"
| Acquire: "acquire_synced sch st identity tokens ts routing arrived now = Inr (r, st') \<Longrightarrow> sched_step sch (st, outs) (st', outs)"
| Claim: "claim_dispatch st h now epoch = (Some dp, st') \<Longrightarrow> sched_step sch (st, outs) (st', dp # outs)"
| Claim_Fails: "claim_dispatch st h now epoch = (None, st') \<Longrightarrow> sched_step sch (st, outs) (st', outs)"
| Wake: "sched_step sch (st, outs) (run_request_arrival_decisions sch st now, outs)"
| Cancel: "sched_step sch (st, outs) (cancel_retained_request sch st h now1 now2 now3, outs)"
| Complete: "dp \<in> set outs \<Longrightarrow> completion_reaches st dp \<Longrightarrow>
    sched_step sch (st, outs) (complete sch st dp success terminate usage decode_seconds now, remove1 dp outs)"
| Complete_Stale: "dp \<in> set outs \<Longrightarrow> \<not> completion_reaches st dp \<Longrightarrow>
    sched_step sch (st, outs) (complete sch st dp success terminate usage decode_seconds now, outs)"
| Tick: "sched_step sch (st, outs) (tick sch st now, outs)"
| Observe: "sched_step sch (st, outs) (apply_observations sch epoch raws st, outs)"
| Evict: "binding_policy (sc_bindings st) = Cache_Aware_Binding ca \<Longrightarrow> evict_cache m ca ca' \<Longrightarrow>
    sched_step sch (st, outs) (st\<lparr>sc_bindings := (sc_bindings st)\<lparr>binding_policy := Cache_Aware_Binding ca'\<rparr>\<rparr>, outs)"

abbreviation sched_start :: "program_scheduler \<Rightarrow> program_scheduler_state \<times> program_dispatch list" where
  "sched_start sch \<equiv> (new_state (sch_config sch), [])"

definition sched_reach :: "program_scheduler \<Rightarrow> program_scheduler_state \<times> program_dispatch list \<Rightarrow> bool" where
  "sched_reach sch s \<longleftrightarrow> (sched_step sch)\<^sup>*\<^sup>* (sched_start sch) s"

text \<open>Steps taken while no target is shared, when the queues are per target.\<close>

definition separate_step :: "program_scheduler \<Rightarrow> program_scheduler_state \<times> program_dispatch list \<Rightarrow>
    program_scheduler_state \<times> program_dispatch list \<Rightarrow> bool" where
  "separate_step sch s s' \<longleftrightarrow> (global_queue (sch_config sch) \<or> separate (fst s)) \<and> sched_step sch s s'"

definition separate_reach :: "program_scheduler \<Rightarrow> program_scheduler_state \<times> program_dispatch list \<Rightarrow> bool" where
  "separate_reach sch s \<longleftrightarrow> (separate_step sch)\<^sup>*\<^sup>* (sched_start sch) s"

section \<open>Simulation\<close>

text \<open>A concrete machine whose steps keep an invariant and are runs of an abstract machine.\<close>

locale run_refinement =
  fixes cstep :: "'c \<Rightarrow> 'c \<Rightarrow> bool" and astep :: "'a \<Rightarrow> 'a \<Rightarrow> bool" and abstraction :: "'c \<Rightarrow> 'a" and inv :: "'c \<Rightarrow> bool"
  assumes keeps: "inv s \<Longrightarrow> cstep s s' \<Longrightarrow> inv s'"
    and simulates: "inv s \<Longrightarrow> cstep s s' \<Longrightarrow> astep\<^sup>*\<^sup>* (abstraction s) (abstraction s')"
begin

lemma run_keeps: "cstep\<^sup>*\<^sup>* s s' \<Longrightarrow> inv s \<Longrightarrow> inv s'"
  by (induction rule: rtranclp_induct) (auto intro: keeps)

lemma run_simulates: "cstep\<^sup>*\<^sup>* s s' \<Longrightarrow> inv s \<Longrightarrow> astep\<^sup>*\<^sup>* (abstraction s) (abstraction s')"
proof (induction rule: rtranclp_induct)
  case (step y z)
  then show ?case using simulates [OF run_keeps [OF step(1)] step(2)] by (auto intro: rtranclp_trans)
qed simp

end

definition sched_inv :: "program_scheduler \<Rightarrow> program_scheduler_state \<times> program_dispatch list \<Rightarrow> bool" where
  "sched_inv sch s \<longleftrightarrow> iteration_ok sch \<and> sinv (fst s) \<and> snapshots_ok (fst s)"

definition queued_inv :: "program_scheduler \<Rightarrow> program_scheduler_state \<times> program_dispatch list \<Rightarrow> bool" where
  "queued_inv sch s \<longleftrightarrow> sched_inv sch s \<and> (\<forall>r. queued_ok sch (fst s) r)"

definition abs_runtime :: "program_scheduler_state \<times> program_dispatch list \<Rightarrow> program_runtime \<times> program_dispatch list" where
  "abs_runtime s = (runtime (fst s), snd s)"

lemma apply_observations_core: "same_core st (apply_observations sch epoch raws st)"
proof -
  have "same_core st (fold (apply_observation sch epoch) raws st')" if "same_core st st'" for st'
    using that by (induction raws arbitrary: st')
      (auto simp: same_core_def apply_observation_def Let_def split: option.splits)
  then show ?thesis by (simp add: apply_observations_def same_core_def)
qed

lemma evict_preserves:
  assumes "binding_policy (sc_bindings st) = Cache_Aware_Binding ca"
  shows "preserves sch (st, outs) (st\<lparr>sc_bindings := (sc_bindings st)\<lparr>binding_policy := Cache_Aware_Binding ca'\<rparr>\<rparr>, outs)"
proof -
  let ?st = "st\<lparr>sc_bindings := (sc_bindings st)\<lparr>binding_policy := Cache_Aware_Binding ca'\<rparr>\<rparr>"
  have K: "keeps_program sch st ?st r" for r by (rule keeps_same) simp_all
  then have "\<forall>r. queued_ok sch ?st r" if "\<forall>r. queued_ok sch st r" using that keeps_queued_ok by blast
  moreover have "sinv ?st" if "sinv st"
    using that by (simp add: sinv_def target_ok_def last_target_of_def pool_target_def)
  ultimately show ?thesis by (simp add: preserves_def)
qed

lemma step_preserves:
  assumes "iteration_ok sch" "sinv (fst s)" "sched_step sch s s'"
  shows "(\<exists>pool snapshot clock pause_clock. sync_target_snapshot_locked sch pool snapshot clock pause_clock (fst s) = Inr (fst s') \<and>
      snd s' = snd s) \<or> preserves sch s s'"
  using assms(3,2)
proof (cases rule: sched_step.cases)
  case (Evict st ca m ca' outs)
  then show ?thesis using evict_preserves by blast
next
  case (Claim st h now epoch dp st' outs)
  then show ?thesis using claim_dispatch_preserves [OF Claim(3), of sch outs] by simp
next
  case (Claim_Fails st h now epoch st' outs)
  then show ?thesis using claim_dispatch_preserves [OF Claim_Fails(3), of sch outs] by simp
next
  case (Observe st outs epoch raws)
  then show ?thesis using decides_preserves [OF account_decides [OF apply_observations_core]] by blast
next
  case (Complete_Stale dp outs st success terminate usage decode_seconds now)
  then show ?thesis by (simp add: complete_unreached preserves_refl)
qed (use assms(1,2) in \<open>auto intro: acquire_preserves cancel_retained_preserves complete_preserves
      decides_preserves tick_decides run_request_arrival_decisions_decides\<close>)

lemma step_keeps:
  assumes "sched_inv sch s" "sched_step sch s s'"
  shows "sched_inv sch s'" "rt_step\<^sup>*\<^sup>* (abs_runtime s) (abs_runtime s')"
    "\<forall>r. queued_ok sch (fst s) r \<Longrightarrow> global_queue (sch_config sch) \<or> separate (fst s) \<Longrightarrow> \<forall>r. queued_ok sch (fst s') r"
proof -
  obtain st outs st' outs' where s: "s = (st, outs)" "s' = (st', outs')" by (cases s, cases s')
  have I: "iteration_ok sch" "sinv st" "snapshots_ok st" using assms(1) by (simp_all add: sched_inv_def s)
  have "sched_inv sch s' \<and> rt_step\<^sup>*\<^sup>* (abs_runtime s) (abs_runtime s') \<and>
    ((\<forall>r. queued_ok sch st r) \<and> (global_queue (sch_config sch) \<or> separate st) \<longrightarrow> (\<forall>r. queued_ok sch st' r))"
  proof -
    have "sinv (fst s)" using I(2) s by simp
    from step_preserves [OF I(1) this assms(2)] show ?thesis
    proof (elim disjE exE)
      fix pool snapshot clock pause_clock
      assume "sync_target_snapshot_locked sch pool snapshot clock pause_clock (fst s) = Inr (fst s') \<and> snd s' = snd s"
      then have S: "sync_target_snapshot_locked sch pool snapshot clock pause_clock st = Inr st'" "outs' = outs" by (simp_all add: s)
      show ?thesis using sync_ok [OF I(1,2) S(1)] I(1,3) by (simp add: s S(2) sched_inv_def abs_runtime_def)
    next
      assume "preserves sch s s'"
      note P = preservesD [OF this [unfolded s] I(2)]
      show ?thesis using P I(1,3) by (simp add: s sched_inv_def abs_runtime_def snapshots_ok_def)
    qed
  qed
  then show "sched_inv sch s'" "rt_step\<^sup>*\<^sup>* (abs_runtime s) (abs_runtime s')"
    "\<forall>r. queued_ok sch (fst s) r \<Longrightarrow> global_queue (sch_config sch) \<or> separate (fst s) \<Longrightarrow> \<forall>r. queued_ok sch (fst s') r"
    by (simp_all add: s)
qed

interpretation sched: run_refinement "sched_step sch" rt_step abs_runtime "sched_inv sch" for sch
  by unfold_locales (simp_all add: step_keeps)

interpretation separated: run_refinement "separate_step sch" rt_step abs_runtime "queued_inv sch" for sch
  by unfold_locales (auto simp: separate_step_def queued_inv_def dest: step_keeps)

section \<open>Reachable states\<close>

lemma start_inv: "iteration_ok sch \<Longrightarrow> queued_inv sch (sched_start sch)"
  by (simp add: queued_inv_def sched_inv_def sinv_def new_state_def rt_wf_def empty_runtime_def empty_pool_def program_len_def live_def
      target_ok_def runtime_placement_def last_target_of_def new_bindings_ok forest_def edges_def snapshots_ok_def queued_ok_def
      waiting_paused_def acyclic_def)

lemma reach_inv:
  assumes "sched_reach sch (st, outs)" "iteration_ok sch"
  shows "sinv st" "snapshots_ok st"
  using sched.run_keeps [OF assms(1) [unfolded sched_reach_def]] start_inv [OF assms(2)]
  by (simp_all add: queued_inv_def sched_inv_def)

lemma separate_reach_inv:
  assumes "separate_reach sch (st, outs)" "iteration_ok sch"
  shows "sinv st" "queued_ok sch st r"
  using separated.run_keeps [OF assms(1) [unfolded separate_reach_def] start_inv [OF assms(2)]]
  by (simp_all add: queued_inv_def sched_inv_def)

lemma sample_separate: "separate (sample_synced n)" "separate (new_state c)"
  by (auto simp: separate_def pool_target_def new_state_def split: if_splits)

lemma sample_synced_reach: "(separate_step (sample_sched n))\<^sup>*\<^sup>* (sched_start (sample_sched n)) (sample_synced n, [])"
  using sched_step.Sync [OF sample_sync, of n "[]"] sample_separate(2) by (intro r_into_rtranclp) (simp add: separate_step_def)

lemma sample_reach: "separate_reach (sample_sched n) (run_request_arrival_decisions (sample_sched n) (sample_queued n) 5, [])"
proof -
  have "separate_step (sample_sched n) (sample_synced n, []) (run_request_arrival_decisions (sample_sched n) (sample_queued n) 5, [])"
    using sched_step.Acquire [OF sample_acquire, of n "[]"] sample_separate(1) [of n] by (simp add: separate_step_def)
  then show ?thesis unfolding separate_reach_def by (rule rtranclp.rtrancl_into_rtrancl [OF sample_synced_reach])
qed

lemma separate_reach_reach: "separate_reach sch s \<Longrightarrow> sched_reach sch s"
  unfolding separate_reach_def sched_reach_def by (erule rtranclp_mono [THEN predicate2D, rotated]) (auto simp: separate_step_def)

lemma sample_reached: "separate_reach (sample_sched 0) (sample_queued 0, [])" "separate_reach (sample_sched 1) (sample_admitted, [])"
  using sample_reach [of 0] sample_reach [of 1] by (simp_all only: sample_not_admitted sample_arrival_admits)

section \<open>Properties\<close>

text \<open>C2: The scheduler refines the runtime: every run of the scheduler, whatever its entry points
  decide and in whatever order hash maps are iterated, changes the table of programs and the
  pool of requests only by operations of the runtime, with the same outstanding dispatches.\<close>

theorem scheduler_refines_runtime:
  assumes "sched_reach sch (st, outs)" "iteration_ok sch"
  shows "rt_step\<^sup>*\<^sup>* (empty_runtime, []) (runtime st, outs)"
proof -
  have "sched_inv sch (sched_start sch)" using start_inv [OF assms(2)] by (simp add: queued_inv_def)
  from sched.run_simulates [OF assms(1) [unfolded sched_reach_def] this] show ?thesis
    by (simp add: abs_runtime_def new_state_def)
qed

theorem scheduler_refines_runtime_witness: "rt_step\<^sup>*\<^sup>* (empty_runtime, []) (runtime sample_admitted, [])"
  using scheduler_refines_runtime [OF separate_reach_reach [OF sample_reached(2)] sample_iteration] .

text \<open>C11: The tables of the scheduler agree: in every reachable state a decision state exists exactly
  for the programs of the runtime, so that indexing it for a waiting program does not panic; a
  program that is placed is placed on the last target of its decision state, and that target
  belongs to the program's pool.\<close>

theorem scheduler_tables_agree:
  assumes "sched_reach sch (st, outs)" "iteration_ok sch"
  shows "(decisions st r \<noteq> None \<longleftrightarrow> view (runtime st) r \<noteq> None) \<and>
    (reasoning_waiter st r \<longrightarrow> decisions st r \<noteq> None) \<and>
    (runtime_placement (runtime st) r \<noteq> None \<longrightarrow> last_target_of st r = runtime_placement (runtime st) r) \<and>
    (\<forall>t. last_target_of st r = Some t \<longrightarrow> (\<exists>ids. model_targets st (model_pool r) = Some ids \<and> t \<in> set ids))"
proof -
  note I = reach_inv(1) [OF assms]
  have D: "decisions st r \<noteq> None \<longleftrightarrow> view (runtime st) r \<noteq> None"
    using sinvD(2) [OF I, of r] view_iff_live [of "runtime st" r] by blast
  moreover have "view (runtime st) r \<noteq> None" if "reasoning_waiter st r"
    using that by (auto simp: reasoning_waiter_def split: option.splits)
  ultimately show ?thesis using sinvD(3) [OF I, of r] by (auto simp: target_ok_def pool_target_def)
qed

theorem scheduler_tables_agree_witness:
  "decisions (sample_queued 0) sample_ref \<noteq> None \<and> (\<exists>ids. model_targets (sample_queued 0) ''m'' = Some ids \<and> ''t0'' \<in> set ids)"
  using scheduler_tables_agree [OF separate_reach_reach [OF sample_reached(1)] sample_iteration, of sample_ref] sample_waiter [of 0]
  by (simp add: last_target_of_def sample_handle_def)

text \<open>C8: Requests go to live targets: when a waiting request is dispatched, in any reachable state,
  its target is one of the targets of the last snapshot that was installed for the model pool of
  its program.\<close>

theorem dispatch_targets_current:
  assumes "sched_reach sch (st, outs)" "iteration_ok sch" "claim_dispatch st h now epoch = (Some dp, st')"
  shows "d_program dp = h_program h \<and>
    (\<exists>snapshot. model_target_snapshots st (model_pool (h_program h)) = Some snapshot \<and>
       d_target_id dp \<in> t_id ` set (snapshot_targets snapshot))"
proof -
  note I = reach_inv [OF assms(1,2)]
  obtain t where t: "runtime_placement (runtime st) (h_program h) = Some t"
    using assms(3) by (auto simp: claim_dispatch_def split: option.splits)
  obtain d rt where A: "admit_front (runtime st) h t now = (d, rt)" by fastforce
  have "d = Some dp" using assms(3) t A by (auto simp: claim_dispatch_def Let_def split: option.splits)
  then have dp: "d_program dp = h_program h" "d_target_id dp = t"
    using admit_front_placed [OF sinvD(1) [OF I(1)] t A] by metis+
  have "pool_target st (model_pool (h_program h)) t" using sinvD(3) [OF I(1), of "h_program h"] t by (simp add: target_ok_def)
  then obtain ids where ids: "model_targets st (model_pool (h_program h)) = Some ids" "t \<in> set ids" by (auto simp: pool_target_def)
  from I(2) have "rel_option (\<lambda>ids snapshot. set ids = t_id ` set (snapshot_targets snapshot)) (Some ids)
      (model_target_snapshots st (model_pool (h_program h)))"
    unfolding snapshots_ok_def ids(1) [symmetric] by blast
  then show ?thesis using dp ids(2) by (auto simp: option_rel_Some1)
qed

theorem dispatch_targets_current_witness:
  "\<exists>dp st'. claim_dispatch sample_admitted sample_handle 7 0 = (Some dp, st') \<and> d_program dp = sample_ref"
  using sample_claim dispatch_targets_current [OF separate_reach_reach [OF sample_reached(2)] sample_iteration, of sample_handle 7 0]
  by blast

text \<open>C4: No waiting program is lost: as long as no target belongs to two model pools, or when the
  queues are per model pool, a paused program with retained requests and a target is in the
  queue from which the scheduling loop takes candidates.\<close>

theorem waiters_stay_queued:
  assumes "separate_reach sch (st, outs)" "iteration_ok sch" "view (runtime st) r = Some v" "v_placement v = None"
    "0 < v_waiting_requests v" "last_target_of st r = Some t"
  shows "r \<in> set (if global_queue (sch_config sch) then queue_at (global_queues st) (model_pool r) else queue_at (rank_queues st) t)"
proof -
  from assms(3) obtain q where "programs (runtime st) (key_of_ref r) = Some q" "reference q = r" "v_placement v = placement q"
    "v_waiting_requests v = program_len (request_pool (runtime st)) r" by (rule view_SomeD)
  then have "waiting_paused st r" using assms(4,5) by (simp add: waiting_paused_def live_def runtime_placement_def)
  then show ?thesis using separate_reach_inv(2) [OF assms(1,2), of r] assms(6) by (simp add: queued_ok_def in_queue_def)
qed

theorem waiters_stay_queued_witness: "sample_ref \<in> set (queue_at (rank_queues (sample_queued 0)) ''t0'')"
  using waiters_stay_queued [OF sample_reached(1) sample_iteration, of sample_ref _ "''t0''"]
  by (simp add: view_def sample_waiting_fields sample_key last_target_of_def)

text \<open>C40: Where targets are shared, a waiting program is lost: when a target leaves the snapshot of one
  pool, the queue of the target is deleted although another pool still uses it.  A program of
  that other pool that waits for the target keeps waiting for it, and the scheduling loop of the
  target finds no candidate any more.\<close>

theorem shared_target_drops_waiters:
  assumes "sched_reach sch (st, outs)" "iteration_ok sch"
    and S: "sync_target_snapshot_locked sch pool snapshot clock pause_clock st = Inr st'"
    and new: "\<forall>current. model_target_snapshots st pool = Some current \<longrightarrow> address current \<noteq> address snapshot"
    and gone: "pool_target st pool t" "t \<notin> t_id ` set (snapshot_targets snapshot)"
    and other: "model_pool r \<noteq> pool" "last_target_of st r = Some t" "waiting_paused st r"
  shows "waiting_paused st' r \<and> last_target_of st' r = Some t \<and> pool_target st' (model_pool r) t \<and>
    rank_queues st' t = None \<and> rank_candidate sch st' t now = None"
proof -
  note I = reach_inv(1) [OF assms(1,2)]
  have ids: "t \<notin> set (map fst (incoming_of snapshot))" using gone(2) incoming_of_ids [of snapshot] by simp
  from S show ?thesis
  proof (cases rule: sync_cases)
    case (same current)
    then show ?thesis using new by blast
  next
    case content
    then show ?thesis using gone(1) ids by (simp add: pool_target_def)
  next
    case (changed st2)
    let ?st1 = "installed pool snapshot st"
    note V = install_sync_inv [OF assms(2) I refl removed_of_def refl refl]
    note A = rebind_all_ok [OF V(1) changed(1) V(2)]
    note J = install_targets_same [of pool snapshot "incoming_of snapshot" "removed_of pool snapshot st" st]
    have "r \<notin> af_reference ` set (affected sch pool snapshot st)"
      using V(1) other(1) by (auto simp: sync_inv_def)
    then have K: "keeps_program sch ?st1 st2 r" by (rule A(6))
    have rem: "t \<in> set (removed_of pool snapshot st)" using gone(1) ids by (auto simp: removed_of_def pool_target_def)
    have "rank_queues ?st1 t = None" using rem by (simp add: install_targets_def Let_def drop_target_queue)
    then have q: "rank_queues st2 t = None"
      using A(7) ids by (simp add: pool_target_def J)
    have pt: "pool_target st (model_pool r) t" using sinvD(3) [OF I, of r] other(2) by (simp add: target_ok_def)
    have core: "same_core st2 st'" unfolding changed(2) by (rule retain_referenced_same)
    have "rank_candidate sch st' t now = None"
      using q core by (simp add: rank_candidate_def queue_at_def same_core_def order_resume_candidates_def sort_by_def)
    then show ?thesis using K core q pt other A(2)
      by (simp add: same_core_def keeps_program_def waiting_paused_def last_target_of_def pool_target_def J)
  qed
qed

lemma sample_shared_reach: "sched_reach (sample_sched 0) (sample_shared, [])"
  using separate_reach_reach [OF sample_reached(1)] sched_step.Sync [OF sample_share, of "[]"]
  unfolding sched_reach_def by (rule rtranclp.rtrancl_into_rtrancl)

theorem shared_target_drops_waiters_witness:
  "\<exists>st'. sync_target_snapshot_locked (sample_sched 0) ''n'' empty_snapshot (\<lambda>_. 0) (\<lambda>_. 0) sample_shared = Inr st' \<and>
     waiting_paused st' sample_ref \<and> pool_target st' ''m'' ''t0'' \<and> rank_candidate (sample_sched 0) st' ''t0'' 9 = None"
proof -
  obtain st' where S: "sync_target_snapshot_locked (sample_sched 0) ''n'' empty_snapshot (\<lambda>_. 0) (\<lambda>_. 0) sample_shared = Inr st'"
    using sample_unshare by blast
  have "model_pool sample_ref = ''m''" by (simp add: sample_handle_def)
  then show ?thesis
    using S shared_target_drops_waiters [OF sample_shared_reach sample_iteration S, of "''t0''" sample_ref 9] sample_shared_fields
    by (simp add: pool_target_def empty_snapshot_def sample_snapshot_def)
qed

end
