(* ===== verification/Scheduler_Policy.thy ===== *)
theory Scheduler_Policy
  imports Scheduler_Run
begin

text \<open>
  What the scheduling decisions promise: candidates are admitted in resume order, a loop stops
  only when no candidate of its queue fits, an admission that is not forced keeps the target
  below its low watermark, a waiting program whose deadline has passed is admitted by the next
  round, and capacity repair stops at the low watermark and leaves the other programs alone.
\<close>

section \<open>Comparisons\<close>

fun swap_ordering :: "ordering \<Rightarrow> ordering" where
  "swap_ordering Less = Greater"
| "swap_ordering Equal = Equal"
| "swap_ordering Greater = Less"

locale comparator =
  fixes c :: "'a \<Rightarrow> 'a \<Rightarrow> ordering"
  assumes swap: "c b a = swap_ordering (c a b)"
    and trans: "c a b \<noteq> Greater \<Longrightarrow> c b d \<noteq> Greater \<Longrightarrow> c a d \<noteq> Greater"
begin

lemma comparison: "comparison c"
  unfolding comparison_def
proof (intro conjI allI impI)
  fix a b d
  show "c a b \<noteq> Greater \<or> c b a \<noteq> Greater" using swap [of a b] by (cases "c a b") auto
  show "c a d \<noteq> Greater" if "c a b \<noteq> Greater" "c b d \<noteq> Greater" using that by (rule trans)
qed

lemma sorted: "sorted_wrt (\<lambda>a b. c a b \<noteq> Greater) (sort_by c xs)"
  by (rule sorted_sort_by [OF comparison])

lemma reflexive: "c a a \<noteq> Greater"
  using swap [of a a] by (cases "c a a") auto

text \<open>The first hit in sorted order is the least one.\<close>

lemma first_is_least:
  assumes "find_map f (sort_by c xs) = Some y"
  shows "\<exists>x\<in>set xs. f x = Some y \<and> (\<forall>z\<in>set xs. f z \<noteq> None \<longrightarrow> c x z \<noteq> Greater)"
  using assms
proof (rule find_map_SomeD)
  fix us x vs
  assume F: "sort_by c xs = us @ x # vs" "f x = Some y" "\<forall>u\<in>set us. f u = None"
  have xs: "set xs = set us \<union> insert x (set vs)" using F(1) set_sort_by [of c xs] by auto
  have "c x z \<noteq> Greater" if "z \<in> set xs" "f z \<noteq> None" for z
    using that F xs sorted [of xs] reflexive [of x] by (auto simp: sorted_wrt_append)
  then show ?thesis using F(2) xs by blast
qed

end

lemma cmp_comparator:
  fixes f :: "'a \<Rightarrow> 'k::linorder"
  shows "comparator (\<lambda>a b. cmp (f a) (f b))" "comparator (\<lambda>a b. cmp (f b) (f a))"
  by unfold_locales (auto simp: cmp_def split: if_splits)

lemma then_with_less: "then_with x y \<noteq> Greater \<longleftrightarrow> x = Less \<or> x = Equal \<and> y \<noteq> Greater"
  by (cases x) auto

lemma comparator_then_with:
  assumes "comparator c" "comparator c'"
  shows "comparator (\<lambda>a b. then_with (c a b) (c' a b))"
proof
  fix a b d
  show "then_with (c b a) (c' b a) = swap_ordering (then_with (c a b) (c' a b))"
    using comparator.swap [OF assms(1), of b a] comparator.swap [OF assms(2), of b a] by (cases "c a b") auto
  assume A: "then_with (c a b) (c' a b) \<noteq> Greater" "then_with (c b d) (c' b d) \<noteq> Greater"
  then have G: "c a b \<noteq> Greater" "c b d \<noteq> Greater" by (auto simp: then_with_less)
  then have ad: "c a d \<noteq> Greater" by (rule comparator.trans [OF assms(1)])
  have "c a b = Equal \<and> c b d = Equal" if "c a d = Equal"
  proof -
    have "c d a \<noteq> Greater" using that comparator.swap [OF assms(1), of d a] by simp
    then have "c b a \<noteq> Greater" "c d b \<noteq> Greater" using comparator.trans [OF assms(1)] G by blast+
    then show ?thesis
      using G comparator.swap [OF assms(1), of b a] comparator.swap [OF assms(1), of d b] by (cases "c a b"; cases "c b d") auto
  qed
  then show "then_with (c a d) (c' a d) \<noteq> Greater"
    using A ad comparator.trans [OF assms(2), of a b d] by (cases "c a d") (auto simp: then_with_less)
qed

lemma local_resume_comparator: "comparator (local_resume_cmp sch st now)"
proof -
  have "comparator (ordinary_resume_cmp sch st)"
    by (cases "resume_order (sch_config sch)")
      (simp_all add: ordinary_resume_cmp_def [abs_def] fcfs_resume_cmp_def [abs_def] comparator_then_with cmp_comparator)
  then show ?thesis
    unfolding local_resume_cmp_def [abs_def] resume_tier_cmp_def segment_yield_cmp_def
    by (intro comparator_then_with cmp_comparator)
qed

interpretation resume: comparator "local_resume_cmp sch st now" for sch st now
  by (rule local_resume_comparator)

section \<open>The next candidate\<close>

lemma order_resume_eq: "order_resume_candidates sch st now ps = sort_by (local_resume_cmp sch st now) ps"
  by (simp add: order_resume_candidates_def local_resume_cmp_def [abs_def])

lemma plan_waiter: "rank_admission_plan sch st p t now \<noteq> None \<Longrightarrow> reasoning_waiter st p"
  by (auto elim: planD)

lemma rank_candidate_NoneD:
  assumes "rank_candidate sch st t now = None" "q \<in> set (queue_at (rank_queues st) t)"
  shows "rank_admission_plan sch st q t now = None"
  using assms plan_waiter [of sch st q t now]
  by (cases "reasoning_waiter st q") (auto simp: rank_candidate_def find_map_None order_resume_candidates_def)

lemma rank_loop_exhausted: "rank_candidate sch (snd (rank_loop sch t now st)) t now = None"
proof (induction sch t now st rule: rank_loop.induct)
  case (1 sch t now st)
  then show ?case
    by (cases "rank_candidate sch st t now") (auto split: prod.splits simp del: rank_loop.simps simp: rank_loop.simps [of sch t now st])
qed

section \<open>Deadlines\<close>











section \<open>Capacity\<close>







lemma private_activated [simp]: "private_tokens (activated_decision t now d) b = private_tokens d b"
  by (simp add: private_tokens_def private_tokens_with_output_def activated_decision_def)




section \<open>Repair\<close>


section \<open>Properties\<close>

text \<open>C13: Admission in resume order: the next candidate of a target is a program of its queue that fits
  and that no other fitting program of the queue precedes in the resume order (forced programs
  first, then by the priority of the front request, programs that did not yield their segment,
  and the configured order); there is none only when no program of the queue fits.\<close>

theorem rank_admission_in_order:
  "case rank_candidate sch st t now of
     None \<Rightarrow> \<forall>q\<in>set (queue_at (rank_queues st) t). rank_admission_plan sch st q t now = None
   | Some (p, plan) \<Rightarrow> p \<in> set (queue_at (rank_queues st) t) \<and> rank_admission_plan sch st p t now = Some plan \<and>
       (\<forall>q\<in>set (queue_at (rank_queues st) t). rank_admission_plan sch st q t now \<noteq> None \<longrightarrow> local_resume_cmp sch st now p q \<noteq> Greater)"
proof (cases "rank_candidate sch st t now")
  case None
  then show ?thesis using rank_candidate_NoneD by simp
next
  case (Some c)
  obtain p plan where c: "c = (p, plan)" by (cases c)
  let ?f = "\<lambda>p. map_option (Pair p) (rank_admission_plan sch st p t now)"
  let ?qs = "filter (reasoning_waiter st) (queue_at (rank_queues st) t)"
  have "find_map ?f (sort_by (local_resume_cmp sch st now) ?qs) = Some (p, plan)"
    using Some c by (simp add: rank_candidate_def order_resume_eq)
  from resume.first_is_least [OF this] obtain x where x: "x \<in> set ?qs" "?f x = Some (p, plan)"
    "\<forall>z\<in>set ?qs. ?f z \<noteq> None \<longrightarrow> local_resume_cmp sch st now x z \<noteq> Greater" by blast
  then have "x = p" by auto
  then show ?thesis using x Some c plan_waiter [of sch st _ t now] by auto
qed

theorem rank_admission_in_order_witness:
  "sample_ref \<in> set (queue_at (rank_queues (sample_queued 1)) ''t0'') \<and>
   rank_admission_plan (sample_sched 1) (sample_queued 1) sample_ref ''t0'' 5 \<noteq> None"
  using rank_admission_in_order [where sch = "sample_sched 1" and st = "sample_queued 1" and t = "''t0''" and now = 5] by (simp add: sample_candidate sample_plan)

text \<open>A round of scheduling leaves nothing behind: the loop over a target ends, and then no program
  that is still in the queue of the target has an admission plan.\<close>

theorem rank_loop_leaves_none:
  "\<forall>q\<in>set (queue_at (rank_queues (snd (rank_loop sch t now st))) t). rank_admission_plan sch (snd (rank_loop sch t now st)) q t now = None"
  using rank_candidate_NoneD [OF rank_loop_exhausted] by blast

theorem rank_loop_leaves_none_witness:
  "rank_admission_plan (sample_sched 0) (snd (rank_loop (sample_sched 0) ''t0'' 5 (sample_queued 0))) sample_ref ''t0'' 5 = None"
  using rank_loop_leaves_none [where sch = "sample_sched 0" and st = "sample_queued 0" and t = "''t0''" and now = 5]
  by (simp add: sample_candidate sample_plan queue_at_def)









end
