(* ===== verification/Spec2Isabelle.thy ===== *)
theory Spec2Isabelle
  imports Worker_Registry Hash_Policies Retry Token_Bucket Cache_Aware Token_Stream Response_Store Scheduler_Policy
begin

text \<open>
  A verification of the vLLM router, the Rust program under \<^verbatim>\<open>src/src\<close>.

  The router takes inference requests over HTTP and forwards each to one of several backends
  (workers).  Its parts, and the theories that model them, are the following.  File names are
  relative to \<^verbatim>\<open>src/src\<close>.

  \<^bold>\<open>Shared vocabulary.\<close>  \<open>Router_Prelude\<close> has the integer types at their width, time as nanoseconds, and the
  iterator functions of the standard library; \<open>Rust_Str\<close> has the string functions on bytes, with the
  round trips of the number formats; \<open>Utf8_Text\<close> has text as code points and the byte-level operations
  of \<^verbatim>\<open>tree.rs\<close>, which it shows to be the character-level ones.

  \<^bold>\<open>Workers.\<close>
  \<^item> \<open>Circuit_Breaker\<close> (\<^verbatim>\<open>core/circuit_breaker.rs\<close>): the record \<open>circuit_breaker\<close> and one definition per
    method, with the clock as an argument.  Shown: the counters of every reachable state, rejection
    while open, the trial after the timeout.
  \<^item> \<open>Worker\<close> (\<^verbatim>\<open>core/worker.rs\<close>, \<^verbatim>\<open>core/error.rs\<close>): both implementations of the worker interface, load
    guards and health probing.  Shown: the load counter is the number of live guards, and the health
    flag refines a specification over the history of probes.
  \<^item> \<open>Worker_Registry\<close> (\<^verbatim>\<open>core/worker_registry.rs\<close>): workers in a store, the registry as references with
    its secondary indexes.  Shown: every index answers with exactly the registered workers.
  \<^item> \<open>Dp_Url\<close> (\<^verbatim>\<open>routers/http/dp_utils.rs\<close>, \<^verbatim>\<open>backend/detect.rs\<close>): data-parallel URLs and pool detection, with
    their round trip.
  \<^item> \<open>Retry\<close> (\<^verbatim>\<open>core/retry.rs\<close>) and \<open>Token_Bucket\<close> (\<^verbatim>\<open>core/token_bucket.rs\<close>): retries end with the first final
    response; the rate limit over any sequence of operations.

  \<^bold>\<open>Load balancing.\<close>  The locales \<open>lb_healthy\<close> and \<open>lb_policy\<close> of \<open>Policy\<close> (\<^verbatim>\<open>policies/mod.rs\<close>) are the contract
  of a policy: it chooses whenever a worker is available, and only among those.
  \<^item> \<open>Policy\<close> interprets it for round robin, random choice and power of two (\<^verbatim>\<open>policies/round_robin.rs\<close>,
    \<^verbatim>\<open>random.rs\<close>, \<^verbatim>\<open>power_of_two.rs\<close>); a random draw is any number.
  \<^item> \<open>Hash_Key\<close> (\<^verbatim>\<open>policies/hash_key.rs\<close>) extracts the routing key, \<open>Fbi_Hash\<close> is the hash of
    \<^verbatim>\<open>policies/consistent_hash.rs\<close>, and \<open>Hash_Policies\<close> the ring and the rendezvous selection
    (\<^verbatim>\<open>policies/rendezvous_hash.rs\<close>).  Shown: the cache of the hash is transparent, routing does not depend
    on history, and a change of workers moves as few keys as possible.
  \<^item> \<open>Radix_Node\<close>, \<open>Radix_Tree\<close>, \<open>Radix_Evict\<close> and \<open>Radix_Spec\<close> (\<^verbatim>\<open>tree.rs\<close>): the multi-tenant radix tree.  Nodes are
    a datatype with the source's fields; a node that a walk reaches is its path.  Shown: the tree
    refines the history of insertions, its counts are exact, the match is the best one, and eviction
    ends within the budget.
  \<^item> \<open>Cache_Aware\<close> (\<^verbatim>\<open>policies/cache_aware.rs\<close>): the policy over one tree per model.  It interprets \<open>lb_healthy\<close>
    only, since a cache hit ignores the circuit breaker.

  \<^bold>\<open>Program scheduling\<close> (\<^verbatim>\<open>program_scheduling\<close>) holds back the requests of agent programs until their
  target has room for the program's context.
  \<^item> \<open>Program_Runtime\<close> (\<^verbatim>\<open>domain.rs\<close>, \<^verbatim>\<open>request_pool.rs\<close>, \<^verbatim>\<open>runtime.rs\<close>): programs, placements and retained requests,
    as the step relation \<open>rt_step\<close> with the outstanding dispatches.  Shown: the lifecycle invariant, exact
    fencing of completions, dispatch in order of arrival.
  \<^item> \<open>Program_Lineage\<close> (\<^verbatim>\<open>lineage.rs\<close>): the union-find forest of parents.  Shown: every lookup ends, also the
    one that compresses paths.
  \<^item> \<open>Program_Binding\<close> (\<^verbatim>\<open>binding/mod.rs\<close>): home targets and the five strategies.
  \<^item> \<open>Progress_Ttl\<close> (\<^verbatim>\<open>factors.rs\<close>, \<^verbatim>\<open>policy.rs\<close>): windows of samples and the formulas, with the optimality of the
    fitted time to live.
  \<^item> \<open>Scheduler_State\<close> (\<^verbatim>\<open>scheduler_state.rs\<close>, and from \<^verbatim>\<open>scheduler.rs\<close> usage, candidates, decision states and
    observations), \<open>Scheduler_Admission\<close> (\<^verbatim>\<open>scheduler_admission.rs\<close>, \<^verbatim>\<open>scheduler_global.rs\<close>: resume order, plans and
    scheduling loops), \<open>Scheduler_Lifecycle\<close> (\<^verbatim>\<open>scheduler_fairness.rs\<close>, \<^verbatim>\<open>scheduler_lifecycle.rs\<close>: deadlines, expiry,
    repair) and \<open>Scheduler_Ops\<close> (completion, retention, dispatch, cancellation and the synchronisation of
    targets) are the model.  The state is the record \<open>program_scheduler_state\<close>, and every section under
    the scheduler's lock is a function on it.
  \<^item> \<open>Scheduler_Steps\<close> has the invariant and a step relation of single decisions; \<open>Scheduler_Loops\<close>,
    \<open>Scheduler_Requests\<close> and \<open>Scheduler_Sync\<close> show that every loop and entry point is made of such steps or
    keeps the invariant itself.  \<open>Scheduler_Run\<close> interleaves the entry points in any order and shows, by
    the locale \<open>run_refinement\<close>, that each run refines one of the runtime, and what that gives: the
    tables agree, dispatches go to current targets, waiting programs stay queued.  \<open>Scheduler_Policy\<close>
    shows what the decisions promise: resume order, watermarks, no starvation.  \<open>Scheduler_Sample\<close> has
    the run the witnesses use.

  \<^bold>\<open>Responses.\<close>  \<open>Stop_Decoder\<close> (\<^verbatim>\<open>tokenizer/stop.rs\<close>) and \<open>Token_Stream\<close> (\<^verbatim>\<open>tokenizer/stream.rs\<close>, \<^verbatim>\<open>tokenizer/sequence.rs\<close>)
  decode tokens incrementally with the tokenizer as an argument; \<open>Response_Store\<close> (\<^verbatim>\<open>data_connector\<close>) keeps
  responses, with the locale \<open>response_storage\<close> for what both stores promise.

  \<^bold>\<open>Conventions.\<close>  A method under a lock or on one atomic is one function of the state; concurrent use is a
  step relation that interleaves such functions.  The clock, random draws, the network, tokenizers,
  generated identifiers and the iteration orders of hash maps are arguments; what is assumed of an
  order is \<open>iteration_ok\<close>: it lists the entries of the map.  Panics and errors are values.  Counters that
  the code lets wrap are words; those that saturate are naturals with the saturation written out;
  \<^verbatim>\<open>f64\<close> values are reals.

  \<^bold>\<open>Bounds.\<close>  Loops are total functions with a measure (the scheduling loops end because a commit
  shortens the queue; the removal and the eviction of a tenant because paths get shorter), or
  \<open>partial_function (option)\<close> where the code may diverge on other states (the lookup of a root), with
  termination on reachable states as a theorem.  The bounded walks of the lineage take \<open>Suc (length m)\<close>
  turns, as in the code, which is more than the height of any forest with that many edges.  The
  states of \<open>rt_reach\<close> are those of fewer than \<open>2 ^ 64\<close> operations, before any counter saturates; no other
  result is bounded.

  \<^bold>\<open>Not modelled.\<close>  The HTTP, gRPC and ZeroMQ transports, protocol types and the server (input, output and
  generated code); the KV-aware policy and its index; configuration parsing and the policy factory;
  tokenizers and chat templates (third-party code); the parsing of program identities and of the
  metrics text; metrics, logs and traces; locking inside the radix tree, whose operations are atomic
  here; the waiting of an asynchronous task between two critical sections; the state a panic would
  leave behind in the middle of a critical section.
\<close>

end
